(* ===== verification/Color_Prelude.thy ===== *)
theory Color_Prelude
  imports Main "HOL-Library.Word" "HOL-Library.AList"
begin

text \<open>
  Shared vocabulary of the Color development: the machine types of the C++ code, the
  containers of its standard library, decimal printing, and the lemmas on words, lists
  and containers that every component theory uses.

  \<^item> \<open>std::uint64_t\<close> and \<open>std::size_t\<close> are \<open>64 word\<close>; addition wraps as in C++.
  \<^item> \<open>std::unordered_map<K, V>\<close> is an association list with distinct keys. The list
    order is the container's iteration order. The C++ standard leaves that order open;
    this model appends a new key at the end, and the theorems about code that iterates
    over a map speak of lookups only, so that they do not rest on the choice.
  \<^item> \<open>std::unordered_set<K>\<close> is a set: the code only inserts, erases and counts.
  \<^item> \<open>std::string\<close> is \<open>string\<close>, a list of bytes.
\<close>

type_synonym seq = "64 word"
type_synonym hash = "64 word"
type_synonym size_t = "64 word"
type_synonym ('k, 'v) umap = "('k \<times> 'v) list"

text \<open>Rewriting rules that reduce container operations to lookups.\<close>
named_theorems um_simps

section \<open>Unordered maps\<close>

abbreviation um_find :: "('k, 'v) umap \<Rightarrow> 'k \<Rightarrow> 'v option" where
  "um_find \<equiv> map_of"

abbreviation um_put :: "'k \<Rightarrow> 'v \<Rightarrow> ('k, 'v) umap \<Rightarrow> ('k, 'v) umap" where
  "um_put \<equiv> AList.update"

abbreviation um_erase :: "'k \<Rightarrow> ('k, 'v) umap \<Rightarrow> ('k, 'v) umap" where
  "um_erase \<equiv> AList.delete"

abbreviation um_keys :: "('k, 'v) umap \<Rightarrow> 'k set" where
  "um_keys m \<equiv> dom (map_of m)"

definition um_wf :: "('k, 'v) umap \<Rightarrow> bool" where
  "um_wf m \<longleftrightarrow> distinct (map fst m)"

text \<open>
  The contract of \<open>std::unordered_map\<close> the two state machines rely on: what \<open>find\<close>
  returns after \<open>operator[]\<close> and \<open>erase\<close>, and that \<open>size\<close> counts the keys.
\<close>

locale unordered_map =
  fixes find :: "'m \<Rightarrow> 'k \<Rightarrow> 'v option"
    and put :: "'k \<Rightarrow> 'v \<Rightarrow> 'm \<Rightarrow> 'm"
    and erase :: "'k \<Rightarrow> 'm \<Rightarrow> 'm"
    and size_of :: "'m \<Rightarrow> nat"
    and wf :: "'m \<Rightarrow> bool"
  assumes find_put: "find (put k v m) = (find m)(k \<mapsto> v)"
    and find_erase: "find (erase k m) = (find m)(k := None)"
    and size_card: "wf m \<Longrightarrow> size_of m = card (dom (find m))"
    and finite_keys: "finite (dom (find m))"
    and wf_put: "wf m \<Longrightarrow> wf (put k v m)"
    and wf_erase: "wf m \<Longrightarrow> wf (erase k m)"
begin

text \<open>Erasing a list of keys, as the acknowledgement loop does.\<close>

lemma find_erase_list:
  "find (fold erase ks m) = (\<lambda>k. if k \<in> set ks then None else find m k)"
  by (induction ks arbitrary: m) (auto simp: find_erase)

lemma keys_erase_list: "dom (find (fold erase ks m)) = dom (find m) - set ks"
  by (auto simp: find_erase_list split: if_splits)

lemma wf_erase_list: "wf m \<Longrightarrow> wf (fold erase ks m)"
  by (induction ks arbitrary: m) (auto simp: wf_erase)

text \<open>Storing a list of entries with distinct keys, as the restoring constructor does.\<close>

lemma find_put_list:
  "distinct (map f xs) \<Longrightarrow>
   find (fold (\<lambda>x. put (f x) (g x)) xs m) k =
     (case map_of (map (\<lambda>x. (f x, g x)) xs) k of None \<Rightarrow> find m k | Some v \<Rightarrow> Some v)"
proof (induction xs arbitrary: m)
  case Nil
  then show ?case by simp
next
  case (Cons x xs)
  have "map_of (map (\<lambda>x. (f x, g x)) xs) (f x) = None"
    using Cons.prems by (auto simp: map_of_eq_None_iff image_image)
  then show ?case
    using Cons by (auto simp: find_put split: option.splits)
qed

lemma wf_put_list: "wf m \<Longrightarrow> wf (fold (\<lambda>x. put (f x) (g x)) xs m)"
  by (induction xs arbitrary: m) (auto simp: wf_put)

lemma size_le_superset:
  assumes "wf m" and "dom (find m) \<subseteq> A" and "finite A"
  shows "size_of m \<le> card A"
  using assms by (simp add: size_card card_mono)

end

interpretation umap: unordered_map um_find um_put um_erase length um_wf
proof
  fix k :: 'k and v :: 'v and m :: "('k, 'v) umap"
  show "um_find (um_put k v m) = (um_find m)(k \<mapsto> v)" by (rule update_conv')
  show "um_find (um_erase k m) = (um_find m)(k := None)" by (rule delete_conv')
  show "length m = card (um_keys m)" if "um_wf m"
    using that distinct_card [of "map fst m"] by (simp add: um_wf_def dom_map_of_conv_image_fst)
  show "finite (um_keys m)" by (rule finite_dom_map_of)
  show "um_wf (um_put k v m)" if "um_wf m"
    using that by (simp add: um_wf_def distinct_update)
  show "um_wf (um_erase k m)" if "um_wf m"
    using that by (simp add: um_wf_def distinct_delete)
qed

lemmas [um_simps] =
  umap.find_put umap.find_erase umap.find_erase_list umap.keys_erase_list
  umap.wf_put umap.wf_erase umap.wf_erase_list

lemma um_wf_Nil [simp]: "um_wf []"
  by (simp add: um_wf_def)

lemma um_wf_filter: "um_wf m \<Longrightarrow> um_wf (filter P m)"
  by (auto simp: um_wf_def distinct_map_filter)

lemma find_filter_key:
  "um_wf m \<Longrightarrow> um_find (filter (\<lambda>kv. P (fst kv)) m) k = (if P k then um_find m k else None)"
  by (induction m) (auto simp: um_wf_def map_of_eq_None_iff)

lemma length_erase_less:
  assumes "um_find m k \<noteq> None"
  shows "length (um_erase k m) < length m"
proof -
  have "\<exists>x \<in> set m. fst x = k"
    using assms by (metis domIff dom_map_of_conv_image_fst imageE)
  then show ?thesis
    unfolding AList.delete_eq by (auto intro: length_filter_less)
qed

lemma length_put_fresh: "k \<notin> um_keys m \<Longrightarrow> length (um_put k v m) = Suc (length m)"
  by (induction m) (auto split: if_splits)

section \<open>Words\<close>

lemma unat_plus_one:
  fixes w :: "64 word"
  assumes "unat w + 1 < 2 ^ 64"
  shows "unat (w + 1) = unat w + 1"
  using assms by (simp add: unat_word_ariths)

lemma unat_of_nat_64: "n < 2 ^ 64 \<Longrightarrow> unat (of_nat n :: 64 word) = n"
  by (simp add: unat_of_nat)

lemma unat_64_less: "unat (w :: 64 word) < 2 ^ 64"
  using unsigned_less [of w] by simp

lemma word64_eqI: "unat (v :: 64 word) = unat w \<Longrightarrow> v = w"
  by (simp add: word_unat_eq_iff)

lemma unat_ucast_byte: "unat (ucast (b :: 8 word) :: 64 word) = unat b"
  using unsigned_less [of b, where ?'a = nat]
  by (simp add: unsigned_ucast_eq take_bit_nat_eq_self)

lemma unat_of_char: "unat (of_char c :: 8 word) = of_char c"
proof -
  have "(of_char c :: 8 word) = of_nat (of_char c)" by (simp add: of_nat_of_char)
  then show ?thesis by (simp add: unat_of_nat)
qed

text \<open>The ids of a contiguous range of sequence numbers, counted.\<close>

lemma card_unat_range:
  assumes "A \<subseteq> {q :: 64 word. 1 \<le> unat q \<and> unat q \<le> n}"
  shows "finite A \<and> card A \<le> n"
proof -
  have "unat ` A \<subseteq> {1..n}" using assms by auto
  then have "card (unat ` A) \<le> card {1..n}" by (intro card_mono) auto
  moreover have "inj_on unat A" by (auto intro: inj_onI word64_eqI)
  ultimately show ?thesis by (simp add: card_image)
qed

section \<open>Decimal printing: \<open>std::to_string\<close>\<close>

definition digit :: "nat \<Rightarrow> char" where
  "digit d = char_of (48 + d)"

fun show_nat :: "nat \<Rightarrow> string" where
  "show_nat n = (if n < 10 then [digit n] else show_nat (n div 10) @ [digit (n mod 10)])"

declare show_nat.simps [simp del]

definition to_string :: "64 word \<Rightarrow> string" where
  "to_string w = show_nat (unat w)"

definition digit_val :: "char \<Rightarrow> nat" where
  "digit_val c = of_char c - 48"

definition is_digit :: "char \<Rightarrow> bool" where
  "is_digit c \<longleftrightarrow> 48 \<le> (of_char c :: nat) \<and> (of_char c :: nat) \<le> 57"

definition nat_of_digits :: "string \<Rightarrow> nat" where
  "nat_of_digits s = foldl (\<lambda>n c. 10 * n + digit_val c) 0 s"

text \<open>
  \<open>std::strtoull\<close> in base 10: white space is skipped, then come an optional sign and the
  longest run of digits; the largest value on overflow, negation in the unsigned type after
  a minus sign.
\<close>

definition is_space :: "char \<Rightarrow> bool" where
  "is_space c \<longleftrightarrow> c = CHR '' '' \<or> (9 \<le> (of_char c :: nat) \<and> (of_char c :: nat) \<le> 13)"

definition strtoull :: "string \<Rightarrow> 64 word" where
  "strtoull s =
     (let s = dropWhile is_space s;
          neg = (s \<noteq> [] \<and> hd s = CHR ''-'');
          s = (if s \<noteq> [] \<and> (hd s = CHR ''-'' \<or> hd s = CHR ''+'') then tl s else s);
          v = nat_of_digits (takeWhile is_digit s)
      in if v \<ge> 2 ^ 64 then - 1 else if neg then - of_nat v else of_nat v)"

lemma digit_simps [simp]:
  "digit 0 = CHR ''0''" "digit (Suc 0) = CHR ''1''" "digit 1 = CHR ''1''" "digit 2 = CHR ''2''"
  "digit 3 = CHR ''3''" "digit 4 = CHR ''4''" "digit 5 = CHR ''5''" "digit 6 = CHR ''6''"
  "digit 7 = CHR ''7''" "digit 8 = CHR ''8''" "digit 9 = CHR ''9''"
  by (simp_all add: digit_def char_of_def bit_0)

lemma of_char_digit: "d < 10 \<Longrightarrow> (of_char (digit d) :: nat) = 48 + d"
  by (simp add: digit_def)

lemma digit_val_digit [simp]: "d < 10 \<Longrightarrow> digit_val (digit d) = d"
  by (simp add: digit_val_def of_char_digit)

lemma is_digit_digit [simp]: "d < 10 \<Longrightarrow> is_digit (digit d)"
  by (simp add: is_digit_def of_char_digit)

lemma show_nat_digits: "list_all is_digit (show_nat n)"
proof (induction n rule: show_nat.induct)
  case (1 n)
  then show ?case by (subst show_nat.simps) simp
qed

lemma show_nat_not_Nil [simp]: "show_nat n \<noteq> []"
  by (subst show_nat.simps) simp

lemma nat_of_digits_show: "nat_of_digits (show_nat n) = n"
proof (induction n rule: show_nat.induct)
  case (1 n)
  show ?case
  proof (cases "n < 10")
    case True
    then show ?thesis by (subst show_nat.simps) (simp add: nat_of_digits_def)
  next
    case False
    with "1.IH" show ?thesis
      by (subst show_nat.simps) (simp add: nat_of_digits_def)
  qed
qed

lemma to_string_digits: "list_all is_digit (to_string w)"
  by (simp add: to_string_def show_nat_digits)

lemma to_string_not_Nil [simp]: "to_string w \<noteq> []"
  by (simp add: to_string_def)

lemma to_string_inj: "to_string v = to_string w \<longleftrightarrow> v = w"
  by (metis nat_of_digits_show to_string_def word64_eqI)

lemma digit_not_special: "is_digit c \<Longrightarrow> \<not> is_space c \<and> c \<noteq> CHR ''-'' \<and> c \<noteq> CHR ''+''"
  by (auto simp: is_digit_def is_space_def)

lemma takeWhile_digits:
  assumes "list_all is_digit ds" and "rest = [] \<or> \<not> is_digit (hd rest)"
  shows "takeWhile is_digit (ds @ rest) = ds"
  using assms by (cases rest) (simp_all add: list_all_iff)

text \<open>A printed number is read back, whatever follows it, as long as that is not a digit.\<close>

lemma strtoull_append:
  assumes "rest = [] \<or> \<not> is_digit (hd rest)"
  shows "strtoull (to_string w @ rest) = w"
proof -
  obtain d ds where ds: "to_string w = d # ds" by (cases "to_string w") simp_all
  have d: "list_all is_digit (to_string w)" by (rule to_string_digits)
  then have "\<not> is_space d" "d \<noteq> CHR ''-''" "d \<noteq> CHR ''+''" using ds digit_not_special by auto
  moreover have "takeWhile is_digit (d # ds @ rest) = to_string w"
    using takeWhile_digits [OF d assms] ds by (simp only: append_Cons)
  moreover have "nat_of_digits (to_string w) = unat w"
    by (simp add: to_string_def nat_of_digits_show)
  ultimately show ?thesis
    using unat_64_less [of w] by (simp add: strtoull_def ds del: takeWhile.simps)
qed

lemma strtoull_to_string: "strtoull (to_string w) = w"
  using strtoull_append [of "[]" w] by simp

section \<open>Lists\<close>

lemma take_Suc_snoc: "k < length xs \<Longrightarrow> take (Suc k) xs = take k xs @ [xs ! k]"
  by (rule take_Suc_conv_app_nth)

end
