(* ===== verification/Sim_Network.thy ===== *)
theory Sim_Network
  imports Complex_Main Color_Prelude
begin

text \<open>
  The simulated lossy link of the harness, \<open>verification/src/sim_network.h\<close>.

  The random generator and the distributions of the C++ standard library are the parameter
  \<open>G\<close>: how a generator state gives the next 64-bit number, the next real in the unit
  interval, the next number of arrivals. Nothing is assumed about them. The two links
  share one generator by reference, so its state is passed through every operation. The
  ordered multimap of pending messages is a list sorted by delivery time, equal times in
  insertion order.
\<close>

record 'g rng =
  rng_next :: "'g \<Rightarrow> 64 word \<times> 'g"
  rng_uniform :: "'g \<Rightarrow> real \<times> 'g"
  rng_arrivals :: "'g \<Rightarrow> int \<times> 'g"

record link_config =
  p_drop :: real
  p_dup :: real
  min_latency :: int
  max_latency :: int

record 'm link =
  lk_cfg :: link_config
  lk_queue :: "(64 word \<times> 'm) list"
  lk_sent :: "64 word"
  lk_dropped :: "64 word"
  lk_duplicated :: "64 word"
  lk_delivered :: "64 word"

definition link_new :: "link_config \<Rightarrow> 'm link" where
  "link_new cfg = \<lparr>lk_cfg = cfg, lk_queue = [], lk_sent = 0, lk_dropped = 0, lk_duplicated = 0, lk_delivered = 0\<rparr>"

definition bernoulli :: "'g rng \<Rightarrow> real \<Rightarrow> 'g \<Rightarrow> bool \<times> 'g" where
  "bernoulli G p g = (let (u, g) = rng_uniform G g in (u < p, g))"

text \<open>\<open>std::multimap::emplace\<close>: after every entry whose key is not larger.\<close>

fun mm_insert :: "64 word \<Rightarrow> 'm \<Rightarrow> (64 word \<times> 'm) list \<Rightarrow> (64 word \<times> 'm) list" where
  "mm_insert k v [] = [(k, v)]"
| "mm_insert k v (e # q) = (if k < fst e then (k, v) # e # q else e # mm_insert k v q)"

definition schedule ::
    "'g rng \<Rightarrow> 64 word \<Rightarrow> 'm \<Rightarrow> 'm link \<Rightarrow> 'g \<Rightarrow> 'm link \<times> 'g" where
  "schedule G now m l g =
     (let cfg = lk_cfg l; span = max_latency cfg - min_latency cfg;
          (extra, g) = (if span > 0
                        then (let (x, g) = rng_next G g in (uint (x mod of_int (span + 1)), g))
                        else (0, g));
          at_time = now + of_int (min_latency cfg) + of_int extra
      in (l\<lparr>lk_queue := mm_insert at_time m (lk_queue l)\<rparr>, g))"

definition link_send ::
    "'g rng \<Rightarrow> 64 word \<Rightarrow> 'm \<Rightarrow> 'm link \<Rightarrow> 'g \<Rightarrow> 'm link \<times> 'g" where
  "link_send G now m l g =
     (let l = l\<lparr>lk_sent := lk_sent l + 1\<rparr>; (dropped, g) = bernoulli G (p_drop (lk_cfg l)) g
      in if dropped then (l\<lparr>lk_dropped := lk_dropped l + 1\<rparr>, g)
         else (let (l, g) = schedule G now m l g; (duplicated, g) = bernoulli G (p_dup (lk_cfg l)) g
               in if duplicated
                  then schedule G now m (l\<lparr>lk_duplicated := lk_duplicated l + 1\<rparr>) g
                  else (l, g)))"

definition link_due :: "64 word \<Rightarrow> 'm link \<Rightarrow> 'm list \<times> 'm link" where
  "link_due now l =
     (let out = takeWhile (\<lambda>e. \<not> fst e > now) (lk_queue l)
      in (map snd out,
          l\<lparr>lk_queue := dropWhile (\<lambda>e. \<not> fst e > now) (lk_queue l),
            lk_delivered := lk_delivered l + of_nat (length out)\<rparr>))"

definition link_empty :: "'m link \<Rightarrow> bool" where
  "link_empty l \<longleftrightarrow> lk_queue l = []"

definition set_config :: "link_config \<Rightarrow> 'm link \<Rightarrow> 'm link" where
  "set_config cfg l = l\<lparr>lk_cfg := cfg\<rparr>"

section \<open>What a link delivers\<close>

definition link_msgs :: "'m link \<Rightarrow> 'm set" where
  "link_msgs l = snd ` set (lk_queue l)"

text \<open>
  The invariant of a link: messages are kept in delivery order, and every message offered
  is dropped, delivered or still queued, counting the second copies.
\<close>

definition link_ok :: "'m link \<Rightarrow> bool" where
  "link_ok l \<longleftrightarrow> sorted (map fst (lk_queue l)) \<and>
     lk_sent l + lk_duplicated l = lk_dropped l + lk_delivered l + of_nat (length (lk_queue l))"

lemma mm_insert_set: "set (mm_insert k v q) = insert (k, v) (set q)"
  by (induction q) auto

lemma mm_insert_length: "length (mm_insert k v q) = Suc (length q)"
  by (induction q) auto

lemma mm_insert_sorted: "sorted (map fst q) \<Longrightarrow> sorted (map fst (mm_insert k v q))"
  by (induction q) (auto simp: mm_insert_set)

lemma link_new_ok [simp]: "link_ok (link_new cfg)" "link_msgs (link_new cfg) = {}"
  by (simp_all add: link_ok_def link_new_def link_msgs_def)

lemma schedule_parts:
  "\<exists>at_time. fst (schedule G now m l g) = l\<lparr>lk_queue := mm_insert at_time m (lk_queue l)\<rparr>"
  by (simp add: schedule_def Let_def case_prod_beta) blast

lemma link_send_msgs: "link_msgs (fst (link_send G now m l g)) \<subseteq> insert m (link_msgs l)"
proof -
  have "link_msgs (fst (schedule G now m k h)) = insert m (link_msgs k)" for k h
    using schedule_parts [of G now m k h] by (auto simp: link_msgs_def mm_insert_set)
  then show ?thesis
    by (auto simp: link_send_def Let_def case_prod_beta link_msgs_def)
qed

lemma link_due_msgs:
  "set (fst (link_due now l)) \<subseteq> link_msgs l" "link_msgs (snd (link_due now l)) \<subseteq> link_msgs l"
  by (auto simp: link_due_def Let_def link_msgs_def dest: set_takeWhileD set_dropWhileD)


lemma schedule_ok:
  assumes "sorted (map fst (lk_queue l))"
    and "lk_sent l + lk_duplicated l = lk_dropped l + lk_delivered l + of_nat (length (lk_queue l)) + 1"
  shows "link_ok (fst (schedule G now m l g))"
  using assms schedule_parts [of G now m l g]
  by (auto simp: link_ok_def mm_insert_sorted mm_insert_length)

lemma link_send_ok: "link_ok l \<Longrightarrow> link_ok (fst (link_send G now m l g))"
proof -
  assume ok: "link_ok l"
  let ?l = "l\<lparr>lk_sent := lk_sent l + 1\<rparr>" and ?b = "bernoulli G (p_drop (lk_cfg l)) g"
  let ?s = "schedule G now m ?l (snd ?b)"
  have one: "link_ok (fst ?s)" using ok by (intro schedule_ok) (auto simp: link_ok_def algebra_simps)
  have two: "link_ok (fst (schedule G now m
      (fst ?s\<lparr>lk_duplicated := lk_duplicated (fst ?s) + 1\<rparr>) h))" for h
    using one by (intro schedule_ok) (auto simp: link_ok_def algebra_simps)
  have "link_ok (?l\<lparr>lk_dropped := lk_dropped ?l + 1\<rparr>)"
    using ok by (auto simp: link_ok_def algebra_simps)
  then show ?thesis using one two by (simp add: link_send_def Let_def case_prod_beta)
qed

lemma sorted_takeWhile_filter:
  "sorted (map fst q) \<Longrightarrow>
   takeWhile (\<lambda>e. \<not> fst e > now) q = filter (\<lambda>e. fst e \<le> now) q \<and>
   dropWhile (\<lambda>e. \<not> fst e > now) q = filter (\<lambda>e. fst e > now) q"
  for now :: "64 word"
proof (induction q)
  case (Cons e q)
  have "filter (\<lambda>e. fst e \<le> now) q = [] \<and> filter (\<lambda>e. fst e > now) q = q" if "fst e > now"
    using Cons.prems that by (fastforce simp: filter_empty_conv filter_id_conv)
  then show ?case using Cons by (auto simp: not_less)
qed simp

lemma link_due_ok:
  assumes "link_ok l"
  shows "fst (link_due now l) = map snd (filter (\<lambda>e. fst e \<le> now) (lk_queue l))"
    and "lk_queue (snd (link_due now l)) = filter (\<lambda>e. fst e > now) (lk_queue l)"
    and "link_ok (snd (link_due now l))"
proof -
  note f = sorted_takeWhile_filter [of "lk_queue l" now]
  have s: "sorted (map fst (lk_queue l))" using assms by (simp add: link_ok_def)
  show "fst (link_due now l) = map snd (filter (\<lambda>e. fst e \<le> now) (lk_queue l))"
    and q: "lk_queue (snd (link_due now l)) = filter (\<lambda>e. fst e > now) (lk_queue l)"
    using f s by (simp_all add: link_due_def Let_def)
  let ?out = "takeWhile (\<lambda>e. \<not> fst e > now) (lk_queue l)"
    and ?rest = "dropWhile (\<lambda>e. \<not> fst e > now) (lk_queue l)"
  have "length (lk_queue l) = length ?out + length ?rest"
    by (metis length_append takeWhile_dropWhile_id)
  then have "lk_sent l + lk_duplicated l =
      lk_dropped l + (lk_delivered l + of_nat (length ?out)) + of_nat (length ?rest)"
    using assms by (simp only: link_ok_def of_nat_add add.assoc)
  moreover have "sorted (map fst ?rest)"
    using s f sorted_filter [of fst "lk_queue l" "\<lambda>e. fst e > now"] by simp
  ultimately show "link_ok (snd (link_due now l))"
    by (simp add: link_ok_def link_due_def Let_def)
qed

end
