(* ===== verification/Color_Message.thy ===== *)
theory Color_Message
  imports Color_Prelude
begin

text \<open>
  The wire messages of \<open>src/core/color_message.h\<close>: the two structs a transport moves
  between client and server, with the defaults of their member initialisers.
\<close>

record request =
  req_seq :: seq
  req_ack_base :: seq
  req_ack_new :: "seq list"
  req_hash :: "hash option"
  req_payload :: string

definition default_request :: request where
  "default_request =
     \<lparr>req_seq = 0, req_ack_base = 1, req_ack_new = [], req_hash = None, req_payload = []\<rparr>"

record response =
  rsp_seq :: seq
  rsp_hash :: "hash option"
  rsp_payload :: string
  rsp_no_op :: bool
  rsp_recover :: bool
  rsp_recover_from :: size_t

definition default_response :: response where
  "default_response =
     \<lparr>rsp_seq = 0, rsp_hash = None, rsp_payload = [], rsp_no_op = False,
      rsp_recover = False, rsp_recover_from = 0\<rparr>"

lemma default_response_fields [simp]:
  "rsp_seq default_response = 0" "rsp_hash default_response = None"
  "rsp_payload default_response = []" "\<not> rsp_no_op default_response"
  "\<not> rsp_recover default_response" "rsp_recover_from default_response = 0"
  by (simp_all add: default_response_def)

lemma default_request_fields [simp]:
  "req_seq default_request = 0" "req_ack_base default_request = 1"
  "req_ack_new default_request = []" "req_hash default_request = None"
  "req_payload default_request = []"
  by (simp_all add: default_request_def)

end
