(* ===== verification/Color_History.thy ===== *)
theory Color_History
  imports Color_Message
begin

unbundle bit_operations_syntax

text \<open>
  The committed history and its rolling hash, \<open>src/core/color_history.h\<close> and
  \<open>color_history.cc\<close>. An event is a request token \<open>R<seq>\<close> or a response token
  \<open>r<seq>\<close>; a history keeps the events appended since its last resume, the running
  64-bit FNV-1a hash, and the number of events folded into a resumed hash.

  The lemmas show that the hash of a history is the chain of its whole logical event
  sequence (whether the prefix is retained or was folded in by a resume), and what one
  link of that chain is guaranteed to distinguish.
\<close>

section \<open>Events\<close>

record event =
  ev_is_response :: bool
  ev_seq :: seq

abbreviation Rq :: "seq \<Rightarrow> event" where
  "Rq n \<equiv> \<lparr>ev_is_response = False, ev_seq = n\<rparr>"

abbreviation Rs :: "seq \<Rightarrow> event" where
  "Rs n \<equiv> \<lparr>ev_is_response = True, ev_seq = n\<rparr>"

definition event_eq :: "event \<Rightarrow> event \<Rightarrow> bool" where
  "event_eq e f \<longleftrightarrow> ev_is_response e = ev_is_response f \<and> ev_seq e = ev_seq f"

definition event_str :: "event \<Rightarrow> string" where
  "event_str e = (if ev_is_response e then ''r'' else ''R'') @ to_string (ev_seq e)"

lemma event_eq_iff [simp]: "event_eq e f \<longleftrightarrow> e = f"
  by (auto simp: event_eq_def)

section \<open>The FNV-1a chain\<close>

definition kFnvOffsetBasis :: hash where
  "kFnvOffsetBasis = 1469598103934665603"

definition kFnvPrime :: hash where
  "kFnvPrime = 1099511628211"

definition kSeedLabel :: string where
  "kSeedLabel = ''color/v1''"

definition kSeparator :: "8 word" where
  "kSeparator = of_char CHR '':''"

definition fnv_mix :: "hash \<Rightarrow> 8 word \<Rightarrow> hash" where
  "fnv_mix h b = (h XOR ucast b) * kFnvPrime"

definition uchar :: "char \<Rightarrow> 8 word" where
  "uchar c = of_char c"

definition hash_seed :: hash where
  "hash_seed = foldl (\<lambda>h c. fnv_mix h (uchar c)) kFnvOffsetBasis kSeedLabel"

definition hash_step :: "hash \<Rightarrow> event \<Rightarrow> hash" where
  "hash_step prev e =
     (let h = prev;
          h = foldl (\<lambda>h i. fnv_mix h (ucast (drop_bit (8 * i) prev AND 0xff))) h [0..<8];
          h = fnv_mix h kSeparator
      in foldl (\<lambda>h c. fnv_mix h (uchar c)) h (event_str e))"

section \<open>The history\<close>

record history =
  h_events :: "event list"
  h_cur_hash :: hash
  h_base_count :: size_t

definition history_new :: history where
  "history_new = \<lparr>h_events = [], h_cur_hash = hash_seed, h_base_count = 0\<rparr>"

definition history_resume :: "hash \<Rightarrow> size_t \<Rightarrow> history" where
  "history_resume resumed_hash n =
     \<lparr>h_events = [], h_cur_hash = resumed_hash, h_base_count = n\<rparr>"

definition history_append :: "event \<Rightarrow> history \<Rightarrow> hash \<times> history" where
  "history_append e H =
     (let H = H\<lparr>h_events := h_events H @ [e]\<rparr>;
          H = H\<lparr>h_cur_hash := hash_step (h_cur_hash H) e\<rparr>
      in (h_cur_hash H, H))"

definition event_count :: "history \<Rightarrow> size_t" where
  "event_count H = h_base_count H + of_nat (length (h_events H))"

fun join_events :: "nat \<Rightarrow> event list \<Rightarrow> string \<Rightarrow> string" where
  "join_events i [] s = s"
| "join_events i (e # es) s =
     join_events (Suc i) es ((if i \<noteq> 0 then s @ '' '' else s) @ event_str e)"

definition history_str :: "history \<Rightarrow> string" where
  "history_str H = join_events 0 (h_events H) []"

text \<open>Appending without the returned hash, as the statement \<open>history_.append(...)\<close> does.\<close>

definition history_push :: "event \<Rightarrow> history \<Rightarrow> history" where
  "history_push e H = snd (history_append e H)"

section \<open>The hash of a history is the chain of its logical event sequence\<close>

definition hash_of :: "event list \<Rightarrow> hash" where
  "hash_of es = foldl hash_step hash_seed es"

text \<open>
  \<open>represents H es\<close>: the logical history of \<open>H\<close> is \<open>es\<close>; \<open>H\<close> retains the
  suffix from its base count on and carries the hash of all of it.
\<close>

definition represents :: "history \<Rightarrow> event list \<Rightarrow> bool" where
  "represents H es \<longleftrightarrow>
     h_cur_hash H = hash_of es \<and>
     unat (h_base_count H) \<le> length es \<and>
     h_events H = drop (unat (h_base_count H)) es"

lemma history_append_simps [simp]:
  "fst (history_append e H) = hash_step (h_cur_hash H) e"
  "h_events (history_push e H) = h_events H @ [e]"
  "h_cur_hash (history_push e H) = hash_step (h_cur_hash H) e"
  "h_base_count (history_push e H) = h_base_count H"
  by (simp_all add: history_append_def history_push_def Let_def)

lemma history_append_eq: "history_append e H = (hash_step (h_cur_hash H) e, history_push e H)"
  by (simp add: history_append_def history_push_def Let_def)

text \<open>
  The contract the two state machines rely on: an append adds one event to the count and
  one link to the hash. Two histories with the same hash stay in step under the same
  appends, however much of the prefix either retains.
\<close>

locale rolling_history =
  fixes push :: "'e \<Rightarrow> 'h \<Rightarrow> 'h"
    and hash_at :: "'h \<Rightarrow> 'x"
    and link :: "'x \<Rightarrow> 'e \<Rightarrow> 'x"
    and counter :: "'h \<Rightarrow> 64 word"
  assumes hash_push: "hash_at (push e h) = link (hash_at h) e"
    and count_push: "counter (push e h) = counter h + 1"
begin

lemma hash_push_list: "hash_at (fold push es h) = foldl link (hash_at h) es"
  by (induction es arbitrary: h) (simp_all add: hash_push)

lemma count_push_list: "counter (fold push es h) = counter h + of_nat (length es)"
  by (induction es arbitrary: h) (simp_all add: count_push algebra_simps)

lemma hash_in_step:
  "hash_at h = hash_at h' \<Longrightarrow> hash_at (fold push es h) = hash_at (fold push es h')"
  by (simp add: hash_push_list)

end

interpretation hist: rolling_history history_push h_cur_hash hash_step event_count
  by unfold_locales (simp_all add: event_count_def)

lemma hash_of_simps [simp]:
  "hash_of [] = hash_seed"
  "hash_of (es @ [e]) = hash_step (hash_of es) e"
  by (simp_all add: hash_of_def)

lemma represents_new: "represents history_new []"
  by (simp add: represents_def history_new_def)

lemma represents_push: "represents H es \<Longrightarrow> represents (history_push e H) (es @ [e])"
  by (simp add: represents_def)

lemma represents_push_list: "represents H es \<Longrightarrow> represents (fold history_push fs H) (es @ fs)"
proof (induction fs arbitrary: H es)
  case Nil
  then show ?case by simp
next
  case (Cons f fs)
  then have "represents (fold history_push fs (history_push f H)) ((es @ [f]) @ fs)"
    by (blast intro: represents_push)
  then show ?case by simp
qed

lemma base_count_push_list [simp]: "h_base_count (fold history_push es H) = h_base_count H"
  by (induction es arbitrary: H) simp_all

lemma represents_count: "represents H es \<Longrightarrow> event_count H = of_nat (length es)"
  by (simp add: represents_def event_count_def of_nat_diff)

lemma represents_unat_count:
  "represents H es \<Longrightarrow> length es < 2 ^ 64 \<Longrightarrow> unat (event_count H) = length es"
  by (simp add: represents_count unat_of_nat_64)

lemma represents_hash: "represents H es \<Longrightarrow> h_cur_hash H = hash_of es"
  by (simp add: represents_def)

lemma represents_resume:
  "length es < 2 ^ 64 \<Longrightarrow> represents (history_resume (hash_of es) (of_nat (length es))) es"
  by (simp add: represents_def history_resume_def unat_of_nat_64)

section \<open>What one link of the chain distinguishes\<close>

lemma kFnvPrime_invertible: "kFnvPrime * 14886173955864302971 = 1"
  by (simp add: kFnvPrime_def)

lemma fnv_mix_inj_hash: "fnv_mix h b = fnv_mix h' b \<longleftrightarrow> h = h'"
proof
  assume "fnv_mix h b = fnv_mix h' b"
  then have "(h XOR ucast b) * (kFnvPrime * 14886173955864302971) =
             (h' XOR ucast b) * (kFnvPrime * 14886173955864302971)"
    by (simp add: fnv_mix_def mult.assoc [symmetric])
  then have "(h XOR ucast b) XOR ucast b = (h' XOR ucast b) XOR ucast b"
    by (simp add: kFnvPrime_invertible)
  then show "h = h'" by (simp add: xor.assoc)
qed simp

lemma fnv_mix_inj_byte: "fnv_mix h b = fnv_mix h b' \<longleftrightarrow> b = b'"
proof
  assume "fnv_mix h b = fnv_mix h b'"
  then have "(h XOR ucast b) * (kFnvPrime * 14886173955864302971) =
             (h XOR ucast b') * (kFnvPrime * 14886173955864302971)"
    by (simp add: fnv_mix_def mult.assoc [symmetric])
  then have "h XOR (h XOR ucast b) = h XOR (h XOR (ucast b' :: hash))"
    by (simp add: kFnvPrime_invertible)
  then have "ucast b = (ucast b' :: hash)" by (simp add: xor.assoc [symmetric])
  then show "b = b'" by (metis unat_ucast_byte word_unat_eq_iff)
qed simp

abbreviation fnv_bytes :: "hash \<Rightarrow> string \<Rightarrow> hash" where
  "fnv_bytes \<equiv> foldl (\<lambda>h c. fnv_mix h (uchar c))"

lemma fnv_bytes_inj: "fnv_bytes h s = fnv_bytes h' s \<longleftrightarrow> h = h'"
  by (induction s arbitrary: h h') (simp_all add: fnv_mix_inj_hash)

lemma uchar_inj: "uchar c = uchar d \<longleftrightarrow> c = d"
proof
  assume "uchar c = uchar d"
  then have "(of_char c :: nat) = of_char d" by (metis uchar_def unat_of_char)
  then show "c = d" by simp
qed simp

text \<open>Changing exactly one byte of the text fed to the chain changes the hash.\<close>

lemma fnv_bytes_one_byte:
  assumes "c \<noteq> d"
  shows "fnv_bytes h (s @ c # t) \<noteq> fnv_bytes h (s @ d # t)"
  using assms by (simp add: fnv_bytes_inj fnv_mix_inj_byte uchar_inj)

definition hash_prefix :: "hash \<Rightarrow> hash" where
  "hash_prefix prev =
     fnv_mix (foldl (\<lambda>h i. fnv_mix h (ucast (drop_bit (8 * i) prev AND 0xff))) prev [0..<8])
       kSeparator"

lemma hash_step_eq: "hash_step prev e = fnv_bytes (hash_prefix prev) (event_str e)"
  by (simp add: hash_step_def hash_prefix_def Let_def)

lemma event_str_inj: "event_str e = event_str f \<longleftrightarrow> e = f"
  by (cases e; cases f) (simp add: event_str_def to_string_inj)

lemma event_str_no_space: "CHR '' '' \<notin> set (event_str e)"
  using to_string_digits [of "ev_seq e"]
  by (auto simp: event_str_def list_all_iff is_digit_def)

text \<open>The display form of a history determines its retained events.\<close>

definition event_words :: "event list \<Rightarrow> string" where
  "event_words es = concat (map (\<lambda>e. CHR '' '' # event_str e) es)"

lemma join_events_later: "i \<noteq> 0 \<Longrightarrow> join_events i es s = s @ event_words es"
  by (induction i es s rule: join_events.induct) (simp_all add: event_words_def)

lemma history_str_eq: "CHR '' '' # history_str H =
    (if h_events H = [] then '' '' else event_words (h_events H))"
  by (cases "h_events H") (simp_all add: history_str_def join_events_later event_words_def)

lemma space_split:
  assumes "CHR '' '' \<notin> set s" "CHR '' '' \<notin> set s'"
    and "u = [] \<or> hd u = CHR '' ''" "u' = [] \<or> hd u' = CHR '' ''"
    and "s @ u = s' @ u'"
  shows "s = s' \<and> u = u'"
proof -
  have *: "takeWhile (\<lambda>c. c \<noteq> CHR '' '') (s @ u) = s"
    if "CHR '' '' \<notin> set s" "u = [] \<or> hd u = CHR '' ''" for s u :: string
    using that by (cases u) (auto simp: takeWhile_append)
  have "s = s'" using *[OF assms(1,3)] *[OF assms(2,4)] assms(5) by simp
  then show ?thesis using assms(5) by simp
qed

lemma event_words_inj: "event_words es = event_words fs \<longleftrightarrow> es = fs"
proof
  assume "event_words es = event_words fs"
  then show "es = fs"
  proof (induction es arbitrary: fs)
    case Nil
    then show ?case by (cases fs) (simp_all add: event_words_def)
  next
    case (Cons e es)
    then obtain f fs' where fs: "fs = f # fs'" by (cases fs) (auto simp: event_words_def)
    have "event_str e @ event_words es = event_str f @ event_words fs'"
      using Cons.prems by (simp add: fs event_words_def)
    moreover have "event_words xs = [] \<or> hd (event_words xs) = CHR '' ''" for xs
      by (cases xs) (simp_all add: event_words_def)
    ultimately have "event_str e = event_str f \<and> event_words es = event_words fs'"
      by (intro space_split event_str_no_space)
    then show ?case using Cons.IH by (simp add: fs event_str_inj)
  qed
qed simp

end
