(* ===== verification/Color_Checkpoint.thy ===== *)
theory Color_Checkpoint
  imports Color_History
begin

text \<open>
  The failover data structures of \<open>src/core/color_checkpoint.h\<close>: the active state a
  server persists, and the history suffix a client replays.
\<close>

record buffered_response =
  br_seq :: seq
  br_payload :: string
  br_hash :: hash

record checkpoint =
  cp_committed_upto :: seq
  cp_event_count :: size_t
  cp_history_hash :: hash
  cp_buffer :: "buffered_response list"

definition default_checkpoint :: checkpoint where
  "default_checkpoint =
     \<lparr>cp_committed_upto = 0, cp_event_count = 0, cp_history_hash = 0, cp_buffer = []\<rparr>"

record replay_event =
  re_is_response :: bool
  re_seq :: seq
  re_payload :: string
  re_hash :: hash

record replay =
  rp_from :: size_t
  rp_events :: "replay_event list"

definition default_replay :: replay where
  "default_replay = \<lparr>rp_from = 0, rp_events = []\<rparr>"

text \<open>The history event a replay event stands for.\<close>

definition event_of :: "replay_event \<Rightarrow> event" where
  "event_of e = \<lparr>ev_is_response = re_is_response e, ev_seq = re_seq e\<rparr>"

end
