(* ===== verification/Color_Client.thy ===== *)
theory Color_Client
  imports Color_Checkpoint "HOL-Library.While_Combinator"
begin

text \<open>
  The client state machine, \<open>src/core/color_client.h\<close> and \<open>color_client.cc\<close>.

  The record has one field per data member of \<open>ColorClient\<close>. The two callbacks are a
  flag (whether one is installed) and the list of their calls. The loop that advances the
  low-water base is the library's \<open>while_option\<close>: it would not end if every one of the
  \<open>2 ^ 64\<close> ids had been received, so \<open>on_response\<close> returns an option, and the
  lemmas below show that it returns whenever some id has not been received.
\<close>

record client =
  cli_deliver :: bool
  cli_delivered :: "(seq \<times> string) list"
  cli_on_mismatch :: bool
  cli_mismatches :: "(seq \<times> hash \<times> hash) list"
  cli_set_hash :: bool
  cli_next_seq :: seq
  cli_base :: seq
  cli_received :: "seq set"
  cli_received_payload :: "(seq, string) umap"
  cli_pending_new :: "seq list"
  cli_req_hash :: "(seq, hash) umap"
  cli_inflight :: "(seq, request) umap"
  cli_history :: history
  cli_sent :: "64 word"
  cli_max_ack_new :: nat

section \<open>Operations\<close>

definition client_new :: "bool \<Rightarrow> bool \<Rightarrow> client" where
  "client_new deliver set_hash =
     \<lparr>cli_deliver = deliver, cli_delivered = [], cli_on_mismatch = False, cli_mismatches = [],
      cli_set_hash = set_hash, cli_next_seq = 1, cli_base = 1, cli_received = {},
      cli_received_payload = [], cli_pending_new = [], cli_req_hash = [], cli_inflight = [],
      cli_history = history_new, cli_sent = 0, cli_max_ack_new = 0\<rparr>"

definition client_on_hash_mismatch :: "client \<Rightarrow> client" where
  "client_on_hash_mismatch c = c\<lparr>cli_on_mismatch := True\<rparr>"

definition generate_request :: "string \<Rightarrow> client \<Rightarrow> request \<times> client" where
  "generate_request p c =
     (let q = cli_next_seq c;
          c = c\<lparr>cli_next_seq := cli_next_seq c + 1\<rparr>;
          new_acks = cli_pending_new c;
          c = c\<lparr>cli_pending_new := []\<rparr>;
          c = (if length new_acks > cli_max_ack_new c
               then c\<lparr>cli_max_ack_new := length new_acks\<rparr> else c);
          c = c\<lparr>cli_history := fold (\<lambda>i. history_push (Rs i)) new_acks (cli_history c)\<rparr>;
          (h, H) = history_append (Rq q) (cli_history c);
          c = c\<lparr>cli_history := H\<rparr>;
          c = c\<lparr>cli_req_hash := um_put q h (cli_req_hash c)\<rparr>;
          r = default_request\<lparr>req_seq := q, req_ack_base := cli_base c, req_ack_new := new_acks\<rparr>;
          r = (if cli_set_hash c then r\<lparr>req_hash := Some h\<rparr> else r);
          r = r\<lparr>req_payload := p\<rparr>;
          c = c\<lparr>cli_inflight := um_put q r (cli_inflight c)\<rparr>;
          c = c\<lparr>cli_sent := cli_sent c + 1\<rparr>
      in (r, c))"

definition advance_base :: "seq set \<Rightarrow> seq \<Rightarrow> seq option" where
  "advance_base received b = while_option (\<lambda>b. b \<in> received) (\<lambda>b. b + 1) b"

definition on_response :: "response \<Rightarrow> client \<Rightarrow> (bool \<times> client) option" where
  "on_response resp c =
     (if rsp_seq resp \<in> cli_received c then Some (False, c)
      else
        (let c = (case (rsp_hash resp, um_find (cli_req_hash c) (rsp_seq resp)) of
                    (Some got, Some h) \<Rightarrow>
                      (if cli_set_hash c \<and> got \<noteq> h \<and> cli_on_mismatch c
                       then c\<lparr>cli_mismatches := cli_mismatches c @ [(rsp_seq resp, got, h)]\<rparr>
                       else c)
                  | _ \<Rightarrow> c);
             c = c\<lparr>cli_received := insert (rsp_seq resp) (cli_received c)\<rparr>;
             c = (if \<not> rsp_no_op resp
                  then c\<lparr>cli_pending_new := cli_pending_new c @ [rsp_seq resp],
                         cli_received_payload :=
                           um_put (rsp_seq resp) (rsp_payload resp) (cli_received_payload c)\<rparr>
                  else c)
         in case advance_base (cli_received c) (cli_base c) of
              None \<Rightarrow> None
            | Some b \<Rightarrow>
                (let c = c\<lparr>cli_base := b\<rparr>;
                     c = c\<lparr>cli_inflight := um_erase (rsp_seq resp) (cli_inflight c)\<rparr>;
                     c = (if cli_deliver c \<and> \<not> rsp_no_op resp
                          then c\<lparr>cli_delivered :=
                                   cli_delivered c @ [(rsp_seq resp, rsp_payload resp)]\<rparr>
                          else c)
                 in Some (True, c))))"

definition replay_event_of :: "client \<Rightarrow> event \<Rightarrow> replay_event" where
  "replay_event_of c e =
     (let re = \<lparr>re_is_response = ev_is_response e, re_seq = ev_seq e, re_payload = [], re_hash = 0\<rparr>
      in if re_is_response re
         then (let re = (case um_find (cli_received_payload c) (re_seq re) of
                           Some p \<Rightarrow> re\<lparr>re_payload := p\<rparr> | None \<Rightarrow> re)
               in case um_find (cli_req_hash c) (re_seq re) of
                    Some h \<Rightarrow> re\<lparr>re_hash := h\<rparr> | None \<Rightarrow> re)
         else re)"

definition build_replay :: "size_t \<Rightarrow> client \<Rightarrow> replay" where
  "build_replay from_n c =
     \<lparr>rp_from = from_n,
      rp_events = map (replay_event_of c) (drop (unat from_n) (h_events (cli_history c)))\<rparr>"

definition outstanding :: "client \<Rightarrow> seq list" where
  "outstanding c = map fst (cli_inflight c)"

definition frozen :: "seq \<Rightarrow> client \<Rightarrow> request option" where
  "frozen q c = um_find (cli_inflight c) q"

definition has_response :: "seq \<Rightarrow> client \<Rightarrow> bool" where
  "has_response q c \<longleftrightarrow> q \<in> cli_received c"

section \<open>The loop that advances the base\<close>

lemma advance_base_step:
  "advance_base R b = (if b \<in> R then advance_base R (b + 1) else Some b)"
  unfolding advance_base_def by (subst while_option_unfold) simp

lemma advance_base_unfold_n:
  assumes "\<forall>i < n. b + of_nat i \<in> R" and "b + of_nat n \<notin> R"
  shows "advance_base R b = Some (b + of_nat n)"
  using assms
proof (induction n arbitrary: b)
  case 0
  then show ?case by (subst advance_base_step) simp
next
  case (Suc n)
  have "b \<in> R" using Suc.prems(1) [rule_format, of 0] by simp
  moreover have "\<forall>i < n. (b + 1) + of_nat i \<in> R"
  proof (intro allI impI)
    fix i assume "i < n"
    then show "(b + 1) + of_nat i \<in> R"
      using Suc.prems(1) [rule_format, of "Suc i"] by (simp add: algebra_simps)
  qed
  moreover have "(b + 1) + of_nat n \<notin> R"
    using Suc.prems(2) by (simp add: add.assoc)
  ultimately show ?case
    using Suc.IH [of "b + 1"] by (subst advance_base_step) (simp add: add.assoc)
qed

text \<open>The loop ends exactly when some id is missing, at the first missing id from the base on.\<close>

lemma advance_base_returns:
  assumes "q \<notin> R"
  shows "\<exists>n. advance_base R b = Some (b + of_nat n) \<and> (\<forall>i < n. b + of_nat i \<in> R) \<and>
             b + of_nat n \<notin> R \<and> n \<le> unat (q - b)"
proof -
  have ex: "b + of_nat (unat (q - b)) \<notin> R" using assms by simp
  define n where "n = (LEAST n. b + of_nat n \<notin> R)"
  have "b + of_nat n \<notin> R" unfolding n_def by (rule LeastI [of _ "unat (q - b)"]) (fact ex)
  moreover have "\<forall>i < n. b + of_nat i \<in> R" unfolding n_def using not_less_Least by blast
  moreover have "n \<le> unat (q - b)" unfolding n_def by (rule Least_le) (fact ex)
  ultimately show ?thesis using advance_base_unfold_n by blast
qed

lemma advance_base_none: "advance_base UNIV b = None"
proof (rule ccontr)
  assume "advance_base UNIV b \<noteq> None"
  then obtain b' where "while_option (\<lambda>b. b \<in> UNIV) (\<lambda>b. b + 1) b = Some b'"
    by (auto simp: advance_base_def)
  then show False by (auto dest: while_option_stop)
qed

end
