(* ===== verification/Color_Server.thy ===== *)
theory Color_Server
  imports Color_Checkpoint
begin

text \<open>
  The server state machine, \<open>src/core/color_server.h\<close> and \<open>color_server.cc\<close>.

  The record has one field per data member of \<open>ColorServer\<close>. The application callback
  \<open>app_\<close> is a parameter of the operations: a function from a world, the request and
  the committed history to a response payload and a new world, so that it may keep state,
  read a clock, or answer the same request differently the next time; the world is the
  field \<open>srv_world\<close>. The callback \<open>on_mismatch_\<close> is the flag
  \<open>srv_on_mismatch\<close> (whether one is installed) and the list of its calls.
\<close>

type_synonym 'w app = "'w \<Rightarrow> seq \<Rightarrow> string \<Rightarrow> history \<Rightarrow> string \<times> 'w"

record 'w server =
  srv_set_hash :: bool
  srv_on_mismatch :: bool
  srv_mismatches :: "(seq \<times> hash \<times> hash) list"
  srv_committed_upto :: seq
  srv_pending_reqs :: "(seq, request) umap"
  srv_req_hash :: "(seq, hash) umap"
  srv_resp_buffer :: "(seq, string) umap"
  srv_awaiting :: "seq set"
  srv_app_calls :: "(seq, int) umap"
  srv_history :: history
  srv_max_resp_buffer :: nat
  srv_max_pending :: nat
  srv_world :: 'w

section \<open>Operations\<close>

definition server_new :: "bool \<Rightarrow> 'w \<Rightarrow> 'w server" where
  "server_new set_hash w =
     \<lparr>srv_set_hash = set_hash, srv_on_mismatch = False, srv_mismatches = [],
      srv_committed_upto = 0, srv_pending_reqs = [], srv_req_hash = [],
      srv_resp_buffer = [], srv_awaiting = {}, srv_app_calls = [],
      srv_history = history_new, srv_max_resp_buffer = 0, srv_max_pending = 0,
      srv_world = w\<rparr>"

definition restore_response :: "buffered_response \<Rightarrow> 'w server \<Rightarrow> 'w server" where
  "restore_response b s =
     (let s = s\<lparr>srv_resp_buffer := um_put (br_seq b) (br_payload b) (srv_resp_buffer s)\<rparr>
      in s\<lparr>srv_req_hash := um_put (br_seq b) (br_hash b) (srv_req_hash s)\<rparr>)"

definition server_restore :: "checkpoint \<Rightarrow> bool \<Rightarrow> 'w \<Rightarrow> 'w server" where
  "server_restore cp set_hash w =
     fold restore_response (cp_buffer cp)
       ((server_new set_hash w)
          \<lparr>srv_committed_upto := cp_committed_upto cp,
           srv_history := history_resume (cp_history_hash cp) (cp_event_count cp)\<rparr>)"

definition server_on_hash_mismatch :: "'w server \<Rightarrow> 'w server" where
  "server_on_hash_mismatch s = s\<lparr>srv_on_mismatch := True\<rparr>"

definition needs_recover :: "request \<Rightarrow> 'w server \<Rightarrow> bool" where
  "needs_recover req s \<longleftrightarrow>
     (if req_ack_base req > srv_committed_upto s + 1 then True
      else list_ex (\<lambda>i. i > srv_committed_upto s) (req_ack_new req))"

definition make_response :: "seq \<Rightarrow> string \<Rightarrow> bool \<Rightarrow> 'w server \<Rightarrow> response" where
  "make_response q payload no_op s =
     (let r = default_response\<lparr>rsp_seq := q, rsp_payload := payload, rsp_no_op := no_op\<rparr>
      in case um_find (srv_req_hash s) q of
           Some h \<Rightarrow> (if srv_set_hash s then r\<lparr>rsp_hash := Some h\<rparr> else r)
         | None \<Rightarrow> r)"

definition release_acked :: "request \<Rightarrow> 'w server \<Rightarrow> 'w server" where
  "release_acked req s =
     (let s = s\<lparr>srv_resp_buffer :=
                  filter (\<lambda>kv. \<not> fst kv < req_ack_base req) (srv_resp_buffer s)\<rparr>
      in s\<lparr>srv_resp_buffer := fold um_erase (req_ack_new req) (srv_resp_buffer s)\<rparr>)"

definition track_bounds :: "'w server \<Rightarrow> 'w server" where
  "track_bounds s =
     (let s = (if length (srv_resp_buffer s) > srv_max_resp_buffer s
               then s\<lparr>srv_max_resp_buffer := length (srv_resp_buffer s)\<rparr> else s)
      in if length (srv_pending_reqs s) > srv_max_pending s
         then s\<lparr>srv_max_pending := length (srv_pending_reqs s)\<rparr> else s)"

definition count_call :: "seq \<Rightarrow> 'w server \<Rightarrow> 'w server" where
  "count_call q s =
     s\<lparr>srv_app_calls :=
         um_put q ((case um_find (srv_app_calls s) q of None \<Rightarrow> 0 | Some n \<Rightarrow> n) + 1)
           (srv_app_calls s)\<rparr>"

definition call_app :: "'w app \<Rightarrow> seq \<Rightarrow> string \<Rightarrow> 'w server \<Rightarrow> string \<times> 'w server" where
  "call_app app q payload s =
     (case app (srv_world s) q payload (srv_history s) of
        (resp, w) \<Rightarrow> (resp, s\<lparr>srv_world := w\<rparr>))"

text \<open>The body of the commit loop, after the request was taken out of the staging area.\<close>

definition commit_request :: "'w app \<Rightarrow> request \<Rightarrow> 'w server \<Rightarrow> response \<times> 'w server" where
  "commit_request app r s =
     (let s = s\<lparr>srv_history :=
                  fold (\<lambda>i. history_push (Rs i)) (req_ack_new r) (srv_history s)\<rparr>;
          (h, H) = history_append (Rq (req_seq r)) (srv_history s);
          s = s\<lparr>srv_history := H\<rparr>;
          s = s\<lparr>srv_req_hash := um_put (req_seq r) h (srv_req_hash s)\<rparr>;
          s = (case req_hash r of
                 Some got \<Rightarrow>
                   (if srv_set_hash s \<and> got \<noteq> h \<and> srv_on_mismatch s
                    then s\<lparr>srv_mismatches := srv_mismatches s @ [(req_seq r, got, h)]\<rparr>
                    else s)
               | None \<Rightarrow> s);
          s = s\<lparr>srv_committed_upto := req_seq r\<rparr>;
          s = count_call (req_seq r) s;
          (resp, s) = call_app app (req_seq r) (req_payload r) s;
          s = s\<lparr>srv_resp_buffer := um_put (req_seq r) resp (srv_resp_buffer s)\<rparr>
      in (make_response (req_seq r) resp False s, s))"

lemma commit_request_pending: "srv_pending_reqs (snd (commit_request app r s)) = srv_pending_reqs s"
  by (simp add: commit_request_def Let_def count_call_def call_app_def history_append_eq
      split: prod.split option.split)

function commit_loop :: "'w app \<Rightarrow> 'w server \<Rightarrow> response list \<Rightarrow> response list \<times> 'w server" where
  "commit_loop app s out =
     (case um_find (srv_pending_reqs s) (srv_committed_upto s + 1) of
        None \<Rightarrow> (out, s)
      | Some r \<Rightarrow>
          (let s' = s\<lparr>srv_pending_reqs :=
                        um_erase (srv_committed_upto s + 1) (srv_pending_reqs s)\<rparr>
           in commit_loop app (snd (commit_request app r s'))
                (out @ [fst (commit_request app r s')])))"
  by pat_completeness auto
termination
  by (relation "measure (\<lambda>(app, s, out). length (srv_pending_reqs s))")
     (auto simp: commit_request_pending intro: length_erase_less)

declare commit_loop.simps [simp del]

definition on_request :: "'w app \<Rightarrow> request \<Rightarrow> 'w server \<Rightarrow> response list \<times> 'w server" where
  "on_request app req s =
     (if needs_recover req s then
        ([default_response\<lparr>rsp_seq := req_seq req, rsp_recover := True,
            rsp_recover_from := event_count (srv_history s)\<rparr>], s)
      else
        (let s = release_acked req s in
         if req_seq req \<le> srv_committed_upto s then
           (case um_find (srv_resp_buffer s) (req_seq req) of
              Some p \<Rightarrow> ([make_response (req_seq req) p False s], track_bounds s)
            | None \<Rightarrow>
                if req_seq req \<in> srv_awaiting s then
                  (let (resp, s) = call_app app (req_seq req) (req_payload req) s;
                       s = s\<lparr>srv_resp_buffer := um_put (req_seq req) resp (srv_resp_buffer s)\<rparr>;
                       s = s\<lparr>srv_awaiting := srv_awaiting s - {req_seq req}\<rparr>;
                       s = count_call (req_seq req) s
                   in ([make_response (req_seq req) resp False s], track_bounds s))
                else ([make_response (req_seq req) [] True s], track_bounds s))
         else
           (let s = s\<lparr>srv_pending_reqs := um_put (req_seq req) req (srv_pending_reqs s)\<rparr>;
                (out, s) = commit_loop app s []
            in (out, track_bounds s))))"

definition server_checkpoint :: "'w server \<Rightarrow> checkpoint" where
  "server_checkpoint s =
     \<lparr>cp_committed_upto = srv_committed_upto s,
      cp_event_count = event_count (srv_history s),
      cp_history_hash = h_cur_hash (srv_history s),
      cp_buffer =
        map (\<lambda>(q, p). \<lparr>br_seq = q, br_payload = p,
                        br_hash = (case um_find (srv_req_hash s) q of Some h \<Rightarrow> h | None \<Rightarrow> 0)\<rparr>)
          (srv_resp_buffer s)\<rparr>"

definition ingest_event :: "replay_event \<Rightarrow> 'w server \<Rightarrow> 'w server" where
  "ingest_event e s =
     (if re_is_response e then
        (let s = s\<lparr>srv_history := history_push (Rs (re_seq e)) (srv_history s)\<rparr>;
             s = s\<lparr>srv_awaiting := srv_awaiting s - {re_seq e}\<rparr>
         in s\<lparr>srv_resp_buffer := um_erase (re_seq e) (srv_resp_buffer s)\<rparr>)
      else
        (let (h, H) = history_append (Rq (re_seq e)) (srv_history s);
             s = s\<lparr>srv_history := H\<rparr>;
             s = s\<lparr>srv_req_hash := um_put (re_seq e) h (srv_req_hash s)\<rparr>;
             s = (if re_seq e > srv_committed_upto s
                  then s\<lparr>srv_committed_upto := re_seq e\<rparr> else s)
         in s\<lparr>srv_awaiting := insert (re_seq e) (srv_awaiting s)\<rparr>))"

definition ingest_replay :: "replay \<Rightarrow> 'w server \<Rightarrow> 'w server" where
  "ingest_replay rp s =
     (let have_n = event_count (srv_history s);
          skip = (if have_n > rp_from rp then have_n - rp_from rp else 0)
      in fold ingest_event (drop (unat skip) (rp_events rp)) s)"

text \<open>How the callers of \<open>on_request\<close> recognise a recovery signal.\<close>

definition is_recover :: "response list \<Rightarrow> bool" where
  "is_recover out \<longleftrightarrow> length out = 1 \<and> rsp_recover (out ! 0)"

end
