(* ===== verification/Request_Log.thy ===== *)
theory Request_Log
  imports Color_Client Color_Server
begin

text \<open>
  The specification both peers implement: the total order of \<open>docs/claude/protocol.md\<close>,
  section 4. A log is the list of the requests a client has generated, in order. The
  history of a log is a pure function of its frozen acknowledgement lists: each request
  token preceded by the responses it acknowledges, in receipt order.
\<close>

definition tokens :: "request \<Rightarrow> event list" where
  "tokens r = map Rs (req_ack_new r) @ [Rq (req_seq r)]"

definition hist_of :: "request list \<Rightarrow> event list" where
  "hist_of I = concat (map tokens I)"

definition acks :: "request list \<Rightarrow> seq list" where
  "acks I = concat (map req_ack_new I)"

definition hash_upto :: "request list \<Rightarrow> nat \<Rightarrow> hash" where
  "hash_upto I n = hash_of (hist_of (take n I))"

text \<open>The ids \<open>1 .. n\<close>.\<close>

definition ids :: "nat \<Rightarrow> seq set" where
  "ids n = {q. 1 \<le> unat q \<and> unat q \<le> n}"

text \<open>
  A well-formed log: contiguous ids from 1, acknowledgements of earlier requests only,
  no response acknowledged twice, and the low-water mark never above the request's id.
\<close>

definition log_ok :: "request list \<Rightarrow> bool" where
  "log_ok I \<longleftrightarrow>
     (\<forall>k < length I. unat (req_seq (I ! k)) = k + 1 \<and>
        set (req_ack_new (I ! k)) \<subseteq> ids k \<and>
        1 \<le> unat (req_ack_base (I ! k)) \<and> unat (req_ack_base (I ! k)) \<le> k + 1) \<and>
     distinct (acks I)"

text \<open>The log is short enough for its history to be counted by a \<open>size_t\<close>.\<close>

definition log_fits :: "request list \<Rightarrow> bool" where
  "log_fits I \<longleftrightarrow> 2 * length I < 2 ^ 64"

section \<open>Histories of logs\<close>

lemma hist_of_simps [simp]:
  "hist_of [] = []" "hist_of (I @ J) = hist_of I @ hist_of J" "hist_of [r] = tokens r"
  by (simp_all add: hist_of_def)

lemma acks_simps [simp]:
  "acks [] = []" "acks (I @ J) = acks I @ acks J" "acks [r] = req_ack_new r"
  by (simp_all add: acks_def)

lemma hash_upto_append: "n \<le> length I \<Longrightarrow> hash_upto (I @ J) n = hash_upto I n"
  by (simp add: hash_upto_def)

lemma hash_upto_all: "hash_upto I (length I) = hash_of (hist_of I)"
  by (simp add: hash_upto_def)

lemma length_hist_of: "length (hist_of I) = length (acks I) + length I"
  by (induction I rule: rev_induct) (simp_all add: tokens_def)

lemma hist_of_take_le: "length (hist_of (take n I)) \<le> length (hist_of I)"
proof -
  have "hist_of I = hist_of (take n I) @ hist_of (drop n I)"
    by (metis append_take_drop_id hist_of_simps(2))
  then show ?thesis by simp
qed

lemma hist_of_split: "m \<le> n \<Longrightarrow> hist_of (take n I) = hist_of (take m I) @ hist_of (drop m (take n I))"
  by (metis append_take_drop_id hist_of_simps(2) min.absorb1 take_take)

lemma acks_take_subset: "set (acks (take n I)) \<subseteq> set (acks I)"
  by (auto simp: acks_def dest: in_set_takeD)

lemma set_acks_iff: "i \<in> set (acks I) \<longleftrightarrow> (\<exists>k < length I. i \<in> set (req_ack_new (I ! k)))"
proof -
  have "i \<in> set (acks I) \<longleftrightarrow> (\<exists>r \<in> set I. i \<in> set (req_ack_new r))" by (simp add: acks_def)
  then show ?thesis by (metis in_set_conv_nth)
qed

section \<open>Ids\<close>

lemma ids_mono: "m \<le> n \<Longrightarrow> ids m \<subseteq> ids n"
  by (auto simp: ids_def)

lemma finite_ids [simp]: "finite (ids n)"
  using card_unat_range [of "ids n" n] by (simp add: ids_def)

lemma card_ids_le: "card (ids n) \<le> n"
  using card_unat_range [of "ids n" n] by (simp add: ids_def)

lemma card_ids:
  assumes "n < 2 ^ 64"
  shows "card (ids n) = n"
proof -
  have u: "unat (of_nat k :: seq) = k" if "k \<le> n" for k
    using that assms by (intro unat_of_nat_64) simp
  have "inj_on (of_nat :: nat \<Rightarrow> seq) {1..n}"
    by (intro inj_onI) (metis atLeastAtMost_iff u)
  moreover have "of_nat ` {1..n} \<subseteq> ids n" by (auto simp: ids_def u)
  ultimately have "card {1..n} \<le> card (ids n)" by (metis card_inj_on_le finite_ids)
  then show ?thesis using card_ids_le [of n] by simp
qed

lemma ids_Suc: "unat q = Suc n \<Longrightarrow> ids (Suc n) = insert q (ids n)"
  by (auto simp: ids_def intro: word64_eqI)

lemma ids_0 [simp]: "ids 0 = {}"
  by (auto simp: ids_def)

section \<open>Well-formed logs\<close>

lemma log_ok_Nil [simp]: "log_ok []"
  by (simp add: log_ok_def)

lemma log_ok_seq: "log_ok I \<Longrightarrow> k < length I \<Longrightarrow> unat (req_seq (I ! k)) = k + 1"
  by (simp add: log_ok_def)

lemma log_ok_acks: "log_ok I \<Longrightarrow> k < length I \<Longrightarrow> set (req_ack_new (I ! k)) \<subseteq> ids k"
  by (simp add: log_ok_def)

lemma log_ok_base:
  "log_ok I \<Longrightarrow> k < length I \<Longrightarrow>
   1 \<le> unat (req_ack_base (I ! k)) \<and> unat (req_ack_base (I ! k)) \<le> k + 1"
  by (simp add: log_ok_def)

lemma log_ok_snoc:
  assumes "log_ok I" "unat (req_seq r) = length I + 1" "set (req_ack_new r) \<subseteq> ids (length I)"
    and "1 \<le> unat (req_ack_base r)" "unat (req_ack_base r) \<le> length I + 1"
    and "distinct (acks I @ req_ack_new r)"
  shows "log_ok (I @ [r])"
  using assms by (auto simp: log_ok_def nth_append less_Suc_eq)

lemma log_member:
  assumes "log_ok I" and "r \<in> set I"
  shows "\<exists>k < length I. r = I ! k \<and> unat (req_seq r) = k + 1"
  using assms by (auto simp: in_set_conv_nth log_ok_seq)

lemma log_member_seq:
  assumes "log_ok I" and "r \<in> set I"
  shows "req_seq r \<in> ids (length I)"
  using log_member [OF assms] by (auto simp: ids_def)

text \<open>Two copies of a request with the same id are the same request.\<close>

lemma log_member_unique:
  assumes "log_ok I" "r \<in> set I" "r' \<in> set I" "req_seq r = req_seq r'"
  shows "r = r'"
proof -
  obtain k where k: "r = I ! k" "unat (req_seq r) = k + 1" using log_member [OF assms(1,2)] by blast
  obtain k' where k': "r' = I ! k'" "unat (req_seq r') = k' + 1"
    using log_member [OF assms(1,3)] by blast
  have "k = k'" using k(2) k'(2) assms(4) by simp
  then show ?thesis using k(1) k'(1) by simp
qed

lemma acks_subset_ids:
  assumes "log_ok I"
  shows "set (acks I) \<subseteq> ids (length I)"
proof
  fix i assume "i \<in> set (acks I)"
  then obtain k where "k < length I" "i \<in> set (req_ack_new (I ! k))"
    by (auto simp: set_acks_iff)
  then show "i \<in> ids (length I)"
    using log_ok_acks [OF assms] ids_mono [of k "length I"] by fastforce
qed

lemma hist_fits:
  assumes "log_ok I" and "log_fits I"
  shows "length (hist_of I) < 2 ^ 64"
proof -
  have "length (acks I) = card (set (acks I))"
    using assms(1) by (simp add: log_ok_def distinct_card)
  also have "\<dots> \<le> card (ids (length I))"
    by (intro card_mono acks_subset_ids assms(1)) simp
  also have "\<dots> \<le> length I" by (rule card_ids_le)
  finally show ?thesis using assms(2) by (simp add: length_hist_of log_fits_def)
qed

lemma hist_take_fits:
  "log_ok I \<Longrightarrow> log_fits I \<Longrightarrow> length (hist_of (take n I)) < 2 ^ 64"
  using hist_fits hist_of_take_le le_less_trans by blast

lemma log_fits_length: "log_fits I \<Longrightarrow> length I + 1 < 2 ^ 64"
  by (simp add: log_fits_def)

lemma log_fits_prefix: "log_fits (I @ J) \<Longrightarrow> log_fits I"
  by (simp add: log_fits_def)

lemma hist_of_take_Suc:
  "k < length I \<Longrightarrow> hist_of (take (Suc k) I) = hist_of (take k I) @ tokens (I ! k)"
  by (simp add: take_Suc_snoc)

end
