(* ===== verification/Client_Invariant.thy ===== *)
theory Client_Invariant
  imports Request_Log
begin

text \<open>
  The client's invariant relative to the log of the requests it has generated, and that
  \<open>generate_request\<close> and \<open>on_response\<close> keep it. The client's local history is the
  history of its log; its in-flight map holds exactly the frozen copies of the unanswered
  requests; every receipt is acknowledged at most once.
\<close>

section \<open>The operations, field by field\<close>

lemma push_acks: "fold (\<lambda>i. history_push (Rs i)) xs H = fold history_push (map Rs xs) H"
  by (simp add: fold_map comp_def)

lemma generate_request_parts:
  fixes p c
  defines "r \<equiv> fst (generate_request p c)" and "c' \<equiv> snd (generate_request p c)"
  shows "req_seq r = cli_next_seq c"
    and "req_ack_base r = cli_base c"
    and "req_ack_new r = cli_pending_new c"
    and "req_hash r = (if cli_set_hash c then Some (h_cur_hash (cli_history c')) else None)"
    and "req_payload r = p"
    and "cli_next_seq c' = cli_next_seq c + 1"
    and "cli_pending_new c' = []"
    and "cli_max_ack_new c' = max (cli_max_ack_new c) (length (cli_pending_new c))"
    and "cli_history c' = fold history_push (tokens r) (cli_history c)"
    and "cli_req_hash c' = um_put (cli_next_seq c) (h_cur_hash (cli_history c')) (cli_req_hash c)"
    and "cli_inflight c' = um_put (cli_next_seq c) r (cli_inflight c)"
    and "cli_sent c' = cli_sent c + 1"
    and "cli_base c' = cli_base c" and "cli_received c' = cli_received c"
    and "cli_received_payload c' = cli_received_payload c"
    and "cli_set_hash c' = cli_set_hash c" and "cli_mismatches c' = cli_mismatches c"
    and "cli_on_mismatch c' = cli_on_mismatch c" and "cli_deliver c' = cli_deliver c"
    and "cli_delivered c' = cli_delivered c"
  unfolding r_def c'_def
  by (simp_all add: generate_request_def Let_def history_append_eq push_acks tokens_def)

lemma generate_request_fields:
  assumes "generate_request p c = (r, c')"
  shows "req_seq r = cli_next_seq c"
    and "req_ack_base r = cli_base c"
    and "req_ack_new r = cli_pending_new c"
    and "req_hash r = (if cli_set_hash c then Some (h_cur_hash (cli_history c')) else None)"
    and "req_payload r = p"
    and "cli_next_seq c' = cli_next_seq c + 1"
    and "cli_pending_new c' = []"
    and "cli_max_ack_new c' = max (cli_max_ack_new c) (length (cli_pending_new c))"
    and "cli_history c' = fold history_push (tokens r) (cli_history c)"
    and "cli_req_hash c' = um_put (cli_next_seq c) (h_cur_hash (cli_history c')) (cli_req_hash c)"
    and "cli_inflight c' = um_put (cli_next_seq c) r (cli_inflight c)"
    and "cli_sent c' = cli_sent c + 1"
    and "cli_base c' = cli_base c" and "cli_received c' = cli_received c"
    and "cli_received_payload c' = cli_received_payload c"
    and "cli_set_hash c' = cli_set_hash c" and "cli_mismatches c' = cli_mismatches c"
    and "cli_on_mismatch c' = cli_on_mismatch c" and "cli_deliver c' = cli_deliver c"
    and "cli_delivered c' = cli_delivered c"
  using generate_request_parts [of p c] by (simp_all only: assms fst_conv snd_conv)

text \<open>The received set after a first receipt, and the client that results from it.\<close>

lemma on_response_duplicate:
  "rsp_seq x \<in> cli_received c \<Longrightarrow> on_response x c = Some (False, c)"
  by (simp add: on_response_def)

lemma on_response_first:
  assumes "rsp_seq x \<notin> cli_received c"
    and "advance_base (insert (rsp_seq x) (cli_received c)) (cli_base c) = Some b"
  shows "\<exists>c'. on_response x c = Some (True, c') \<and>
    cli_received c' = insert (rsp_seq x) (cli_received c) \<and>
    cli_base c' = b \<and>
    cli_pending_new c' = (if rsp_no_op x then cli_pending_new c else cli_pending_new c @ [rsp_seq x]) \<and>
    cli_received_payload c' = (if rsp_no_op x then cli_received_payload c
       else um_put (rsp_seq x) (rsp_payload x) (cli_received_payload c)) \<and>
    cli_inflight c' = um_erase (rsp_seq x) (cli_inflight c) \<and>
    cli_delivered c' = (if cli_deliver c \<and> \<not> rsp_no_op x
       then cli_delivered c @ [(rsp_seq x, rsp_payload x)] else cli_delivered c) \<and>
    cli_mismatches c' =
      (case (rsp_hash x, um_find (cli_req_hash c) (rsp_seq x)) of
         (Some got, Some h) \<Rightarrow>
           (if cli_set_hash c \<and> got \<noteq> h \<and> cli_on_mismatch c
            then cli_mismatches c @ [(rsp_seq x, got, h)] else cli_mismatches c)
       | _ \<Rightarrow> cli_mismatches c) \<and>
    cli_next_seq c' = cli_next_seq c \<and> cli_req_hash c' = cli_req_hash c \<and>
    cli_history c' = cli_history c \<and> cli_sent c' = cli_sent c \<and>
    cli_max_ack_new c' = cli_max_ack_new c \<and> cli_set_hash c' = cli_set_hash c \<and>
    cli_on_mismatch c' = cli_on_mismatch c \<and> cli_deliver c' = cli_deliver c"
  using assms by (simp add: on_response_def Let_def split: option.split)

lemma on_response_None:
  "on_response x c = None \<longleftrightarrow>
   rsp_seq x \<notin> cli_received c \<and>
   advance_base (insert (rsp_seq x) (cli_received c)) (cli_base c) = None"
  by (simp add: on_response_def Let_def split: option.split)

section \<open>The invariant\<close>

definition client_inv :: "request list \<Rightarrow> client \<Rightarrow> bool" where
  "client_inv I c \<longleftrightarrow>
     log_ok I \<and>
     unat (cli_next_seq c) = length I + 1 \<and>
     represents (cli_history c) (hist_of I) \<and> h_base_count (cli_history c) = 0 \<and>
     (\<forall>k < length I. req_hash (I ! k) =
        (if cli_set_hash c then Some (hash_upto I (k + 1)) else None)) \<and>
     (\<forall>q. um_find (cli_req_hash c) q =
        (if q \<in> ids (length I) then Some (hash_upto I (unat q)) else None)) \<and>
     cli_received c \<subseteq> ids (length I) \<and>
     um_wf (cli_inflight c) \<and>
     (\<forall>q. um_find (cli_inflight c) q =
        (if q \<in> ids (length I) - cli_received c then Some (I ! (unat q - 1)) else None)) \<and>
     distinct (acks I @ cli_pending_new c) \<and>
     set (acks I @ cli_pending_new c) \<subseteq> cli_received c \<and>
     1 \<le> unat (cli_base c) \<and> unat (cli_base c) \<le> length I + 1 \<and>
     ids (unat (cli_base c) - 1) \<subseteq> cli_received c \<and> cli_base c \<notin> cli_received c \<and>
     (\<forall>k < length I. ids (unat (req_ack_base (I ! k)) - 1) \<subseteq> cli_received c) \<and>
     cli_mismatches c = []"

lemma client_inv_new: "client_inv [] (client_new d sh)"
  by (auto simp: client_inv_def client_new_def represents_new) (simp add: history_new_def)

lemma client_inv_mismatch_fn: "client_inv I (client_on_hash_mismatch c) = client_inv I c"
  by (simp add: client_inv_def client_on_hash_mismatch_def)

lemma client_invD:
  assumes "client_inv I c"
  shows "log_ok I" and "unat (cli_next_seq c) = length I + 1"
    and "represents (cli_history c) (hist_of I)" and "h_base_count (cli_history c) = 0"
    and "\<And>k. k < length I \<Longrightarrow> req_hash (I ! k) =
        (if cli_set_hash c then Some (hash_upto I (k + 1)) else None)"
    and "\<And>q. um_find (cli_req_hash c) q =
        (if q \<in> ids (length I) then Some (hash_upto I (unat q)) else None)"
    and "cli_received c \<subseteq> ids (length I)"
    and "um_wf (cli_inflight c)"
    and "\<And>q. um_find (cli_inflight c) q =
        (if q \<in> ids (length I) - cli_received c then Some (I ! (unat q - 1)) else None)"
    and "distinct (acks I @ cli_pending_new c)"
    and "set (acks I) \<subseteq> cli_received c" and "set (cli_pending_new c) \<subseteq> cli_received c"
    and "1 \<le> unat (cli_base c)" and "unat (cli_base c) \<le> length I + 1"
    and "ids (unat (cli_base c) - 1) \<subseteq> cli_received c" and "cli_base c \<notin> cli_received c"
    and "\<And>k. k < length I \<Longrightarrow> ids (unat (req_ack_base (I ! k)) - 1) \<subseteq> cli_received c"
    and "cli_mismatches c = []"
  using assms by (simp_all add: client_inv_def)

lemma client_inflight_keys:
  "client_inv I c \<Longrightarrow> um_keys (cli_inflight c) = ids (length I) - cli_received c"
  using client_invD(9) [of I c] by (auto simp: dom_def)

lemma client_history_events: "client_inv I c \<Longrightarrow> h_events (cli_history c) = hist_of I"
  using client_invD(3,4) [of I c] by (simp add: represents_def)

section \<open>Generating a request\<close>

lemma generate_log_ok:
  assumes "client_inv I c" and "generate_request p c = (r, c')"
  shows "log_ok (I @ [r])"
proof (rule log_ok_snoc)
  note inv = client_invD [OF assms(1)] and f = generate_request_fields [OF assms(2)]
  show "log_ok I" by (rule inv(1))
  show "unat (req_seq r) = length I + 1" by (simp add: f inv(2))
  show "set (req_ack_new r) \<subseteq> ids (length I)" using inv(7,12) by (simp add: f)
  show "1 \<le> unat (req_ack_base r)" "unat (req_ack_base r) \<le> length I + 1"
    using inv(13,14) by (simp_all add: f)
  show "distinct (acks I @ req_ack_new r)" using inv(10) by (simp add: f)
qed

lemma generate_inv:
  assumes inv: "client_inv I c" and gen: "generate_request p c = (r, c')"
    and fits: "log_fits (I @ [r])"
  shows "client_inv (I @ [r]) c'"
proof -
  note D = client_invD [OF inv] and f = generate_request_fields [OF gen]
  let ?n = "length I" and ?q = "cli_next_seq c"
  have lok: "log_ok (I @ [r])" using inv gen by (rule generate_log_ok)
  have q: "unat ?q = Suc ?n" using D(2) by simp
  have ids: "ids (Suc ?n) = insert ?q (ids ?n)" using q by (rule ids_Suc)
  have fresh: "?q \<notin> ids ?n" using q by (simp add: ids_def)
  have rep: "represents (cli_history c') (hist_of (I @ [r]))"
    using represents_push_list [OF D(3), of "tokens r"] by (simp add: f)
  then have h: "h_cur_hash (cli_history c') = hash_upto (I @ [r]) (Suc ?n)"
    by (simp add: represents_hash hash_upto_def)
  have next_q: "unat (cli_next_seq c') = length (I @ [r]) + 1"
    using fits q by (simp add: f unat_plus_one log_fits_def)
  have hashes: "\<forall>k < length (I @ [r]). req_hash ((I @ [r]) ! k) =
      (if cli_set_hash c' then Some (hash_upto (I @ [r]) (k + 1)) else None)"
    using D(5) h by (auto simp: less_Suc_eq nth_append hash_upto_append f(4) f(16))
  have req_hashes: "um_find (cli_req_hash c') k =
      (if k \<in> ids (length (I @ [r])) then Some (hash_upto (I @ [r]) (unat k)) else None)" for k
    using D(6) [of k] h q ids fresh by (auto simp: f(10) um_simps ids_def hash_upto_append)
  have infl: "um_find (cli_inflight c') k =
      (if k \<in> ids (length (I @ [r])) - cli_received c' then Some ((I @ [r]) ! (unat k - 1))
       else None)" for k
    using D(7) D(9) [of k] q ids fresh by (auto simp: f um_simps nth_append ids_def)
  have base: "\<forall>k < length (I @ [r]). ids (unat (req_ack_base ((I @ [r]) ! k)) - 1) \<subseteq> cli_received c'"
    using D(15,17) by (auto simp: less_Suc_eq nth_append f)
  have acks: "distinct (acks (I @ [r]) @ cli_pending_new c')"
    "set (acks (I @ [r]) @ cli_pending_new c') \<subseteq> cli_received c'"
    using D(10,11,12) by (simp_all add: f)
  have rec: "cli_received c' \<subseteq> ids (length (I @ [r]))" using D(7) ids by (auto simp: f)
  show ?thesis
    unfolding client_inv_def
    using lok next_q rep hashes req_hashes rec infl acks base D(4,8,13-16,18)
    by (auto simp: f um_simps push_acks)
qed

section \<open>Receiving a response\<close>

text \<open>What every response on the wire satisfies: it answers a generated request, and its hash is right.\<close>

definition response_ok :: "request list \<Rightarrow> response \<Rightarrow> bool" where
  "response_ok I x \<longleftrightarrow>
     rsp_seq x \<in> ids (length I) \<and> \<not> rsp_recover x \<and>
     (\<forall>h. rsp_hash x = Some h \<longrightarrow> h = hash_upto I (unat (rsp_seq x)))"

lemma advance_base_prefix:
  assumes sub: "R \<subseteq> ids N" and fits: "N + 1 < 2 ^ 64"
    and lo: "1 \<le> unat b" and hi: "unat b \<le> N + 1" and below: "ids (unat b - 1) \<subseteq> R"
  shows "\<exists>b'. advance_base R b = Some b' \<and> unat b \<le> unat b' \<and> unat b' \<le> N + 1 \<and>
              ids (unat b' - 1) \<subseteq> R \<and> b' \<notin> R"
proof -
  let ?q = "of_nat (N + 1) :: seq"
  have q: "unat ?q = N + 1" using fits by (rule unat_of_nat_64)
  have "?q \<notin> R" using sub q by (auto simp: ids_def)
  then obtain n where adv: "advance_base R b = Some (b + of_nat n)"
    and mem: "\<forall>i < n. b + of_nat i \<in> R" and out: "b + of_nat n \<notin> R" and n: "n \<le> unat (?q - b)"
    using advance_base_returns [of ?q R b] by blast
  have "unat (?q - b) = N + 1 - unat b"
    using hi q by (simp add: unat_sub word_le_nat_alt)
  then have n': "unat b + n \<le> N + 1" using n hi by simp
  have pos: "unat (b + of_nat i) = unat b + i" if "i \<le> n" for i
  proof -
    have "unat b + i < 2 ^ 64" using that n' fits by simp
    then show ?thesis by (simp add: unat_word_ariths unat_of_nat)
  qed
  have "ids (unat b + n - 1) \<subseteq> R"
  proof
    fix k assume k: "k \<in> ids (unat b + n - 1)"
    show "k \<in> R"
    proof (cases "unat k < unat b")
      case True
      then show ?thesis using k below by (auto simp: ids_def)
    next
      case False
      define i where "i = unat k - unat b"
      have "i < n" using k False lo by (auto simp: ids_def i_def)
      moreover have "k = b + of_nat i"
        using False pos [of i] \<open>i < n\<close> by (intro word64_eqI) (simp add: i_def)
      ultimately show ?thesis using mem by simp
    qed
  qed
  then show ?thesis using adv out pos [of n] n' by auto
qed

lemma on_response_inv:
  assumes inv: "client_inv I c" and fits: "log_fits I" and ok: "response_ok I x"
  shows "\<exists>c'. on_response x c = Some (rsp_seq x \<notin> cli_received c, c') \<and> client_inv I c' \<and>
    cli_received c' = insert (rsp_seq x) (cli_received c) \<and>
    unat (cli_base c) \<le> unat (cli_base c') \<and>
    cli_inflight c' = um_erase (rsp_seq x) (cli_inflight c) \<and>
    cli_pending_new c' = cli_pending_new c @
      (if rsp_seq x \<in> cli_received c \<or> rsp_no_op x then [] else [rsp_seq x]) \<and>
    cli_set_hash c' = cli_set_hash c \<and> cli_max_ack_new c' = cli_max_ack_new c \<and>
    cli_history c' = cli_history c"
proof (cases "rsp_seq x \<in> cli_received c")
  case True
  then have "um_find (cli_inflight c) (rsp_seq x) = None" using client_invD(9) [OF inv] by simp
  then have "rsp_seq x \<notin> fst ` set (cli_inflight c)" by (simp add: map_of_eq_None_iff)
  then show ?thesis using True inv by (auto simp: on_response_duplicate insert_absorb)
next
  case False
  note D = client_invD [OF inv]
  let ?R = "insert (rsp_seq x) (cli_received c)"
  have seq: "rsp_seq x \<in> ids (length I)" using ok by (simp add: response_ok_def)
  have R: "?R \<subseteq> ids (length I)" using D(7) seq by simp
  obtain b where b: "advance_base ?R (cli_base c) = Some b" "unat (cli_base c) \<le> unat b"
      "unat b \<le> length I + 1" "ids (unat b - 1) \<subseteq> ?R" "b \<notin> ?R"
    using advance_base_prefix [OF R log_fits_length [OF fits] D(13,14)] D(15) by blast
  obtain c' where c': "on_response x c = Some (True, c')"
    "cli_received c' = ?R" "cli_base c' = b"
    "cli_pending_new c' = (if rsp_no_op x then cli_pending_new c else cli_pending_new c @ [rsp_seq x])"
    "cli_inflight c' = um_erase (rsp_seq x) (cli_inflight c)"
    "cli_mismatches c' =
      (case (rsp_hash x, um_find (cli_req_hash c) (rsp_seq x)) of
         (Some got, Some h) \<Rightarrow>
           (if cli_set_hash c \<and> got \<noteq> h \<and> cli_on_mismatch c
            then cli_mismatches c @ [(rsp_seq x, got, h)] else cli_mismatches c)
       | _ \<Rightarrow> cli_mismatches c)"
    "cli_next_seq c' = cli_next_seq c" "cli_req_hash c' = cli_req_hash c"
    "cli_history c' = cli_history c" "cli_max_ack_new c' = cli_max_ack_new c"
    "cli_set_hash c' = cli_set_hash c"
    using on_response_first [OF False b(1)] by blast
  have mm: "cli_mismatches c' = []"
    using ok D(6) [of "rsp_seq x"] D(18) by (auto simp: c'(6) response_ok_def split: option.split)
  have fresh: "rsp_seq x \<notin> set (acks I @ cli_pending_new c)" using False D(11,12) by auto
  have infl: "um_find (cli_inflight c') q =
      (if q \<in> ids (length I) - ?R then Some (I ! (unat q - 1)) else None)" for q
    using D(9) [of q] by (auto simp: c'(5) um_simps)
  have bases: "\<forall>k < length I. ids (unat (req_ack_base (I ! k)) - 1) \<subseteq> ?R"
    using D(17) by blast
  have "client_inv I c'"
    unfolding client_inv_def
    using D(1-8) D(10-13) bases mm fresh infl R b
    by (simp add: c'(1-5) c'(7-) umap.wf_erase) auto
  then show ?thesis using c' b(2) False by auto
qed

end
