(* ===== verification/Server_Invariant.thy ===== *)
theory Server_Invariant
  imports Client_Invariant
begin

text \<open>
  The server's invariant relative to the log of the client's requests, and that
  \<open>on_request\<close>, \<open>ingest_replay\<close> and a restart from a checkpoint keep it. The logical
  history of the server is the history of the first \<open>committed_upto_\<close> requests of the
  log, whatever part of it the process retains.
\<close>

section \<open>The operations, field by field\<close>

lemma commit_request_parts:
  fixes app r s
  defines "x \<equiv> fst (commit_request app r s)" and "s' \<equiv> snd (commit_request app r s)"
    and "H \<equiv> fold history_push (tokens r) (srv_history s)"
  shows "srv_history s' = H"
    and "srv_req_hash s' = um_put (req_seq r) (h_cur_hash H) (srv_req_hash s)"
    and "srv_mismatches s' =
      (case req_hash r of
         Some got \<Rightarrow> (if srv_set_hash s \<and> got \<noteq> h_cur_hash H \<and> srv_on_mismatch s
                     then srv_mismatches s @ [(req_seq r, got, h_cur_hash H)] else srv_mismatches s)
       | None \<Rightarrow> srv_mismatches s)"
    and "srv_committed_upto s' = req_seq r"
    and "srv_app_calls s' = um_put (req_seq r)
      ((case um_find (srv_app_calls s) (req_seq r) of None \<Rightarrow> 0 | Some n \<Rightarrow> n) + 1) (srv_app_calls s)"
    and "srv_resp_buffer s' = um_put (req_seq r)
      (fst (app (srv_world s) (req_seq r) (req_payload r) H)) (srv_resp_buffer s)"
    and "srv_world s' = snd (app (srv_world s) (req_seq r) (req_payload r) H)"
    and "srv_pending_reqs s' = srv_pending_reqs s" and "srv_awaiting s' = srv_awaiting s"
    and "srv_set_hash s' = srv_set_hash s" and "srv_on_mismatch s' = srv_on_mismatch s"
    and "srv_max_resp_buffer s' = srv_max_resp_buffer s" and "srv_max_pending s' = srv_max_pending s"
    and "x = make_response (req_seq r) (fst (app (srv_world s) (req_seq r) (req_payload r) H)) False s'"
  unfolding x_def s'_def H_def
  by (simp_all add: commit_request_def Let_def history_append_eq push_acks tokens_def
      count_call_def call_app_def case_prod_beta split: option.split)

lemma make_response_fields [simp]:
  "rsp_seq (make_response q p no_op s) = q"
  "rsp_payload (make_response q p no_op s) = p"
  "rsp_no_op (make_response q p no_op s) = no_op"
  "\<not> rsp_recover (make_response q p no_op s)"
  "rsp_hash (make_response q p no_op s) = (if srv_set_hash s then um_find (srv_req_hash s) q else None)"
  by (simp_all add: make_response_def Let_def split: option.split)

lemma release_acked_fields [simp]:
  "srv_history (release_acked req s) = srv_history s"
  "srv_committed_upto (release_acked req s) = srv_committed_upto s"
  "srv_pending_reqs (release_acked req s) = srv_pending_reqs s"
  "srv_req_hash (release_acked req s) = srv_req_hash s"
  "srv_awaiting (release_acked req s) = srv_awaiting s"
  "srv_app_calls (release_acked req s) = srv_app_calls s"
  "srv_mismatches (release_acked req s) = srv_mismatches s"
  "srv_set_hash (release_acked req s) = srv_set_hash s"
  "srv_on_mismatch (release_acked req s) = srv_on_mismatch s"
  "srv_max_resp_buffer (release_acked req s) = srv_max_resp_buffer s"
  "srv_max_pending (release_acked req s) = srv_max_pending s"
  "srv_world (release_acked req s) = srv_world s"
  by (simp_all add: release_acked_def Let_def)

lemma release_acked_wf: "um_wf (srv_resp_buffer s) \<Longrightarrow> um_wf (srv_resp_buffer (release_acked req s))"
  by (simp add: release_acked_def um_simps um_wf_filter)

lemma release_acked_find:
  assumes "um_wf (srv_resp_buffer s)"
  shows "um_find (srv_resp_buffer (release_acked req s)) q =
    (if q < req_ack_base req \<or> q \<in> set (req_ack_new req) then None
     else um_find (srv_resp_buffer s) q)"
  using find_filter_key [OF assms, of "\<lambda>k. \<not> k < req_ack_base req" q]
  by (simp add: release_acked_def um_simps)

lemma release_acked_keys:
  assumes "um_wf (srv_resp_buffer s)"
  shows "um_keys (srv_resp_buffer (release_acked req s)) =
    um_keys (srv_resp_buffer s) - {q. q < req_ack_base req} - set (req_ack_new req)"
  using assms by (auto simp: release_acked_find dom_def split: if_splits)

lemma track_bounds_fields [simp]:
  "srv_history (track_bounds s) = srv_history s"
  "srv_committed_upto (track_bounds s) = srv_committed_upto s"
  "srv_pending_reqs (track_bounds s) = srv_pending_reqs s"
  "srv_req_hash (track_bounds s) = srv_req_hash s"
  "srv_resp_buffer (track_bounds s) = srv_resp_buffer s"
  "srv_awaiting (track_bounds s) = srv_awaiting s"
  "srv_app_calls (track_bounds s) = srv_app_calls s"
  "srv_mismatches (track_bounds s) = srv_mismatches s"
  "srv_set_hash (track_bounds s) = srv_set_hash s"
  "srv_on_mismatch (track_bounds s) = srv_on_mismatch s"
  "srv_world (track_bounds s) = srv_world s"
  "srv_max_resp_buffer (track_bounds s) = max (srv_max_resp_buffer s) (length (srv_resp_buffer s))"
  "srv_max_pending (track_bounds s) = max (srv_max_pending s) (length (srv_pending_reqs s))"
  by (simp_all add: track_bounds_def Let_def)

lemma needs_recover_cong:
  "srv_committed_upto s = srv_committed_upto t \<Longrightarrow> needs_recover r s = needs_recover r t"
  by (simp add: needs_recover_def)

text \<open>A property kept by every turn of the commit loop holds when the loop ends.\<close>

definition commit_next :: "'w app \<Rightarrow> request \<Rightarrow> 'w server \<Rightarrow> response \<times> 'w server" where
  "commit_next app r s = commit_request app r
     (s\<lparr>srv_pending_reqs := um_erase (srv_committed_upto s + 1) (srv_pending_reqs s)\<rparr>)"

lemma commit_loop_unfold:
  "commit_loop app s out =
     (case um_find (srv_pending_reqs s) (srv_committed_upto s + 1) of
        None \<Rightarrow> (out, s)
      | Some r \<Rightarrow> commit_loop app (snd (commit_next app r s)) (out @ [fst (commit_next app r s)]))"
  by (subst commit_loop.simps) (simp add: commit_next_def Let_def split: option.split)

lemma commit_loop_rule:
  assumes start: "P s out"
    and turn: "\<And>s out r. P s out \<Longrightarrow>
      um_find (srv_pending_reqs s) (srv_committed_upto s + 1) = Some r \<Longrightarrow>
      P (snd (commit_next app r s)) (out @ [fst (commit_next app r s)])"
  shows "P (snd (commit_loop app s out)) (fst (commit_loop app s out)) \<and>
    um_find (srv_pending_reqs (snd (commit_loop app s out)))
      (srv_committed_upto (snd (commit_loop app s out)) + 1) = None"
  using start turn
proof (induction app s out rule: commit_loop.induct)
  case (1 app s out)
  show ?case
  proof (cases "um_find (srv_pending_reqs s) (srv_committed_upto s + 1)")
    case None
    then show ?thesis using "1.prems"(1) by (simp add: commit_loop_unfold [of app s out])
  next
    case (Some r)
    show ?thesis
      unfolding commit_loop_unfold [of app s out] Some option.case
      unfolding commit_next_def
      by (rule "1.IH" [OF Some refl])
         (use "1.prems"(2) [OF "1.prems"(1) Some] "1.prems"(2) in \<open>simp_all add: commit_next_def\<close>)
  qed
qed

section \<open>The invariant\<close>

text \<open>Every hash the client froze into a request is the hash of the history up to that request.\<close>

definition log_hashes :: "request list \<Rightarrow> bool" where
  "log_hashes I \<longleftrightarrow> (\<forall>k < length I. \<forall>h. req_hash (I ! k) = Some h \<longrightarrow> h = hash_upto I (k + 1))"

lemma client_log_hashes: "client_inv I c \<Longrightarrow> log_hashes I"
  using client_invD(5) [of I c] by (auto simp: log_hashes_def split: if_splits)

text \<open>The number of requests the server has committed.\<close>

abbreviation n_committed :: "'w server \<Rightarrow> nat" where
  "n_committed s \<equiv> unat (srv_committed_upto s)"

definition pending_ok :: "request list \<Rightarrow> 'w server \<Rightarrow> bool" where
  "pending_ok I s \<longleftrightarrow>
     um_wf (srv_pending_reqs s) \<and>
     (\<forall>q r. um_find (srv_pending_reqs s) q = Some r \<longrightarrow>
        r \<in> set I \<and> req_seq r = q)"

definition server_inv :: "request list \<Rightarrow> 'w server \<Rightarrow> bool" where
  "server_inv I s \<longleftrightarrow>
     n_committed s \<le> length I \<and>
     represents (srv_history s) (hist_of (take (n_committed s) I)) \<and>
     pending_ok I s \<and>
     (\<forall>q h. um_find (srv_req_hash s) q = Some h \<longrightarrow>
        q \<in> ids (n_committed s) \<and> h = hash_upto I (unat q)) \<and>
     um_wf (srv_resp_buffer s) \<and>
     um_keys (srv_resp_buffer s) \<subseteq> um_keys (srv_req_hash s) \<and>
     srv_awaiting s \<subseteq> um_keys (srv_req_hash s) \<and>
     (\<forall>q m. um_find (srv_app_calls s) q = Some m \<longrightarrow>
        m = 1 \<and> q \<in> ids (n_committed s) \<and> q \<notin> srv_awaiting s) \<and>
     srv_mismatches s = [] \<and> um_wf (srv_app_calls s)"

lemma server_invD:
  assumes "server_inv I s"
  shows "n_committed s \<le> length I"
    and "represents (srv_history s) (hist_of (take (n_committed s) I))"
    and "pending_ok I s"
    and "\<And>q h. um_find (srv_req_hash s) q = Some h \<Longrightarrow>
        q \<in> ids (n_committed s) \<and> h = hash_upto I (unat q)"
    and "um_wf (srv_resp_buffer s)"
    and "um_keys (srv_resp_buffer s) \<subseteq> um_keys (srv_req_hash s)"
    and "srv_awaiting s \<subseteq> um_keys (srv_req_hash s)"
    and "\<And>q m. um_find (srv_app_calls s) q = Some m \<Longrightarrow>
        m = 1 \<and> q \<in> ids (n_committed s) \<and> q \<notin> srv_awaiting s"
    and "srv_mismatches s = []" and "um_wf (srv_app_calls s)"
  using assms by (simp_all add: server_inv_def)

lemma server_inv_new: "server_inv [] (server_new sh w)"
  by (simp add: server_inv_def server_new_def represents_new pending_ok_def)

lemma server_inv_mismatch_fn [simp]: "server_inv I (server_on_hash_mismatch s) = server_inv I s"
  by (simp add: server_inv_def server_on_hash_mismatch_def pending_ok_def)

lemma server_inv_track_bounds [simp]: "server_inv I (track_bounds s) = server_inv I s"
  by (simp add: server_inv_def pending_ok_def)

lemma server_inv_world [simp]: "server_inv I (s\<lparr>srv_world := w\<rparr>) = server_inv I s"
  by (simp add: server_inv_def pending_ok_def)

lemma server_req_hash_keys: "server_inv I s \<Longrightarrow> um_keys (srv_req_hash s) \<subseteq> ids (n_committed s)"
  using server_invD(4) by blast

lemma server_buffer_keys: "server_inv I s \<Longrightarrow> um_keys (srv_resp_buffer s) \<subseteq> ids (n_committed s)"
  using server_invD(6) server_req_hash_keys by blast

text \<open>The log only grows; what was established about the server stays true.\<close>

lemma server_inv_log_append:
  assumes "server_inv I s"
  shows "server_inv (I @ J) s"
proof -
  note D = server_invD [OF assms]
  have "q \<in> ids (n_committed s) \<Longrightarrow> hash_upto (I @ J) (unat q) = hash_upto I (unat q)" for q
    using D(1) by (intro hash_upto_append) (simp add: ids_def)
  then show ?thesis
    using D unfolding server_inv_def pending_ok_def by (auto simp: ids_def)
qed

lemma server_inv_release:
  assumes "server_inv I s"
  shows "server_inv I (release_acked req s)"
  using assms unfolding server_inv_def pending_ok_def
  by (auto simp: release_acked_wf release_acked_keys)

section \<open>Committing requests\<close>

lemma next_pending:
  assumes inv: "server_inv I s" and lok: "log_ok I" and fits: "log_fits I"
    and nxt: "um_find (srv_pending_reqs s) (srv_committed_upto s + 1) = Some r"
  shows "n_committed s < length I" and "r = I ! n_committed s"
    and "req_seq r = srv_committed_upto s + 1" and "unat (req_seq r) = Suc (n_committed s)"
proof -
  have r: "r \<in> set I" "req_seq r = srv_committed_upto s + 1"
    using server_invD(3) [OF inv] nxt by (auto simp: pending_ok_def)
  then show "req_seq r = srv_committed_upto s + 1" by simp
  have "n_committed s + 1 < 2 ^ 64"
    using server_invD(1) [OF inv] log_fits_length [OF fits] by simp
  then show seq: "unat (req_seq r) = Suc (n_committed s)" using r(2) unat_plus_one by simp
  obtain k where "k < length I" "r = I ! k" "unat (req_seq r) = k + 1"
    using log_member [OF lok r(1)] by blast
  then show "n_committed s < length I" "r = I ! n_committed s" using seq by simp_all
qed

lemma commit_request_inv:
  assumes inv: "server_inv I s" and k: "n_committed s < length I" and r: "r = I ! n_committed s"
    and seq: "unat (req_seq r) = Suc (n_committed s)" and hashes: "log_hashes I"
  shows "server_inv I (snd (commit_request app r s))"
    and "response_ok I (fst (commit_request app r s))"
proof -
  note D = server_invD [OF inv] and f = commit_request_parts [of app r s]
  let ?n = "n_committed s" and ?s' = "snd (commit_request app r s)"
  let ?H = "fold history_push (tokens r) (srv_history s)"
  have rep: "represents ?H (hist_of (take (Suc ?n) I))"
    using represents_push_list [OF D(2), of "tokens r"] k r by (simp add: hist_of_take_Suc)
  then have h: "h_cur_hash ?H = hash_upto I (Suc ?n)" by (simp add: represents_hash hash_upto_def)
  have ids: "ids (Suc ?n) = insert (req_seq r) (ids ?n)" using seq by (rule ids_Suc)
  have fresh: "req_seq r \<notin> ids ?n" using seq by (simp add: ids_def)
  have pend: "pending_ok I ?s'" using D(3) by (simp add: f pending_ok_def)
  have rh: "q \<in> ids (Suc ?n) \<and> h' = hash_upto I (unat q)"
    if "um_find (srv_req_hash ?s') q = Some h'" for q h'
    using that D(4) [of q h'] h seq ids by (auto simp: f um_simps split: if_splits)
  have calls: "m = 1 \<and> q \<in> ids (Suc ?n) \<and> q \<notin> srv_awaiting s"
    if "um_find (srv_app_calls ?s') q = Some m" for q m
  proof -
    have "um_find (srv_app_calls s) (req_seq r) = None"
      using D(8) fresh by (cases "um_find (srv_app_calls s) (req_seq r)") auto
    moreover have "req_seq r \<notin> srv_awaiting s"
      using D(7) server_req_hash_keys [OF inv] fresh by blast
    ultimately show ?thesis
      using that D(8) [of q m] ids by (auto simp: f um_simps split: if_splits)
  qed
  have "g = hash_upto I (Suc ?n)" if "req_hash r = Some g" for g
    using that hashes k r by (simp add: log_hashes_def)
  then have mm: "srv_mismatches ?s' = []"
    using h D(9) by (simp add: f(3) split: option.split)
  have keys: "um_wf (srv_resp_buffer ?s')"
    "um_keys (srv_resp_buffer ?s') \<subseteq> um_keys (srv_req_hash ?s')"
    "srv_awaiting ?s' \<subseteq> um_keys (srv_req_hash ?s')"
    using D(5,6,7) by (auto simp: f um_simps)
  have wf: "um_wf (srv_app_calls ?s')" using D(10) by (simp add: f um_simps)
  show "server_inv I ?s'"
    unfolding server_inv_def using k rep pend rh calls mm keys wf by (simp add: f(1) f(4) f(9) seq)
  show "response_ok I (fst (commit_request app r s))"
    using k seq h by (auto simp: response_ok_def f um_simps ids_def)
qed

text \<open>Taking a request out of the staging area.\<close>

lemma server_inv_unstage:
  assumes "server_inv I s"
  shows "server_inv I (s\<lparr>srv_pending_reqs := um_erase q (srv_pending_reqs s)\<rparr>)"
  using assms unfolding server_inv_def pending_ok_def by (simp add: um_simps)

lemma server_inv_stage:
  assumes "server_inv I s" and "r \<in> set I"
  shows "server_inv I (s\<lparr>srv_pending_reqs := um_put (req_seq r) r (srv_pending_reqs s)\<rparr>)"
  using assms unfolding server_inv_def pending_ok_def by (auto simp: um_simps)

lemma commit_next_inv:
  assumes "server_inv I s" "log_ok I" "log_fits I" "log_hashes I"
    and "um_find (srv_pending_reqs s) (srv_committed_upto s + 1) = Some r"
  shows "server_inv I (snd (commit_next app r s))" and "response_ok I (fst (commit_next app r s))"
proof -
  let ?s = "s\<lparr>srv_pending_reqs := um_erase (srv_committed_upto s + 1) (srv_pending_reqs s)\<rparr>"
  note np = next_pending [OF assms(1-3,5)]
  have inv: "server_inv I ?s" using assms(1) by (rule server_inv_unstage)
  show "server_inv I (snd (commit_next app r s))" "response_ok I (fst (commit_next app r s))"
    unfolding commit_next_def
    using commit_request_inv [OF inv _ _ _ assms(4)] np by simp_all
qed

lemma commit_loop_inv:
  assumes "server_inv I s" "log_ok I" "log_fits I" "log_hashes I"
  shows "server_inv I (snd (commit_loop app s []))"
    and "\<forall>x \<in> set (fst (commit_loop app s [])). response_ok I x"
proof -
  have "(server_inv I (snd (commit_loop app s [])) \<and>
      (\<forall>x \<in> set (fst (commit_loop app s [])). response_ok I x)) \<and>
    um_find (srv_pending_reqs (snd (commit_loop app s [])))
      (srv_committed_upto (snd (commit_loop app s [])) + 1) = None"
    by (rule commit_loop_rule [where P = "\<lambda>s out. server_inv I s \<and> (\<forall>x \<in> set out. response_ok I x)"])
       (auto simp: assms(1) commit_next_inv [OF _ assms(2-4)])
  then show "server_inv I (snd (commit_loop app s []))"
    and "\<forall>x \<in> set (fst (commit_loop app s [])). response_ok I x" by blast+
qed

section \<open>Handling a request\<close>

definition recover_response :: "request \<Rightarrow> 'w server \<Rightarrow> response" where
  "recover_response req s = default_response\<lparr>rsp_seq := req_seq req, rsp_recover := True,
     rsp_recover_from := event_count (srv_history s)\<rparr>"

lemma on_request_recover:
  "needs_recover req s \<Longrightarrow> on_request app req s = ([recover_response req s], s)"
  by (simp add: on_request_def recover_response_def)

lemma on_request_resend:
  assumes "\<not> needs_recover req s" "req_seq req \<le> srv_committed_upto s"
    and "um_find (srv_resp_buffer (release_acked req s)) (req_seq req) = Some p"
  shows "on_request app req s =
    ([make_response (req_seq req) p False (release_acked req s)], track_bounds (release_acked req s))"
  using assms by (simp add: on_request_def Let_def)

definition answer_awaiting :: "'w app \<Rightarrow> request \<Rightarrow> 'w server \<Rightarrow> string \<times> 'w server" where
  "answer_awaiting app req s =
     (let (resp, s) = call_app app (req_seq req) (req_payload req) s
      in (resp, count_call (req_seq req)
           (s\<lparr>srv_resp_buffer := um_put (req_seq req) resp (srv_resp_buffer s),
              srv_awaiting := srv_awaiting s - {req_seq req}\<rparr>)))"

lemma on_request_awaiting:
  assumes "\<not> needs_recover req s" "req_seq req \<le> srv_committed_upto s"
    and "um_find (srv_resp_buffer (release_acked req s)) (req_seq req) = None"
    and "req_seq req \<in> srv_awaiting s"
  shows "on_request app req s =
    ([make_response (req_seq req) (fst (answer_awaiting app req (release_acked req s))) False
        (snd (answer_awaiting app req (release_acked req s)))],
     track_bounds (snd (answer_awaiting app req (release_acked req s))))"
  using assms
  by (simp add: on_request_def answer_awaiting_def case_prod_beta Let_def)

lemma on_request_no_op:
  assumes "\<not> needs_recover req s" "req_seq req \<le> srv_committed_upto s"
    and "um_find (srv_resp_buffer (release_acked req s)) (req_seq req) = None"
    and "req_seq req \<notin> srv_awaiting s"
  shows "on_request app req s =
    ([make_response (req_seq req) [] True (release_acked req s)], track_bounds (release_acked req s))"
  using assms by (simp add: on_request_def Let_def)

definition stage :: "request \<Rightarrow> 'w server \<Rightarrow> 'w server" where
  "stage req s = s\<lparr>srv_pending_reqs := um_put (req_seq req) req (srv_pending_reqs s)\<rparr>"

lemma on_request_new:
  assumes "\<not> needs_recover req s" "\<not> req_seq req \<le> srv_committed_upto s"
  shows "on_request app req s =
    (fst (commit_loop app (stage req (release_acked req s)) []),
     track_bounds (snd (commit_loop app (stage req (release_acked req s)) [])))"
  using assms by (simp add: on_request_def stage_def case_prod_beta Let_def)

text \<open>The five outcomes of a request, as one case rule.\<close>

lemma on_request_cases [case_names recover resend awaiting no_op new]:
  obtains "needs_recover req s"
  | p where "\<not> needs_recover req s" "req_seq req \<le> srv_committed_upto s"
      "um_find (srv_resp_buffer (release_acked req s)) (req_seq req) = Some p"
  | "\<not> needs_recover req s" "req_seq req \<le> srv_committed_upto s"
      "um_find (srv_resp_buffer (release_acked req s)) (req_seq req) = None"
      "req_seq req \<in> srv_awaiting s"
  | "\<not> needs_recover req s" "req_seq req \<le> srv_committed_upto s"
      "um_find (srv_resp_buffer (release_acked req s)) (req_seq req) = None"
      "req_seq req \<notin> srv_awaiting s"
  | "\<not> needs_recover req s" "\<not> req_seq req \<le> srv_committed_upto s"
  by (cases "um_find (srv_resp_buffer (release_acked req s)) (req_seq req)") blast+

lemma answer_awaiting_parts:
  fixes app req s
  defines "p \<equiv> fst (answer_awaiting app req s)" and "s' \<equiv> snd (answer_awaiting app req s)"
  shows "srv_resp_buffer s' = um_put (req_seq req) p (srv_resp_buffer s)"
    and "srv_awaiting s' = srv_awaiting s - {req_seq req}"
    and "srv_app_calls s' = um_put (req_seq req)
      ((case um_find (srv_app_calls s) (req_seq req) of None \<Rightarrow> 0 | Some n \<Rightarrow> n) + 1)
      (srv_app_calls s)"
    and "srv_history s' = srv_history s" and "srv_committed_upto s' = srv_committed_upto s"
    and "srv_pending_reqs s' = srv_pending_reqs s" and "srv_req_hash s' = srv_req_hash s"
    and "srv_mismatches s' = srv_mismatches s" and "srv_set_hash s' = srv_set_hash s"
  unfolding p_def s'_def
  by (simp_all add: answer_awaiting_def call_app_def count_call_def case_prod_beta Let_def)

lemma answer_awaiting_inv:
  assumes inv: "server_inv I s" and aw: "req_seq req \<in> srv_awaiting s"
  shows "server_inv I (snd (answer_awaiting app req s))"
proof -
  note D = server_invD [OF inv] and f = answer_awaiting_parts [of app req s]
  have none: "um_find (srv_app_calls s) (req_seq req) = None"
    using D(8) aw by (cases "um_find (srv_app_calls s) (req_seq req)") auto
  have key: "req_seq req \<in> um_keys (srv_req_hash s)" using D(7) aw by blast
  then have id: "req_seq req \<in> ids (n_committed s)" using server_req_hash_keys [OF inv] by blast
  have calls: "m = 1 \<and> q \<in> ids (n_committed s) \<and> q \<notin> srv_awaiting s - {req_seq req}"
    if "um_find (srv_app_calls (snd (answer_awaiting app req s))) q = Some m" for q m
    using that D(8) [of q m] none id by (auto simp: f um_simps split: if_splits)
  have pend: "pending_ok I (snd (answer_awaiting app req s))"
    using D(3) by (simp add: pending_ok_def f)
  have keys: "um_wf (srv_resp_buffer (snd (answer_awaiting app req s)))"
    "um_keys (srv_resp_buffer (snd (answer_awaiting app req s))) \<subseteq> um_keys (srv_req_hash s)"
    "srv_awaiting s - {req_seq req} \<subseteq> um_keys (srv_req_hash s)"
    using D(5,6,7) key by (auto simp: f um_simps)
  have wf: "um_wf (srv_app_calls (snd (answer_awaiting app req s)))"
    unfolding f(3) using D(10) by (rule umap.wf_put)
  show ?thesis
    unfolding server_inv_def
    using D(1,2,4,9) calls keys pend wf by (simp add: f(2) f(4-))
qed

lemma make_response_ok:
  assumes "server_inv I s" and "q \<in> ids (n_committed s)"
  shows "response_ok I (make_response q p no_op s)"
  using server_invD(1,4) [OF assms(1)] assms(2) by (auto simp: response_ok_def ids_def)

lemma on_request_inv:
  assumes inv: "server_inv I s" and log: "log_ok I" "log_fits I" "log_hashes I"
    and r: "r \<in> set I"
  shows "server_inv I (snd (on_request app r s))"
    and "\<not> needs_recover r s \<Longrightarrow> \<forall>x \<in> set (fst (on_request app r s)). response_ok I x"
proof -
  have rel: "server_inv I (release_acked r s)" using inv by (rule server_inv_release)
  have id: "req_seq r \<in> ids (n_committed s)" if "req_seq r \<le> srv_committed_upto s"
    using log_member_seq [OF log(1) r] that by (simp add: ids_def word_le_nat_alt)
  have "server_inv I (snd (on_request app r s)) \<and>
    (\<not> needs_recover r s \<longrightarrow> (\<forall>x \<in> set (fst (on_request app r s)). response_ok I x))"
  proof (cases rule: on_request_cases [of r s])
    case recover
    then show ?thesis using inv by (simp add: on_request_recover)
  next
    case (resend p)
    then show ?thesis using rel id make_response_ok [OF rel] by (simp add: on_request_resend)
  next
    case awaiting
    then have "server_inv I (snd (answer_awaiting app r (release_acked r s)))"
      using answer_awaiting_inv [OF rel] by simp
    then show ?thesis
      using awaiting id make_response_ok
      by (fastforce simp: on_request_awaiting answer_awaiting_parts)
  next
    case no_op
    then show ?thesis using rel id make_response_ok [OF rel] by (simp add: on_request_no_op)
  next
    case new
    then have "server_inv I (stage r (release_acked r s))"
      using server_inv_stage [OF rel r] by (simp add: stage_def)
    from commit_loop_inv [OF this log] show ?thesis
      using new by (simp add: on_request_new)
  qed
  then show "server_inv I (snd (on_request app r s))"
    and "\<not> needs_recover r s \<Longrightarrow> \<forall>x \<in> set (fst (on_request app r s)). response_ok I x"
    by blast+
qed

section \<open>The staging area\<close>

text \<open>A staged request is stored under its own id, whatever the requests are.\<close>

definition well_keyed :: "'w server \<Rightarrow> bool" where
  "well_keyed s \<longleftrightarrow> (\<forall>q r. um_find (srv_pending_reqs s) q = Some r \<longrightarrow> req_seq r = q)"

lemma well_keyed_commit_next:
  "well_keyed s \<Longrightarrow> well_keyed (snd (commit_next app r s))"
  by (auto simp: well_keyed_def commit_next_def commit_request_parts um_simps split: if_splits)

lemma commit_loop_keys:
  fixes app :: "'w app"
  assumes "well_keyed s"
  shows "well_keyed (snd (commit_loop app s []))"
    and "um_keys (srv_pending_reqs s) \<subseteq> um_keys (srv_pending_reqs (snd (commit_loop app s []))) \<union>
      rsp_seq ` set (fst (commit_loop app s []))"
proof -
  let ?P = "\<lambda>(t :: 'w server) (out :: response list). well_keyed t \<and>
    um_keys (srv_pending_reqs s) \<subseteq> um_keys (srv_pending_reqs t) \<union> rsp_seq ` set out"
  have "?P (snd (commit_loop app s [])) (fst (commit_loop app s [])) \<and>
    um_find (srv_pending_reqs (snd (commit_loop app s [])))
      (srv_committed_upto (snd (commit_loop app s [])) + 1) = None"
  proof (rule commit_loop_rule [where P = ?P])
    show "?P s []" using assms by simp
    fix t out r
    assume P: "?P t out" and nxt: "um_find (srv_pending_reqs t) (srv_committed_upto t + 1) = Some r"
    have "req_seq r = srv_committed_upto t + 1" using P nxt by (simp add: well_keyed_def)
    then have "um_keys (srv_pending_reqs t) \<subseteq> um_keys (srv_pending_reqs (snd (commit_next app r t))) \<union>
        {rsp_seq (fst (commit_next app r t))}"
      by (auto simp: commit_next_def commit_request_parts um_simps)
    then show "?P (snd (commit_next app r t)) (out @ [fst (commit_next app r t)])"
      using P well_keyed_commit_next [of t app r] by (simp only: set_append image_Un list.set image_insert image_empty) blast
  qed
  then show "well_keyed (snd (commit_loop app s []))"
    and "um_keys (srv_pending_reqs s) \<subseteq> um_keys (srv_pending_reqs (snd (commit_loop app s []))) \<union>
      rsp_seq ` set (fst (commit_loop app s []))"
    by blast+
qed

text \<open>Every request is answered at once or staged, and staged requests leave with their answer.\<close>

lemma well_keyed_track [simp]: "well_keyed (track_bounds s) = well_keyed s"
  by (simp add: well_keyed_def)

lemma on_request_keys:
  assumes "well_keyed s"
  shows "well_keyed (snd (on_request app req s))"
    and "insert (req_seq req) (um_keys (srv_pending_reqs s)) \<subseteq>
      um_keys (srv_pending_reqs (snd (on_request app req s))) \<union> rsp_seq ` set (fst (on_request app req s))"
proof -
  have "well_keyed (snd (on_request app req s)) \<and> insert (req_seq req) (um_keys (srv_pending_reqs s)) \<subseteq>
      um_keys (srv_pending_reqs (snd (on_request app req s))) \<union> rsp_seq ` set (fst (on_request app req s))"
  proof (cases req s rule: on_request_cases)
    case recover
    then show ?thesis using assms by (simp add: on_request_recover recover_response_def)
  next
    case (resend p)
    then show ?thesis using assms by (simp add: on_request_resend well_keyed_def)
  next
    case awaiting
    then show ?thesis using assms by (simp add: on_request_awaiting well_keyed_def answer_awaiting_parts)
  next
    case no_op
    then show ?thesis using assms by (simp add: on_request_no_op well_keyed_def)
  next
    case new
    have "well_keyed (stage req (release_acked req s))"
      using assms by (auto simp: well_keyed_def stage_def um_simps)
    moreover have "um_keys (srv_pending_reqs (stage req (release_acked req s))) =
        insert (req_seq req) (um_keys (srv_pending_reqs s))"
      by (simp add: stage_def um_simps)
    ultimately show ?thesis
      using commit_loop_keys [of "stage req (release_acked req s)" app] new
      by (simp add: on_request_new well_keyed_track)
  qed
  then show "well_keyed (snd (on_request app req s))"
    and "insert (req_seq req) (um_keys (srv_pending_reqs s)) \<subseteq>
      um_keys (srv_pending_reqs (snd (on_request app req s))) \<union> rsp_seq ` set (fst (on_request app req s))"
    by blast+
qed

text \<open>Only \<open>needs_recover\<close> makes a recovery signal.\<close>

lemma on_request_not_recover:
  fixes s :: "'w server"
  assumes "\<not> needs_recover req s"
  shows "\<forall>x \<in> set (fst (on_request app req s)). \<not> rsp_recover x"
  using assms
proof (cases req s rule: on_request_cases)
  case new
  have "(\<forall>x \<in> set (fst (commit_loop app t [])). \<not> rsp_recover x) \<and>
      um_find (srv_pending_reqs (snd (commit_loop app t [])))
        (srv_committed_upto (snd (commit_loop app t [])) + 1) = None" for t :: "'w server"
    by (rule commit_loop_rule [where P = "\<lambda>t out. \<forall>x \<in> set out. \<not> rsp_recover x"])
       (auto simp: commit_next_def commit_request_def Let_def case_prod_beta)
  then show ?thesis using new by (simp add: on_request_new)
qed (simp_all add: on_request_resend on_request_awaiting on_request_no_op)

lemma is_recover_needs:
  assumes "is_recover (fst (on_request app req s))"
  shows "needs_recover req s"
proof (rule ccontr)
  assume "\<not> needs_recover req s"
  from on_request_not_recover [OF this, of app] assms show False
    by (auto simp: is_recover_def in_set_conv_nth)
qed

end
