(* ===== verification/Failover_Invariant.thy ===== *)
theory Failover_Invariant
  imports Server_Invariant
begin

text \<open>
  Checkpoints and replays: a checkpoint of a server that satisfies its invariant restores
  a server that satisfies it, in whatever order the buffered responses were written; a
  replay of the client's history that does not start beyond what the server holds
  rebuilds exactly the client's history.
\<close>

section \<open>Checkpoints\<close>

definition cp_ok :: "request list \<Rightarrow> checkpoint \<Rightarrow> bool" where
  "cp_ok I cp \<longleftrightarrow>
     unat (cp_committed_upto cp) \<le> length I \<and>
     cp_history_hash cp = hash_upto I (unat (cp_committed_upto cp)) \<and>
     cp_event_count cp = of_nat (length (hist_of (take (unat (cp_committed_upto cp)) I))) \<and>
     distinct (map br_seq (cp_buffer cp)) \<and>
     (\<forall>b \<in> set (cp_buffer cp). br_seq b \<in> ids (unat (cp_committed_upto cp)) \<and>
        br_hash b = hash_upto I (unat (br_seq b)))"

lemma cp_ok_log_append: "cp_ok I cp \<Longrightarrow> cp_ok (I @ J) cp"
  by (auto simp: cp_ok_def ids_def hash_upto_append)

lemma server_checkpoint_ok:
  assumes inv: "server_inv I s"
  shows "cp_ok I (server_checkpoint s)"
proof -
  note D = server_invD [OF inv]
  have "br_seq b \<in> ids (n_committed s) \<and> br_hash b = hash_upto I (unat (br_seq b))"
    if b: "b \<in> set (cp_buffer (server_checkpoint s))" for b
  proof -
    obtain q p where qp: "(q, p) \<in> set (srv_resp_buffer s)"
      and "br_seq b = q" "br_hash b = (case um_find (srv_req_hash s) q of Some h \<Rightarrow> h | None \<Rightarrow> 0)"
      using b by (auto simp: server_checkpoint_def)
    moreover have "q \<in> um_keys (srv_req_hash s)"
      using qp D(6) by (metis domIff in_mono option.distinct(1) weak_map_of_SomeI)
    ultimately show ?thesis using D(4) by auto
  qed
  moreover have "map br_seq (cp_buffer (server_checkpoint s)) = map fst (srv_resp_buffer s)"
    by (auto simp: server_checkpoint_def)
  ultimately show ?thesis
    unfolding cp_ok_def using D(1,2,5) represents_count [OF D(2)] represents_hash [OF D(2)]
    by (simp add: um_wf_def hash_upto_def) (simp add: server_checkpoint_def)
qed

lemma restore_fold_fields:
  shows "srv_resp_buffer (fold restore_response bs s) =
      fold (\<lambda>b. um_put (br_seq b) (br_payload b)) bs (srv_resp_buffer s)"
    and "srv_req_hash (fold restore_response bs s) =
      fold (\<lambda>b. um_put (br_seq b) (br_hash b)) bs (srv_req_hash s)"
    and "srv_committed_upto (fold restore_response bs s) = srv_committed_upto s"
    and "srv_history (fold restore_response bs s) = srv_history s"
    and "srv_pending_reqs (fold restore_response bs s) = srv_pending_reqs s"
    and "srv_awaiting (fold restore_response bs s) = srv_awaiting s"
    and "srv_app_calls (fold restore_response bs s) = srv_app_calls s"
    and "srv_mismatches (fold restore_response bs s) = srv_mismatches s"
    and "srv_set_hash (fold restore_response bs s) = srv_set_hash s"
    and "srv_world (fold restore_response bs s) = srv_world s"
    and "srv_on_mismatch (fold restore_response bs s) = srv_on_mismatch s"
    and "srv_max_resp_buffer (fold restore_response bs s) = srv_max_resp_buffer s"
    and "srv_max_pending (fold restore_response bs s) = srv_max_pending s"
  by (induction bs arbitrary: s) (simp_all add: restore_response_def Let_def)

lemma server_restore_fields:
  shows "srv_resp_buffer (server_restore cp sh w) =
      fold (\<lambda>b. um_put (br_seq b) (br_payload b)) (cp_buffer cp) []"
    and "srv_req_hash (server_restore cp sh w) =
      fold (\<lambda>b. um_put (br_seq b) (br_hash b)) (cp_buffer cp) []"
    and "srv_committed_upto (server_restore cp sh w) = cp_committed_upto cp"
    and "srv_history (server_restore cp sh w) =
      history_resume (cp_history_hash cp) (cp_event_count cp)"
    and "srv_pending_reqs (server_restore cp sh w) = []"
    and "srv_awaiting (server_restore cp sh w) = {}"
    and "srv_app_calls (server_restore cp sh w) = []"
    and "srv_mismatches (server_restore cp sh w) = []"
    and "srv_set_hash (server_restore cp sh w) = sh"
    and "srv_world (server_restore cp sh w) = w"
    and "srv_on_mismatch (server_restore cp sh w) = False"
    and "srv_max_resp_buffer (server_restore cp sh w) = 0"
    and "srv_max_pending (server_restore cp sh w) = 0"
  by (simp_all add: server_restore_def restore_fold_fields server_new_def)

lemma server_restore_find:
  assumes "distinct (map br_seq (cp_buffer cp))"
  shows "um_find (srv_resp_buffer (server_restore cp sh w)) q =
      map_of (map (\<lambda>b. (br_seq b, br_payload b)) (cp_buffer cp)) q"
    and "um_find (srv_req_hash (server_restore cp sh w)) q =
      map_of (map (\<lambda>b. (br_seq b, br_hash b)) (cp_buffer cp)) q"
  using umap.find_put_list [OF assms, of br_payload "[]" q] umap.find_put_list [OF assms, of br_hash "[]" q]
  by (simp_all add: server_restore_fields split: option.splits)

lemma server_restore_inv:
  assumes ok: "cp_ok I cp" and log: "log_ok I" "log_fits I"
  shows "server_inv I (server_restore cp sh w)"
proof -
  let ?s = "server_restore cp sh w" and ?n = "unat (cp_committed_upto cp)"
  have n: "?n \<le> length I" and dist: "distinct (map br_seq (cp_buffer cp))"
    and buf: "\<And>b. b \<in> set (cp_buffer cp) \<Longrightarrow> br_seq b \<in> ids ?n \<and> br_hash b = hash_upto I (unat (br_seq b))"
    using ok by (auto simp: cp_ok_def)
  have rep: "represents (srv_history ?s) (hist_of (take ?n I))"
    using represents_resume [OF hist_take_fits [OF log, of ?n]] ok
    by (simp add: server_restore_fields cp_ok_def hash_upto_def)
  have rh: "q \<in> ids ?n \<and> h = hash_upto I (unat q)"
    if "um_find (srv_req_hash ?s) q = Some h" for q h
    using map_of_SomeD [OF that [unfolded server_restore_find(2) [OF dist]]] buf by auto
  have "um_keys (srv_resp_buffer ?s) = br_seq ` set (cp_buffer cp)"
    "um_keys (srv_req_hash ?s) = br_seq ` set (cp_buffer cp)"
    unfolding server_restore_find(1) [OF dist, abs_def] server_restore_find(2) [OF dist, abs_def]
    by (simp_all add: dom_map_of_conv_image_fst image_image)
  then have keys: "um_keys (srv_resp_buffer ?s) \<subseteq> um_keys (srv_req_hash ?s)" by simp
  have wf: "um_wf (srv_resp_buffer ?s)"
    by (simp add: server_restore_fields umap.wf_put_list)
  show ?thesis
    unfolding server_inv_def pending_ok_def
    using n rep rh keys wf by (simp add: server_restore_fields(3,5-8))
qed

section \<open>Replays\<close>

lemma ingest_responses:
  assumes "\<forall>e \<in> set es. re_is_response e"
  shows "srv_history (fold ingest_event es s) = fold history_push (map event_of es) (srv_history s)"
    and "srv_awaiting (fold ingest_event es s) = srv_awaiting s - set (map re_seq es)"
    and "srv_resp_buffer (fold ingest_event es s) = fold um_erase (map re_seq es) (srv_resp_buffer s)"
    and "srv_committed_upto (fold ingest_event es s) = srv_committed_upto s"
    and "srv_req_hash (fold ingest_event es s) = srv_req_hash s"
    and "srv_pending_reqs (fold ingest_event es s) = srv_pending_reqs s"
    and "srv_app_calls (fold ingest_event es s) = srv_app_calls s"
    and "srv_mismatches (fold ingest_event es s) = srv_mismatches s"
    and "srv_set_hash (fold ingest_event es s) = srv_set_hash s"
    and "srv_on_mismatch (fold ingest_event es s) = srv_on_mismatch s"
  using assms
  by (induction es arbitrary: s) (auto simp: ingest_event_def Let_def event_of_def)

lemma ingest_request:
  assumes "\<not> re_is_response e"
  shows "srv_history (ingest_event e s) = history_push (event_of e) (srv_history s)"
    and "srv_awaiting (ingest_event e s) = insert (re_seq e) (srv_awaiting s)"
    and "srv_resp_buffer (ingest_event e s) = srv_resp_buffer s"
    and "srv_committed_upto (ingest_event e s) = max (srv_committed_upto s) (re_seq e)"
    and "srv_req_hash (ingest_event e s) =
      um_put (re_seq e) (h_cur_hash (history_push (event_of e) (srv_history s))) (srv_req_hash s)"
    and "srv_pending_reqs (ingest_event e s) = srv_pending_reqs s"
    and "srv_app_calls (ingest_event e s) = srv_app_calls s"
    and "srv_mismatches (ingest_event e s) = srv_mismatches s"
    and "srv_set_hash (ingest_event e s) = srv_set_hash s"
    and "srv_on_mismatch (ingest_event e s) = srv_on_mismatch s"
  using assms
  by (simp_all add: ingest_event_def Let_def event_of_def history_append_eq max_def
      less_imp_le not_less)

text \<open>Ingesting the events of one request advances the server by that request.\<close>

lemma tokens_split:
  assumes "map event_of es = tokens r"
  obtains rs e where "es = rs @ [e]" "\<forall>x \<in> set rs. re_is_response x"
    "map re_seq rs = req_ack_new r" "\<not> re_is_response e" "re_seq e = req_seq r"
proof -
  have "es \<noteq> []" using assms by (auto simp: tokens_def)
  then obtain rs e where es: "es = rs @ [e]" by (metis rev_exhaust)
  then have rs: "map event_of rs = map Rs (req_ack_new r)" and e: "event_of e = Rq (req_seq r)"
    using assms by (simp_all add: tokens_def)
  have "map re_seq rs = map ev_seq (map event_of rs)" by (simp add: event_of_def)
  then have "map re_seq rs = req_ack_new r" by (simp add: rs comp_def)
  moreover have "re_is_response x" if "x \<in> set rs" for x
  proof -
    have "event_of x \<in> set (map event_of rs)" using that by simp
    then show ?thesis unfolding rs by (auto simp: event_of_def)
  qed
  ultimately show thesis using that es e by (simp add: event_of_def)
qed

lemma ingest_tokens:
  assumes inv: "server_inv I s" and k: "n_committed s < length I" and lok: "log_ok I"
    and es: "map event_of es = tokens (I ! n_committed s)"
  shows "server_inv I (fold ingest_event es s)"
    and "n_committed (fold ingest_event es s) = Suc (n_committed s)"
proof -
  note D = server_invD [OF inv]
  let ?n = "n_committed s" and ?r = "I ! n_committed s" and ?s' = "fold ingest_event es s"
  obtain rs e where split: "es = rs @ [e]" and rs: "\<forall>x \<in> set rs. re_is_response x"
    "map re_seq rs = req_ack_new ?r" and e: "\<not> re_is_response e" "re_seq e = req_seq ?r"
    using es by (rule tokens_split)
  have seq: "unat (req_seq ?r) = Suc ?n" using log_ok_seq [OF lok k] by simp
  note f = ingest_responses [OF rs(1), of s] and g = ingest_request [OF e(1)]
  have H: "srv_history ?s' = fold history_push (tokens ?r) (srv_history s)"
    by (simp add: split g f es [symmetric] del: map_map)
  have rep: "represents (srv_history ?s') (hist_of (take (Suc ?n) I))"
    using represents_push_list [OF D(2), of "tokens ?r"] k by (simp add: H hist_of_take_Suc)
  then have h: "h_cur_hash (srv_history ?s') = hash_upto I (Suc ?n)"
    by (simp add: represents_hash hash_upto_def)
  have "srv_committed_upto s < req_seq ?r" using seq by (simp add: word_less_nat_alt)
  then have com: "srv_committed_upto ?s' = req_seq ?r"
    by (simp add: split g f e max_def less_imp_le)
  have ids: "ids (Suc ?n) = insert (req_seq ?r) (ids ?n)" using seq by (rule ids_Suc)
  have fresh: "req_seq ?r \<notin> ids ?n" using seq by (simp add: ids_def)
  have rhm: "srv_req_hash ?s' = um_put (req_seq ?r) (h_cur_hash (srv_history ?s')) (srv_req_hash s)"
    by (simp add: split g f e)
  have aw: "srv_awaiting ?s' = insert (req_seq ?r) (srv_awaiting s - set (req_ack_new ?r))"
    using rs(2) by (simp add: split g f e)
  have buf: "srv_resp_buffer ?s' = fold um_erase (req_ack_new ?r) (srv_resp_buffer s)"
    using rs(2) by (simp add: split g f)
  have rest: "srv_pending_reqs ?s' = srv_pending_reqs s" "srv_app_calls ?s' = srv_app_calls s"
    "srv_mismatches ?s' = srv_mismatches s"
    by (simp_all add: split g f)
  have pend: "pending_ok I ?s'" using D(3) by (simp add: pending_ok_def rest)
  have rh: "q \<in> ids (Suc ?n) \<and> h' = hash_upto I (unat q)"
    if "um_find (srv_req_hash ?s') q = Some h'" for q h'
    using that D(4) [of q h'] h seq ids by (auto simp: rhm um_simps split: if_splits)
  have calls: "m = 1 \<and> q \<in> ids (Suc ?n) \<and> q \<notin> srv_awaiting ?s'"
    if "um_find (srv_app_calls ?s') q = Some m" for q m
    using that D(8) [of q m] ids fresh by (auto simp: rest aw)
  have keys: "um_wf (srv_resp_buffer ?s')" "um_keys (srv_resp_buffer ?s') \<subseteq> um_keys (srv_req_hash ?s')"
    "srv_awaiting ?s' \<subseteq> um_keys (srv_req_hash ?s')"
    using D(5-7) umap.keys_erase_list [of "req_ack_new ?r" "srv_resp_buffer s"]
    unfolding buf aw rhm by (auto simp only: umap.wf_erase_list umap.find_put dom_fun_upd split: if_splits)
  show "n_committed ?s' = Suc ?n" by (simp add: com seq)
  then show "server_inv I ?s'"
    unfolding server_inv_def using k rep pend rh calls keys D(9,10) rest(2,3) by simp
qed

lemma ingest_log:
  assumes "server_inv I s" and "log_ok I" and "n_committed s \<le> m" and "m \<le> length I"
    and "map event_of es = hist_of (drop (n_committed s) (take m I))"
  shows "server_inv I (fold ingest_event es s) \<and> n_committed (fold ingest_event es s) = m"
  using assms
proof (induction "m - n_committed s" arbitrary: s es)
  case 0
  then show ?case by simp
next
  case (Suc d)
  let ?n = "n_committed s"
  have n: "?n < m" using Suc.hyps(2) by simp
  have "drop ?n (take m I) = I ! ?n # drop (Suc ?n) (take m I)"
    using n Suc.prems(4) by (simp add: Cons_nth_drop_Suc [symmetric])
  then have "map event_of es = tokens (I ! ?n) @ hist_of (drop (Suc ?n) (take m I))"
    using Suc.prems(5) by (simp add: hist_of_def)
  then obtain es1 es2 where es: "es = es1 @ es2" "map event_of es1 = tokens (I ! ?n)"
    "map event_of es2 = hist_of (drop (Suc ?n) (take m I))"
    by (auto simp: map_eq_append_conv)
  have n': "?n < length I" using n Suc.prems(4) by simp
  note step = ingest_tokens [OF Suc.prems(1) n' Suc.prems(2) es(2)]
  have "server_inv I (fold ingest_event es2 (fold ingest_event es1 s)) \<and>
        n_committed (fold ingest_event es2 (fold ingest_event es1 s)) = m"
    using Suc.hyps Suc.prems step es(3) n
    by (intro Suc.hyps(1)) simp_all
  then show ?case by (simp add: es(1))
qed

text \<open>A replay: the suffix, from some position on, of the client's history at some time.\<close>

definition rp_ok :: "request list \<Rightarrow> replay \<Rightarrow> bool" where
  "rp_ok I rp \<longleftrightarrow> (\<exists>m \<le> length I.
     map event_of (rp_events rp) = drop (unat (rp_from rp)) (hist_of (take m I)))"

lemma rp_ok_log_append: "rp_ok I rp \<Longrightarrow> rp_ok (I @ J) rp"
  unfolding rp_ok_def by (metis le_trans length_append le_add1 append_take_drop_id
      diff_is_0_eq' take0 append_Nil2 take_append)

lemma build_replay_events:
  assumes "client_inv I c"
  shows "map event_of (rp_events (build_replay n c)) = drop (unat n) (hist_of I)"
proof -
  have "event_of (replay_event_of c e) = e" for e
    by (simp add: event_of_def replay_event_of_def Let_def split: option.split)
  then show ?thesis
    using client_history_events [OF assms] by (simp add: build_replay_def comp_def)
qed

lemma build_replay_ok: "client_inv I c \<Longrightarrow> rp_ok I (build_replay n c)"
  unfolding rp_ok_def
  by (rule exI [of _ "length I"]) (simp add: build_replay_events, simp add: build_replay_def)

lemma ingest_replay_result:
  assumes inv: "server_inv I s" and log: "log_ok I" "log_fits I" and m: "m \<le> length I"
    and ev: "map event_of (rp_events rp) = drop (unat (rp_from rp)) (hist_of (take m I))"
    and fresh: "rp_from rp \<le> event_count (srv_history s)"
  shows "server_inv I (ingest_replay rp s)"
    and "n_committed (ingest_replay rp s) = max (n_committed s) m"
proof -
  let ?n = "n_committed s" and ?have = "event_count (srv_history s)"
  define skip where "skip = (if ?have > rp_from rp then ?have - rp_from rp else 0)"
  have cnt: "unat ?have = length (hist_of (take ?n I))"
    using represents_unat_count [OF server_invD(2) [OF inv] hist_take_fits [OF log]] .
  have "unat skip + unat (rp_from rp) = unat ?have"
    using fresh by (auto simp: skip_def unat_sub word_le_nat_alt word_less_nat_alt)
  then have "map event_of (drop (unat skip) (rp_events rp)) =
      drop (length (hist_of (take ?n I))) (hist_of (take m I))"
    using ev cnt by (simp add: drop_map [symmetric] add.commute)
  also have "\<dots> = hist_of (drop ?n (take (max ?n m) I))"
  proof (cases "?n \<le> m")
    case True
    then show ?thesis using hist_of_split [OF True, of I] by simp
  next
    case False
    then have "length (hist_of (take m I)) \<le> length (hist_of (take ?n I))"
      using hist_of_take_le [of m "take ?n I"] by (simp add: min_def)
    then show ?thesis using False by simp
  qed
  finally have es: "map event_of (drop (unat skip) (rp_events rp)) =
      hist_of (drop ?n (take (max ?n m) I))" .
  have "server_inv I (fold ingest_event (drop (unat skip) (rp_events rp)) s) \<and>
    n_committed (fold ingest_event (drop (unat skip) (rp_events rp)) s) = max ?n m"
    by (rule ingest_log [OF inv log(1) _ _ es]) (use m server_invD(1) [OF inv] in auto)
  then show "server_inv I (ingest_replay rp s)"
    and "n_committed (ingest_replay rp s) = max ?n m"
    by (simp_all add: ingest_replay_def Let_def skip_def)
qed

end
