(* ===== verification/Conversation.thy ===== *)
theory Conversation
  imports Failover_Invariant "HOL-Library.Multiset"
begin

text \<open>
  One client and one server role over a network that may drop, duplicate, delay and
  reorder messages arbitrarily, with crashes of the serving process.

  A message offered to the network stays deliverable: delivering it twice is duplication,
  delivering it late is reordering, never delivering it is loss. A \<open>503\<close> recovery
  signal is kept apart from ordinary responses, as both the interceptor and the harness
  do; the client answers it with a replay, which travels like any other message. A crash
  replaces the server by one restored from some checkpoint taken earlier (and possibly
  long ago), with the buffered responses in any order and hashing on or off. The parameter \<open>crashes\<close> says
  whether crashes may happen: \<open>False\<close> is the protocol without failover.

  \<open>issued\<close> (all requests generated so far, in order) and \<open>peak\<close> (the largest number
  of unanswered requests right after one was generated: the client's window) are history
  variables; no step reads them.
\<close>

record 'w sys =
  cl :: client
  sv :: "'w server"
  c2s :: "request list"
  s2c :: "response list"
  signals :: "size_t list"
  replays :: "replay list"
  saved :: "checkpoint list"
  issued :: "request list"
  peak :: nat

definition init_sys :: "bool \<Rightarrow> bool \<Rightarrow> bool \<Rightarrow> 'w \<Rightarrow> 'w sys" where
  "init_sys deliver set_hash srv_hash w =
     \<lparr>cl = client_on_hash_mismatch (client_new deliver set_hash),
      sv = server_on_hash_mismatch (server_new srv_hash w),
      c2s = [], s2c = [], signals = [], replays = [], saved = [], issued = [], peak = 0\<rparr>"

definition do_generate :: "string \<Rightarrow> 'w sys \<Rightarrow> 'w sys" where
  "do_generate p s =
     (case generate_request p (cl s) of (r, c) \<Rightarrow>
        s\<lparr>cl := c, c2s := r # c2s s, issued := issued s @ [r],
          peak := max (peak s) (length (outstanding c))\<rparr>)"

definition do_deliver_request :: "'w app \<Rightarrow> request \<Rightarrow> 'w sys \<Rightarrow> 'w sys" where
  "do_deliver_request app r s =
     (case on_request app r (sv s) of (out, s') \<Rightarrow>
        if is_recover out then s\<lparr>sv := s', signals := rsp_recover_from (out ! 0) # signals s\<rparr>
        else s\<lparr>sv := s', s2c := out @ s2c s\<rparr>)"

inductive step :: "'w app \<Rightarrow> bool \<Rightarrow> 'w sys \<Rightarrow> 'w sys \<Rightarrow> bool"
  for app :: "'w app" and crashes :: bool where
  generate: "step app crashes s (do_generate p s)"
| retransmit: "frozen q (cl s) = Some r \<Longrightarrow> step app crashes s (s\<lparr>c2s := r # c2s s\<rparr>)"
| deliver_request: "r \<in> set (c2s s) \<Longrightarrow> step app crashes s (do_deliver_request app r s)"
| deliver_response: "x \<in> set (s2c s) \<Longrightarrow> on_response x (cl s) = Some (b, c) \<Longrightarrow>
    step app crashes s (s\<lparr>cl := c\<rparr>)"
| take_checkpoint: "step app crashes s (s\<lparr>saved := server_checkpoint (sv s) # saved s\<rparr>)"
| crash: "crashes \<Longrightarrow> cp \<in> set (saved s) \<Longrightarrow> mset bs = mset (cp_buffer cp) \<Longrightarrow>
    step app crashes s
      (s\<lparr>sv := server_on_hash_mismatch
                (server_restore (cp\<lparr>cp_buffer := bs\<rparr>) sh w)\<rparr>)"
| send_replay: "n \<in> set (signals s) \<Longrightarrow>
    step app crashes s (s\<lparr>replays := build_replay n (cl s) # replays s\<rparr>)"
| deliver_replay: "rp \<in> set (replays s) \<Longrightarrow> rp_from rp \<le> event_count (srv_history (sv s)) \<Longrightarrow>
    step app crashes s (s\<lparr>sv := ingest_replay rp (sv s)\<rparr>)"
| outside: "step app crashes s (s\<lparr>sv := (sv s)\<lparr>srv_world := w\<rparr>\<rparr>)"

text \<open>
  The premise of \<open>deliver_replay\<close> restricts the network: a replay is not delivered to a
  server that holds less than the replay leaves out. The code does not check this; what
  happens without it is stated with the failover findings. The rule \<open>outside\<close> lets the
  world the application runs in change on its own, a clock it reads for instance.
\<close>

inductive_cases step_cases: "step app crashes s t"

inductive reachable :: "'w app \<Rightarrow> bool \<Rightarrow> 'w sys \<Rightarrow> bool"
  for app :: "'w app" and crashes :: bool where
  start: "reachable app crashes (init_sys d sh ssh w)"
| step: "reachable app crashes s \<Longrightarrow> step app crashes s t \<Longrightarrow> reachable app crashes t"

lemma reachable_run: "(step app crashes)\<^sup>*\<^sup>* s t \<Longrightarrow> reachable app crashes s \<Longrightarrow> reachable app crashes t"
  by (induction rule: rtranclp_induct) (auto intro: reachable.step)

section \<open>Invariants of a bounded transition system\<close>

text \<open>
  The proof rule of the whole development: an invariant that may rest on a bound which
  only ever gets harder to satisfy (here: the log still fits the machine integers) holds
  in every reachable state within the bound.
\<close>

locale bounded_system =
  fixes init :: "'s \<Rightarrow> bool"
    and trans :: "'s \<Rightarrow> 's \<Rightarrow> bool"
    and bound :: "'s \<Rightarrow> bool"
    and inv :: "'s \<Rightarrow> bool"
  assumes inv_init: "init s \<Longrightarrow> inv s"
    and inv_step: "trans s t \<Longrightarrow> bound t \<Longrightarrow> inv s \<Longrightarrow> inv t"
    and bound_back: "trans s t \<Longrightarrow> bound t \<Longrightarrow> bound s"
begin

lemma inv_run: "trans\<^sup>*\<^sup>* s t \<Longrightarrow> bound t \<Longrightarrow> inv s \<Longrightarrow> inv t"
  by (induction rule: rtranclp_induct) (auto intro: inv_step bound_back)

lemma inv_reached: "init s \<Longrightarrow> trans\<^sup>*\<^sup>* s t \<Longrightarrow> bound t \<Longrightarrow> inv t"
  by (blast intro: inv_run inv_init)

end

definition sys_init :: "'w sys \<Rightarrow> bool" where
  "sys_init s \<longleftrightarrow> (\<exists>d sh ssh w. s = init_sys d sh ssh w)"

definition sys_fits :: "'w sys \<Rightarrow> bool" where
  "sys_fits s \<longleftrightarrow> log_fits (issued s)"

lemma reachable_iff: "reachable app crashes s \<longleftrightarrow> (\<exists>i. sys_init i \<and> (step app crashes)\<^sup>*\<^sup>* i s)"
proof
  assume "reachable app crashes s"
  then show "\<exists>i. sys_init i \<and> (step app crashes)\<^sup>*\<^sup>* i s"
  proof induction
    case (start d sh ssh w)
    show ?case by (intro exI [of _ "init_sys d sh ssh w"]) (auto simp: sys_init_def)
  next
    case (step s t)
    then show ?case by (blast intro: rtranclp.rtrancl_into_rtrancl)
  qed
next
  assume "\<exists>i. sys_init i \<and> (step app crashes)\<^sup>*\<^sup>* i s"
  then obtain i where i: "sys_init i" and run: "(step app crashes)\<^sup>*\<^sup>* i s" by blast
  from run show "reachable app crashes s"
    using i by induction (auto simp: sys_init_def intro: reachable.intros)
qed

section \<open>The safety invariant\<close>

definition sys_inv :: "'w sys \<Rightarrow> bool" where
  "sys_inv s \<longleftrightarrow>
     client_inv (issued s) (cl s) \<and> server_inv (issued s) (sv s) \<and>
     set (c2s s) \<subseteq> set (issued s) \<and>
     (\<forall>x \<in> set (s2c s). response_ok (issued s) x) \<and>
     (\<forall>cp \<in> set (saved s). cp_ok (issued s) cp) \<and>
     (\<forall>rp \<in> set (replays s). rp_ok (issued s) rp)"

lemma response_ok_log_append: "response_ok I x \<Longrightarrow> response_ok (I @ J) x"
  by (auto simp: response_ok_def ids_def hash_upto_append)

lemma sys_inv_init: "sys_init s \<Longrightarrow> sys_inv s"
  by (auto simp: sys_init_def sys_inv_def init_sys_def client_inv_mismatch_fn client_inv_new
      server_inv_new)

lemma do_generate_inv:
  assumes "sys_inv s" and "sys_fits (do_generate p s)"
  shows "sys_inv (do_generate p s)"
proof -
  obtain r c where gen: "generate_request p (cl s) = (r, c)" by fastforce
  have "client_inv (issued s @ [r]) c"
    using assms generate_inv [OF _ gen] by (simp add: sys_inv_def sys_fits_def do_generate_def gen)
  then show ?thesis
    using assms(1)
    by (auto simp: sys_inv_def do_generate_def gen server_inv_log_append response_ok_log_append
        cp_ok_log_append rp_ok_log_append)
qed

lemma do_deliver_request_inv:
  assumes inv: "sys_inv s" and fits: "sys_fits s" and r: "r \<in> set (c2s s)"
  shows "sys_inv (do_deliver_request app r s)"
proof -
  let ?I = "issued s"
  have c: "client_inv ?I (cl s)" and sv: "server_inv ?I (sv s)" and rI: "r \<in> set ?I"
    using inv r by (auto simp: sys_inv_def)
  note o = on_request_inv [OF sv client_invD(1) [OF c] _ client_log_hashes [OF c] rI, of app]
  have "server_inv ?I (snd (on_request app r (sv s)))"
    using o(1) fits by (simp add: sys_fits_def)
  moreover have "is_recover (fst (on_request app r (sv s))) \<or>
      (\<forall>x \<in> set (fst (on_request app r (sv s))). response_ok ?I x)"
    using o(2) fits
    by (cases "needs_recover r (sv s)")
       (auto simp: on_request_recover is_recover_def recover_response_def sys_fits_def)
  ultimately show ?thesis
    using inv by (auto simp: sys_inv_def do_deliver_request_def split: prod.split)
qed

lemma cp_ok_permuted:
  "cp_ok I cp \<Longrightarrow> mset bs = mset (cp_buffer cp) \<Longrightarrow> cp_ok I (cp\<lparr>cp_buffer := bs\<rparr>)"
  using mset_eq_imp_distinct_iff [of "map br_seq bs" "map br_seq (cp_buffer cp)"]
  by (auto simp: cp_ok_def dest: mset_eq_setD)

lemma step_fits: "step app crashes s t \<Longrightarrow> sys_fits t \<Longrightarrow> sys_fits s"
  by (erule step_cases)
     (auto simp: sys_fits_def do_generate_def do_deliver_request_def
       dest: log_fits_prefix split: prod.splits if_splits)

lemma step_inv:
  assumes "step app crashes s t" and "sys_fits t" and "sys_inv s"
  shows "sys_inv t"
  using assms
proof cases
  case (generate p)
  then show ?thesis using assms by (simp add: do_generate_inv)
next
  case (retransmit q r)
  have "r \<in> set (issued s)"
    using retransmit(2) assms(3) client_invD(9) [of "issued s" "cl s" q]
    by (auto simp: sys_inv_def frozen_def ids_def split: if_splits)
  then show ?thesis using assms(3) retransmit(1) by (simp add: sys_inv_def)
next
  case (deliver_request r)
  then show ?thesis using assms step_fits by (blast intro: do_deliver_request_inv)
next
  case (deliver_response x b c)
  then show ?thesis
    using assms on_response_inv [of "issued s" "cl s" x] by (auto simp: sys_inv_def sys_fits_def)
next
  case take_checkpoint
  then show ?thesis using assms(3) by (auto simp: sys_inv_def server_checkpoint_ok)
next
  case (crash cp bs sh w)
  then have "cp_ok (issued s) (cp\<lparr>cp_buffer := bs\<rparr>)"
    using assms(3) by (auto simp: sys_inv_def intro: cp_ok_permuted)
  moreover have "log_ok (issued s)" using assms(3) by (auto simp: sys_inv_def dest: client_invD)
  moreover have "log_fits (issued s)" using assms(2) crash(1) by (simp add: sys_fits_def)
  ultimately show ?thesis
    using assms(3) crash(1) server_restore_inv by (fastforce simp: sys_inv_def)
next
  case (send_replay n)
  then show ?thesis using assms(3) by (auto simp: sys_inv_def build_replay_ok)
next
  case (deliver_replay rp)
  then obtain m where "m \<le> length (issued s)"
    "map event_of (rp_events rp) = drop (unat (rp_from rp)) (hist_of (take m (issued s)))"
    using assms(3) by (auto simp: sys_inv_def rp_ok_def)
  moreover have "log_ok (issued s)" using assms(3) by (auto simp: sys_inv_def dest: client_invD)
  moreover have "log_fits (issued s)" using assms(2) deliver_replay(1) by (simp add: sys_fits_def)
  ultimately show ?thesis
    using assms(3) deliver_replay ingest_replay_result(1) by (fastforce simp: sys_inv_def)
next
  case (outside w)
  then show ?thesis using assms(3) by (simp add: sys_inv_def)
qed

interpretation color: bounded_system sys_init "step app crashes" sys_fits sys_inv for app crashes
  by unfold_locales (auto intro: sys_inv_init step_inv step_fits)

lemma reachable_inv: "reachable app crashes s \<Longrightarrow> sys_fits s \<Longrightarrow> sys_inv s"
  by (auto simp: reachable_iff intro: color.inv_reached)


section \<open>One round trip\<close>

lemma no_recover_signal:
  assumes "server_inv I s" "log_ok I" "log_fits I" "log_hashes I" "r \<in> set I" "\<not> needs_recover r s"
  shows "\<not> is_recover (fst (on_request app r s))"
  using on_request_inv(2) [OF assms, of app]
  by (cases "fst (on_request app r s)") (auto simp: is_recover_def response_ok_def)

text \<open>
  Retransmit a request the server answers, deliver it, deliver the answer: the client is
  left with fewer unanswered requests.
\<close>

lemma answer_step:
  assumes inv: "sys_inv s" and fits: "sys_fits s" and r: "frozen q (cl s) = Some r"
    and no: "\<not> needs_recover r (sv s)"
    and x: "x \<in> set (fst (on_request app r (sv s)))" "rsp_seq x = q"
  shows "\<exists>t. (step app crashes)\<^sup>*\<^sup>* s t \<and> issued t = issued s \<and> sys_inv t \<and>
    length (cli_inflight (cl t)) < length (cli_inflight (cl s)) \<and>
    sv t = snd (on_request app r (sv s))"
proof -
  let ?c = "cl s" and ?I = "issued s"
  have c: "client_inv ?I ?c" and sv: "server_inv ?I (sv s)" using inv by (simp_all add: sys_inv_def)
  have fit: "log_fits ?I" using fits by (simp add: sys_fits_def)
  have rI: "r \<in> set ?I"
    using r client_invD(9) [OF c, of q] by (auto simp: frozen_def ids_def split: if_splits)
  note log = client_invD(1) [OF c] fit client_log_hashes [OF c]
  obtain out s' where res: "on_request app r (sv s) = (out, s')" by fastforce
  let ?s1 = "s\<lparr>c2s := r # c2s s\<rparr>"
  let ?s2 = "do_deliver_request app r ?s1"
  have s2: "?s2 = ?s1\<lparr>sv := s', s2c := out @ s2c s\<rparr>"
    using no_recover_signal [OF sv log rI no, of app] res by (simp add: do_deliver_request_def)
  obtain c' where c': "on_response x ?c = Some (rsp_seq x \<notin> cli_received ?c, c')"
    "cli_inflight c' = um_erase q (cli_inflight ?c)"
    using on_response_inv [OF c fit] on_request_inv(2) [OF sv log rI no, of app] x by blast
  let ?t = "?s2\<lparr>cl := c'\<rparr>"
  have "step app crashes s ?s1" using r by (rule step.retransmit)
  moreover have "step app crashes ?s1 ?s2" by (rule step.deliver_request) simp
  moreover have "step app crashes ?s2 ?t"
    by (rule step.deliver_response [where x = x]) (use x(1) c'(1) res in \<open>simp_all add: s2\<close>)
  ultimately have run: "(step app crashes)\<^sup>*\<^sup>* s ?t" by auto
  moreover have "sys_fits ?t" using fits by (simp add: s2 sys_fits_def)
  ultimately have "sys_inv ?t" using inv color.inv_run by blast
  moreover have "length (cli_inflight c') < length (cli_inflight ?c)"
    unfolding c'(2) using r by (intro length_erase_less) (simp add: frozen_def)
  ultimately show ?thesis using run res by (intro exI [of _ ?t]) (simp add: s2)
qed

end
