(* ===== verification/Plain_Conversation.thy ===== *)
theory Plain_Conversation
  imports Conversation
begin

text \<open>
  The protocol without crashes. Beyond the safety invariant, every response the client
  still waits for is buffered at the server, a recovery signal is never sent, the
  application ran exactly once per committed request, and every buffer is bounded by the
  client's window.
\<close>

section \<open>The server\<close>

definition plain_server :: "request list \<Rightarrow> seq set \<Rightarrow> 'w server \<Rightarrow> bool" where
  "plain_server I R s \<longleftrightarrow>
     srv_awaiting s = {} \<and> h_base_count (srv_history s) = 0 \<and> R \<subseteq> ids (n_committed s) \<and>
     (\<forall>q. um_find (srv_app_calls s) q = (if q \<in> ids (n_committed s) then Some 1 else None)) \<and>
     um_wf (srv_app_calls s) \<and>
     ids (n_committed s) - R \<subseteq> um_keys (srv_resp_buffer s) \<and>
     um_keys (srv_resp_buffer s) \<inter> set (acks (take (n_committed s) I)) = {} \<and>
     (\<forall>q r. um_find (srv_pending_reqs s) q = Some r \<longrightarrow>
        srv_committed_upto s < q \<and> set (req_ack_new r) \<inter> um_keys (srv_resp_buffer s) = {})"

text \<open>What the client acknowledges it has received.\<close>

definition acks_received :: "request list \<Rightarrow> seq set \<Rightarrow> bool" where
  "acks_received I R \<longleftrightarrow>
     (\<forall>r \<in> set I. set (req_ack_new r) \<subseteq> R \<and> ids (unat (req_ack_base r) - 1) \<subseteq> R)"

lemma client_acks_received: "client_inv I c \<Longrightarrow> acks_received I (cli_received c)"
  unfolding acks_received_def
proof (intro ballI conjI)
  fix r assume inv: "client_inv I c" and r: "r \<in> set I"
  then show "set (req_ack_new r) \<subseteq> cli_received c"
    using client_invD(11) [OF inv] by (auto simp: acks_def)
  show "ids (unat (req_ack_base r) - 1) \<subseteq> cli_received c"
    using r client_invD(17) [OF inv] by (auto simp only: in_set_conv_nth)
qed

lemma plain_serverD:
  assumes "plain_server I R s"
  shows "srv_awaiting s = {}" and "h_base_count (srv_history s) = 0"
    and "R \<subseteq> ids (n_committed s)"
    and "\<And>q. um_find (srv_app_calls s) q = (if q \<in> ids (n_committed s) then Some 1 else None)"
    and "um_wf (srv_app_calls s)"
    and "ids (n_committed s) - R \<subseteq> um_keys (srv_resp_buffer s)"
    and "um_keys (srv_resp_buffer s) \<inter> set (acks (take (n_committed s) I)) = {}"
    and "\<And>q r. um_find (srv_pending_reqs s) q = Some r \<Longrightarrow>
        srv_committed_upto s < q \<and> set (req_ack_new r) \<inter> um_keys (srv_resp_buffer s) = {}"
  using assms by (auto simp: plain_server_def)

lemma plain_server_world [simp]: "plain_server I R (s\<lparr>srv_world := w\<rparr>) = plain_server I R s"
  by (simp add: plain_server_def)

text \<open>Without crashes an acknowledgement never names history the server lacks.\<close>

lemma plain_no_recover:
  assumes plain: "plain_server I R s" and recv: "acks_received I R" and r: "r \<in> set I"
    and lok: "log_ok I" and inv: "server_inv I s" and fits: "log_fits I"
  shows "\<not> needs_recover r s"
proof -
  note D = plain_serverD [OF plain]
  have n: "unat (srv_committed_upto s + 1) = n_committed s + 1"
    using server_invD(1) [OF inv] log_fits_length [OF fits] by (intro unat_plus_one) simp
  have "unat (req_ack_base r) \<le> n_committed s + 1"
  proof (rule ccontr)
    assume "\<not> ?thesis"
    then have b: "unat (req_ack_base r) - 1 > n_committed s" by simp
    let ?q = "of_nat (unat (req_ack_base r) - 1) :: seq"
    have q: "unat ?q = unat (req_ack_base r) - 1"
      using unat_64_less [of "req_ack_base r"] by (intro unat_of_nat_64) simp
    then have "?q \<in> ids (unat (req_ack_base r) - 1)" using b by (simp add: ids_def)
    then have "?q \<in> ids (n_committed s)" using recv r D(3) by (auto simp: acks_received_def)
    then show False using q b by (simp add: ids_def)
  qed
  then have "\<not> req_ack_base r > srv_committed_upto s + 1"
    using n by (simp add: word_less_nat_alt)
  moreover have "\<not> list_ex (\<lambda>i. i > srv_committed_upto s) (req_ack_new r)"
    using recv r D(3) by (force simp: acks_received_def list_ex_iff ids_def word_less_nat_alt)
  ultimately show ?thesis by (simp add: needs_recover_def)
qed

lemma plain_release:
  assumes plain: "plain_server I R s" and inv: "server_inv I s"
    and recv: "acks_received I R" and r: "r \<in> set I"
  shows "plain_server I R (release_acked r s)"
    and "set (req_ack_new r) \<inter> um_keys (srv_resp_buffer (release_acked r s)) = {}"
proof -
  note D = plain_serverD [OF plain]
  let ?K = "um_keys (srv_resp_buffer s)" and ?K' = "um_keys (srv_resp_buffer (release_acked r s))"
  have K': "?K' = ?K - {q. q < req_ack_base r} - set (req_ack_new r)"
    using server_invD(5) [OF inv] by (rule release_acked_keys)
  then show "set (req_ack_new r) \<inter> ?K' = {}" by blast
  have "q \<in> R" if "q \<in> ?K" "q < req_ack_base r" for q
  proof -
    have "q \<in> ids (unat (req_ack_base r) - 1)"
      using that server_buffer_keys [OF inv] by (auto simp: ids_def word_less_nat_alt)
    then show ?thesis using recv r by (auto simp: acks_received_def)
  qed
  then have "ids (n_committed s) - R \<subseteq> ?K'"
    using D(6) recv r unfolding K' acks_received_def by blast
  moreover have "?K' \<inter> set (acks (take (n_committed s) I)) = {}"
    using D(7) unfolding K' by blast
  moreover have "srv_committed_upto s < q \<and> set (req_ack_new r') \<inter> ?K' = {}"
    if "um_find (srv_pending_reqs s) q = Some r'" for q r'
    using D(8) [OF that] unfolding K' by blast
  ultimately show "plain_server I R (release_acked r s)"
    using D(1-5) by (simp add: plain_server_def)
qed

lemma plain_commit:
  assumes plain: "plain_server I R s" and inv: "server_inv I s" and recv: "acks_received I R"
    and log: "log_ok I" "log_fits I"
    and nxt: "um_find (srv_pending_reqs s) (srv_committed_upto s + 1) = Some r"
  shows "plain_server I R (snd (commit_next app r s))"
    and "n_committed (snd (commit_next app r s)) = Suc (n_committed s)"
    and "rsp_seq (fst (commit_next app r s)) = req_seq r"
    and "\<not> rsp_no_op (fst (commit_next app r s))"
proof -
  note D = plain_serverD [OF plain] and np = next_pending [OF inv log nxt]
  let ?s0 = "s\<lparr>srv_pending_reqs := um_erase (srv_committed_upto s + 1) (srv_pending_reqs s)\<rparr>"
  note f = commit_request_parts [of app r ?s0, folded commit_next_def]
  let ?s' = "snd (commit_next app r s)" and ?n = "n_committed s"
  let ?K = "um_keys (srv_resp_buffer s)"
  show n': "n_committed ?s' = Suc ?n" by (simp add: f np(4))
  show "rsp_seq (fst (commit_next app r s)) = req_seq r" "\<not> rsp_no_op (fst (commit_next app r s))"
    by (simp_all add: f(14))
  have ids: "ids (Suc ?n) = insert (req_seq r) (ids ?n)" using np(4) by (rule ids_Suc)
  have fresh: "req_seq r \<notin> ids ?n" using np(4) by (simp add: ids_def)
  have K': "um_keys (srv_resp_buffer ?s') = insert (req_seq r) ?K" by (simp add: f um_simps)
  have acks_in: "set (req_ack_new r') \<subseteq> ids ?n" if "r' \<in> set I" for r'
    using that recv D(3) by (auto simp: acks_received_def)
  have acks: "acks (take (Suc ?n) I) = acks (take ?n I) @ req_ack_new r"
    using np(1,2) by (simp add: take_Suc_snoc)
  have "set (acks (take ?n I)) \<subseteq> ids ?n"
    using recv D(3) by (auto simp: acks_def acks_received_def dest!: in_set_takeD)
  then have disj: "um_keys (srv_resp_buffer ?s') \<inter> set (acks (take (Suc ?n) I)) = {}"
    using D(7) D(8) [OF nxt] fresh acks_in [of r] np(1,2) unfolding K' acks by auto
  have pend: "srv_committed_upto ?s' < q \<and> set (req_ack_new r') \<inter> um_keys (srv_resp_buffer ?s') = {}"
    if "um_find (srv_pending_reqs ?s') q = Some r'" for q r'
  proof -
    have q: "um_find (srv_pending_reqs s) q = Some r'" "q \<noteq> srv_committed_upto s + 1"
      using that by (auto simp: f um_simps split: if_splits)
    then have "r' \<in> set I" using server_invD(3) [OF inv] by (simp add: pending_ok_def)
    moreover have "srv_committed_upto ?s' < q"
      using D(8) [OF q(1)] q(2) np(3,4) word64_eqI [of q "req_seq r"]
      by (auto simp: f(4) word_less_nat_alt)
    ultimately show ?thesis using D(8) [OF q(1)] acks_in fresh unfolding K' by auto
  qed
  have calls: "um_find (srv_app_calls ?s') q = (if q \<in> ids (Suc ?n) then Some 1 else None)" for q
    using D(4) [of q] D(4) [of "req_seq r"] fresh ids by (auto simp: f um_simps)
  show "plain_server I R ?s'"
    unfolding plain_server_def n'
    using D(1-3,5,6) calls disj pend ids_mono [of ?n "Suc ?n"] ids
    by (auto simp: f(1) f(5) f(9) K' um_simps) 
qed

lemma plain_commit_loop:
  fixes app :: "'w app"
  assumes plain: "plain_server I R s" and inv: "server_inv I s" and recv: "acks_received I R"
    and log: "log_ok I" "log_fits I" "log_hashes I"
  shows "plain_server I R (snd (commit_loop app s []))"
    and "n_committed s \<le> n_committed (snd (commit_loop app s []))"
    and "\<forall>x \<in> set (fst (commit_loop app s [])).
      rsp_seq x \<in> ids (n_committed (snd (commit_loop app s []))) \<and> \<not> rsp_no_op x"
    and "um_find (srv_pending_reqs (snd (commit_loop app s [])))
      (srv_committed_upto (snd (commit_loop app s [])) + 1) = None"
proof -
  let ?P = "\<lambda>(t :: 'w server) (out :: response list). server_inv I t \<and> plain_server I R t \<and> n_committed s \<le> n_committed t \<and>
    (\<forall>x \<in> set out. rsp_seq x \<in> ids (n_committed t) \<and> \<not> rsp_no_op x)"
  have "?P (snd (commit_loop app s [])) (fst (commit_loop app s [])) \<and>
    um_find (srv_pending_reqs (snd (commit_loop app s [])))
      (srv_committed_upto (snd (commit_loop app s [])) + 1) = None"
  proof (rule commit_loop_rule [where P = ?P])
    show "?P s []" using plain inv by simp
    fix t out r
    assume P: "?P t out" and nxt: "um_find (srv_pending_reqs t) (srv_committed_upto t + 1) = Some r"
    then have t: "server_inv I t" "plain_server I R t" by simp_all
    note c = plain_commit [OF t(2,1) recv log(1,2) nxt, of app]
    have "req_seq r \<in> ids (Suc (n_committed t))"
      using next_pending(4) [OF t(1) log(1,2) nxt] by (simp add: ids_def)
    moreover have "ids (n_committed t) \<subseteq> ids (Suc (n_committed t))" by (intro ids_mono) simp
    ultimately show "?P (snd (commit_next app r t)) (out @ [fst (commit_next app r t)])"
      using P c commit_next_inv(1) [OF t(1) log nxt] by auto
  qed
  then show "plain_server I R (snd (commit_loop app s []))"
    and "n_committed s \<le> n_committed (snd (commit_loop app s []))"
    and "\<forall>x \<in> set (fst (commit_loop app s [])).
      rsp_seq x \<in> ids (n_committed (snd (commit_loop app s []))) \<and> \<not> rsp_no_op x"
    and "um_find (srv_pending_reqs (snd (commit_loop app s [])))
      (srv_committed_upto (snd (commit_loop app s [])) + 1) = None"
    by blast+
qed

lemma plain_track_bounds [simp]: "plain_server I R (track_bounds s) = plain_server I R s"
  by (simp add: plain_server_def)

lemma plain_stage:
  assumes "plain_server I R s" and "\<not> req_seq r \<le> srv_committed_upto s"
    and "set (req_ack_new r) \<inter> um_keys (srv_resp_buffer s) = {}"
  shows "plain_server I R (stage r s)"
  using assms by (auto simp: plain_server_def stage_def um_simps split: if_splits)

lemma plain_on_request:
  assumes plain: "plain_server I R s" and inv: "server_inv I s" and recv: "acks_received I R"
    and log: "log_ok I" "log_fits I" "log_hashes I" and r: "r \<in> set I"
  shows "plain_server I R (snd (on_request app r s))"
    and "n_committed s \<le> n_committed (snd (on_request app r s))"
    and "\<forall>x \<in> set (fst (on_request app r s)).
      rsp_seq x \<in> ids (n_committed (snd (on_request app r s))) \<and> (rsp_no_op x \<longrightarrow> rsp_seq x \<in> R)"
    and "\<not> is_recover (fst (on_request app r s))"
proof -
  note rel = plain_release [OF plain inv recv r]
  have no: "\<not> needs_recover r s" using plain recv r log(1) inv log(2) by (rule plain_no_recover)
  have id: "req_seq r \<in> ids (n_committed s)" if "req_seq r \<le> srv_committed_upto s"
    using log_member_seq [OF log(1) r] that by (simp add: ids_def word_le_nat_alt)
  let ?res = "on_request app r s"
  have "plain_server I R (snd ?res) \<and> n_committed s \<le> n_committed (snd ?res) \<and>
    (\<forall>x \<in> set (fst ?res). rsp_seq x \<in> ids (n_committed (snd ?res)) \<and> (rsp_no_op x \<longrightarrow> rsp_seq x \<in> R))"
  proof (cases rule: on_request_cases [of r s])
    case recover
    then show ?thesis using no by simp
  next
    case (resend p)
    then show ?thesis using rel(1) id by (simp add: on_request_resend)
  next
    case awaiting
    then show ?thesis using plain_serverD(1) [OF plain] by simp
  next
    case no_op
    then have "req_seq r \<notin> um_keys (srv_resp_buffer (release_acked r s))" by auto
    then have "req_seq r \<in> R" using plain_serverD(6) [OF rel(1)] id [OF no_op(2)] by auto
    then show ?thesis using no_op rel(1) id by (simp add: on_request_no_op)
  next
    case new
    let ?s = "stage r (release_acked r s)"
    have "plain_server I R ?s" using plain_stage [OF rel(1) _ rel(2)] new(2) by simp
    moreover have "server_inv I ?s"
      using server_inv_stage [OF server_inv_release [OF inv] r] by (simp add: stage_def)
    moreover have "n_committed ?s = n_committed s" by (simp add: stage_def)
    ultimately show ?thesis
      using new plain_commit_loop [OF _ _ recv log, of ?s app] by (simp add: on_request_new)
  qed
  then show "plain_server I R (snd ?res)" "n_committed s \<le> n_committed (snd ?res)"
    "\<forall>x \<in> set (fst ?res). rsp_seq x \<in> ids (n_committed (snd ?res)) \<and> (rsp_no_op x \<longrightarrow> rsp_seq x \<in> R)"
    by blast+
  show "\<not> is_recover (fst ?res)" using inv log r no by (rule no_recover_signal)
qed

section \<open>Liveness of one round trip\<close>

lemma commit_loop_out: "set out \<subseteq> set (fst (commit_loop app s out))"
proof (induction app s out rule: commit_loop.induct)
  case (1 app s out)
  show ?case
  proof (cases "um_find (srv_pending_reqs s) (srv_committed_upto s + 1)")
    case None
    then show ?thesis by (simp add: commit_loop_unfold [of app s out])
  next
    case (Some r)
    then show ?thesis
      using "1.IH" [OF Some refl] by (simp add: commit_loop_unfold [of app s out] commit_next_def)
  qed
qed

text \<open>The next request in order is committed and answered as soon as a copy arrives.\<close>

lemma on_request_next:
  assumes no: "\<not> needs_recover r s" and new: "\<not> req_seq r \<le> srv_committed_upto s"
    and nxt: "req_seq r = srv_committed_upto s + 1"
  shows "\<exists>x \<in> set (fst (on_request app r s)). rsp_seq x = req_seq r \<and> \<not> rsp_no_op x"
proof -
  let ?s = "stage r (release_acked r s)"
  have find: "um_find (srv_pending_reqs ?s) (srv_committed_upto ?s + 1) = Some r"
    using nxt by (simp add: stage_def um_simps)
  have "fst (commit_next app r ?s) \<in> set (fst (commit_loop app ?s []))"
    using commit_loop_out [of "[fst (commit_next app r ?s)]" app "snd (commit_next app r ?s)"] find
    by (simp add: commit_loop_unfold [of app ?s])
  moreover have "rsp_seq (fst (commit_next app r ?s)) = req_seq r"
    "\<not> rsp_no_op (fst (commit_next app r ?s))"
    by (simp_all add: commit_next_def commit_request_parts)
  ultimately show ?thesis using no new by (auto simp: on_request_new)
qed

text \<open>The oldest unanswered request is answered, with a real response, as soon as a copy arrives.\<close>

lemma oldest_answered:
  assumes plain: "plain_server I R s" and inv: "server_inv I s" and recv: "acks_received I R"
    and log: "log_ok I" "log_fits I" "log_hashes I" and r: "r \<in> set I"
    and unanswered: "req_seq r \<notin> R" and oldest: "ids (unat (req_seq r) - 1) \<subseteq> R"
  shows "\<exists>x \<in> set (fst (on_request app r s)). rsp_seq x = req_seq r \<and> \<not> rsp_no_op x"
proof -
  note rel = plain_release [OF plain inv recv r]
  have no: "\<not> needs_recover r s" using plain recv r log(1) inv log(2) by (rule plain_no_recover)
  have seq: "req_seq r \<in> ids (length I)" using log(1) r by (rule log_member_seq)
  show ?thesis
  proof (cases "req_seq r \<le> srv_committed_upto s")
    case True
    then have "req_seq r \<in> ids (n_committed s)" using seq by (simp add: ids_def word_le_nat_alt)
    then have "req_seq r \<in> um_keys (srv_resp_buffer (release_acked r s))"
      using unanswered plain_serverD(6) [OF rel(1)] by auto
    then obtain p where "um_find (srv_resp_buffer (release_acked r s)) (req_seq r) = Some p" by auto
    then show ?thesis using no True by (simp add: on_request_resend)
  next
    case False
    let ?q = "of_nat (unat (req_seq r) - 1) :: seq"
    have "unat (req_seq r) \<le> n_committed s + 1"
    proof (rule ccontr)
      assume a: "\<not> ?thesis"
      have q: "unat ?q = unat (req_seq r) - 1"
        using unat_64_less [of "req_seq r"] by (intro unat_of_nat_64) simp
      then have "?q \<in> ids (unat (req_seq r) - 1)" using a by (simp add: ids_def)
      then have "?q \<in> ids (n_committed s)" using oldest plain_serverD(3) [OF plain] by blast
      then have "unat ?q \<le> n_committed s" by (simp add: ids_def)
      then show False using a q by linarith
    qed
    moreover have "n_committed s + 1 < 2 ^ 64"
      using server_invD(1) [OF inv] log_fits_length [OF log(2)] by simp
    ultimately have nxt: "req_seq r = srv_committed_upto s + 1"
      using False unat_plus_one by (intro word64_eqI) (simp add: word_le_nat_alt)
    show ?thesis using no False nxt by (rule on_request_next)
  qed
qed

end
