(* ===== verification/Plain_System.thy ===== *)
theory Plain_System
  imports Plain_Conversation
begin

text \<open>
  The invariant of the crash-free system: the server part of \<open>Plain_Conversation\<close>, the
  receipts of the client, and the window bounds of every buffer.
\<close>

section \<open>The window\<close>

text \<open>
  \<open>open_at I k\<close>: the requests unanswered right after the first \<open>k\<close> requests had been
  generated. The window bound says that there were never more of them than \<open>w\<close>.
\<close>

definition open_at :: "request list \<Rightarrow> nat \<Rightarrow> seq set" where
  "open_at I k = ids k - set (acks (take k I))"

definition window_ok :: "request list \<Rightarrow> nat \<Rightarrow> bool" where
  "window_ok I w \<longleftrightarrow> (\<forall>k \<le> length I. card (open_at I k) \<le> w)"

lemma open_at_append: "k \<le> length I \<Longrightarrow> open_at (I @ J) k = open_at I k"
  by (simp add: open_at_def)

lemma finite_open_at [simp]: "finite (open_at I k)"
  by (simp add: open_at_def)

definition window_bounds :: "'w sys \<Rightarrow> bool" where
  "window_bounds s \<longleftrightarrow>
     window_ok (issued s) (peak s) \<and>
     length (cli_pending_new (cl s)) + length (cli_inflight (cl s)) \<le> peak s \<and>
     cli_max_ack_new (cl s) \<le> peak s \<and>
     srv_max_resp_buffer (sv s) \<le> peak s \<and> srv_max_pending (sv s) \<le> peak s"

definition plain_inv :: "'w sys \<Rightarrow> bool" where
  "plain_inv s \<longleftrightarrow>
     plain_server (issued s) (cli_received (cl s)) (sv s) \<and>
     (\<forall>x \<in> set (s2c s). rsp_seq x \<in> ids (n_committed (sv s)) \<and>
        (rsp_no_op x \<longrightarrow> rsp_seq x \<in> cli_received (cl s))) \<and>
     cli_received (cl s) = set (acks (issued s) @ cli_pending_new (cl s)) \<and>
     signals s = [] \<and> replays s = []"

lemma plain_inv_init: "sys_init s \<Longrightarrow> plain_inv s \<and> window_bounds s"
  by (auto simp: sys_init_def plain_inv_def window_bounds_def init_sys_def plain_server_def
      server_new_def client_new_def client_on_hash_mismatch_def server_on_hash_mismatch_def
      history_new_def window_ok_def open_at_def)

lemma sys_invD:
  assumes "sys_inv s"
  shows "client_inv (issued s) (cl s)" and "server_inv (issued s) (sv s)"
    and "set (c2s s) \<subseteq> set (issued s)"
    and "\<And>x. x \<in> set (s2c s) \<Longrightarrow> response_ok (issued s) x"
    and "log_ok (issued s)" and "log_hashes (issued s)"
    and "acks_received (issued s) (cli_received (cl s))"
  using assms
  by (auto simp: sys_inv_def client_acks_received client_log_hashes dest: client_invD(1))

lemma plain_server_log_append:
  "plain_server I R s \<Longrightarrow> n_committed s \<le> length I \<Longrightarrow> plain_server (I @ J) R s"
  by (simp add: plain_server_def)

section \<open>Generating\<close>

lemma plain_generate:
  assumes inv: "sys_inv s" and plain: "plain_inv s"
  shows "plain_inv (do_generate p s)"
proof -
  obtain r c where gen: "generate_request p (cl s) = (r, c)" by fastforce
  note f = generate_request_fields [OF gen]
  show ?thesis
    using plain server_invD(1) [OF sys_invD(2) [OF inv]]
    by (auto simp: plain_inv_def do_generate_def gen f plain_server_log_append)
qed

lemma window_generate:
  assumes inv: "sys_inv s" and plain: "plain_inv s" and win: "window_bounds s"
    and fits: "sys_fits (do_generate p s)"
  shows "window_bounds (do_generate p s)"
proof -
  obtain r c where gen: "generate_request p (cl s) = (r, c)" by fastforce
  note f = generate_request_fields [OF gen]
  let ?I = "issued s @ [r]"
  have c: "client_inv ?I c"
    using do_generate_inv [OF inv fits] by (simp add: sys_inv_def do_generate_def gen)
  have "cli_received c = set (acks ?I)" using plain by (auto simp: plain_inv_def f)
  then have "um_keys (cli_inflight c) = open_at ?I (length ?I)"
    using client_inflight_keys [OF c] by (simp add: open_at_def)
  then have len: "length (cli_inflight c) = card (open_at ?I (length ?I))"
    using umap.size_card [OF client_invD(8) [OF c]] by simp
  have "card (open_at ?I k) \<le> max (peak s) (length (cli_inflight c))" if "k \<le> length ?I" for k
  proof (cases "k = length ?I")
    case True
    then show ?thesis using len by simp
  next
    case False
    then have k: "k \<le> length (issued s)" using that by simp
    then have "card (open_at (issued s) k) \<le> peak s"
      using win by (simp add: window_bounds_def window_ok_def)
    then show ?thesis using open_at_append [OF k, of "[r]"] by simp
  qed
  then have "window_ok ?I (max (peak s) (length (cli_inflight c)))" by (simp add: window_ok_def)
  then show ?thesis
    using win by (auto simp: window_bounds_def do_generate_def gen f outstanding_def)
qed

section \<open>Receiving\<close>

lemma plain_deliver_response:
  assumes inv: "sys_inv s" and fits: "sys_fits s" and plain: "plain_inv s" and win: "window_bounds s"
    and x: "x \<in> set (s2c s)" and recv: "on_response x (cl s) = Some (b, c)"
  shows "plain_inv (s\<lparr>cl := c\<rparr>)" and "window_bounds (s\<lparr>cl := c\<rparr>)"
proof -
  note D = sys_invD [OF inv]
  obtain c' where c': "on_response x (cl s) = Some (rsp_seq x \<notin> cli_received (cl s), c')"
    "cli_received c' = insert (rsp_seq x) (cli_received (cl s))"
    "cli_inflight c' = um_erase (rsp_seq x) (cli_inflight (cl s))"
    "cli_pending_new c' = cli_pending_new (cl s) @
      (if rsp_seq x \<in> cli_received (cl s) \<or> rsp_no_op x then [] else [rsp_seq x])"
    "cli_max_ack_new c' = cli_max_ack_new (cl s)"
    using on_response_inv [OF D(1) _ D(4) [OF x]] fits by (auto simp: sys_fits_def)
  then have cc: "c' = c" using recv by simp
  have xs: "rsp_seq x \<in> ids (n_committed (sv s))" "rsp_no_op x \<Longrightarrow> rsp_seq x \<in> cli_received (cl s)"
    using plain x by (auto simp: plain_inv_def)
  have R: "cli_received c = set (acks (issued s) @ cli_pending_new c)"
    using plain xs(2) c'(2,4) by (auto simp: plain_inv_def cc)
  have sv: "plain_server (issued s) (cli_received c) (sv s)"
    using plain xs(1) c'(2) by (auto simp: plain_inv_def plain_server_def cc)
  show "plain_inv (s\<lparr>cl := c\<rparr>)"
    using plain sv R c'(2) by (auto simp: plain_inv_def cc)
  have "length (cli_pending_new c) + length (cli_inflight c) \<le>
        length (cli_pending_new (cl s)) + length (cli_inflight (cl s))"
  proof (cases "rsp_seq x \<in> cli_received (cl s)")
    case True
    then show ?thesis
      using c'(3,4) length_delete_le [of "rsp_seq x" "cli_inflight (cl s)"] by (simp add: cc)
  next
    case False
    have "rsp_seq x \<in> ids (length (issued s))" using D(4) [OF x] by (simp add: response_ok_def)
    then have "um_find (cli_inflight (cl s)) (rsp_seq x) \<noteq> None"
      using False client_invD(9) [OF D(1)] by simp
    then have "length (cli_inflight c) < length (cli_inflight (cl s))"
      using length_erase_less c'(3) by (simp add: cc)
    then show ?thesis using c'(4) by (simp add: cc)
  qed
  then show "window_bounds (s\<lparr>cl := c\<rparr>)"
    using win c'(5) by (simp add: window_bounds_def cc)
qed

section \<open>The server's buffers\<close>

lemma plain_buffer_bound:
  assumes inv: "server_inv I s" and plain: "plain_server I R s" and win: "window_ok I w"
  shows "length (srv_resp_buffer s) \<le> w"
proof -
  have "um_keys (srv_resp_buffer s) \<subseteq> open_at I (n_committed s)"
    using server_buffer_keys [OF inv] plain_serverD(7) [OF plain] by (auto simp: open_at_def)
  then have "length (srv_resp_buffer s) \<le> card (open_at I (n_committed s))"
    using umap.size_le_superset [OF server_invD(5) [OF inv]] by simp
  also have "\<dots> \<le> w" using win server_invD(1) [OF inv] by (simp add: window_ok_def)
  finally show ?thesis .
qed

lemma plain_pending_bound:
  assumes inv: "server_inv I s" and plain: "plain_server I (cli_received c) s"
    and cinv: "client_inv I c"
  shows "length (srv_pending_reqs s) \<le> length (cli_inflight c)"
proof -
  have "um_keys (srv_pending_reqs s) \<subseteq> ids (length I) - cli_received c"
  proof
    fix q assume "q \<in> um_keys (srv_pending_reqs s)"
    then obtain r where r: "um_find (srv_pending_reqs s) q = Some r" by auto
    then have "r \<in> set I" "req_seq r = q"
      using server_invD(3) [OF inv] by (auto simp: pending_ok_def)
    then have "q \<in> ids (length I)" using log_member_seq [OF client_invD(1) [OF cinv]] by auto
    moreover have "q \<notin> cli_received c"
      using plain_serverD(8) [OF plain r] plain_serverD(3) [OF plain]
      by (auto simp: ids_def word_less_nat_alt)
    ultimately show "q \<in> ids (length I) - cli_received c" by simp
  qed
  then have "length (srv_pending_reqs s) \<le> card (um_keys (cli_inflight c))"
    using server_invD(3) [OF inv] umap.size_le_superset [of "srv_pending_reqs s"]
    by (simp add: pending_ok_def client_inflight_keys [OF cinv])
  then show ?thesis using umap.size_card [OF client_invD(8) [OF cinv]] by simp
qed

lemma commit_loop_max:
  "srv_max_resp_buffer (snd (commit_loop app s out)) = srv_max_resp_buffer s \<and>
   srv_max_pending (snd (commit_loop app s out)) = srv_max_pending s"
  using commit_loop_rule [where P = "\<lambda>t out. srv_max_resp_buffer t = srv_max_resp_buffer s \<and>
      srv_max_pending t = srv_max_pending s" and s = s and out = out and app = app]
  by (simp add: commit_next_def commit_request_parts)

text \<open>The two high-water marks after a request, in every branch that is not a recovery.\<close>

lemma on_request_max:
  assumes "\<not> needs_recover r s" and "srv_awaiting s = {}"
  shows "srv_max_resp_buffer (snd (on_request app r s)) =
      max (srv_max_resp_buffer s) (length (srv_resp_buffer (snd (on_request app r s))))"
    and "srv_max_pending (snd (on_request app r s)) =
      max (srv_max_pending s) (length (srv_pending_reqs (snd (on_request app r s))))"
proof -
  have "srv_max_resp_buffer (snd (on_request app r s)) =
      max (srv_max_resp_buffer s) (length (srv_resp_buffer (snd (on_request app r s)))) \<and>
    srv_max_pending (snd (on_request app r s)) =
      max (srv_max_pending s) (length (srv_pending_reqs (snd (on_request app r s))))"
    by (cases rule: on_request_cases [of r s])
       (use assms in \<open>simp_all add: on_request_resend on_request_no_op on_request_new
          commit_loop_max stage_def\<close>)
  then show "srv_max_resp_buffer (snd (on_request app r s)) =
      max (srv_max_resp_buffer s) (length (srv_resp_buffer (snd (on_request app r s))))"
    and "srv_max_pending (snd (on_request app r s)) =
      max (srv_max_pending s) (length (srv_pending_reqs (snd (on_request app r s))))"
    by blast+
qed

lemma plain_deliver_request:
  assumes inv: "sys_inv s" and fits: "sys_fits s" and plain: "plain_inv s" and win: "window_bounds s"
    and r: "r \<in> set (c2s s)"
  shows "plain_inv (do_deliver_request app r s)" and "window_bounds (do_deliver_request app r s)"
proof -
  note D = sys_invD [OF inv]
  have ps: "plain_server (issued s) (cli_received (cl s)) (sv s)" and rI: "r \<in> set (issued s)"
    and fit: "log_fits (issued s)"
    using plain r D(3) fits by (auto simp: plain_inv_def sys_fits_def)
  obtain out s' where res: "on_request app r (sv s) = (out, s')" by fastforce
  note o = plain_on_request [OF ps D(2) D(7) D(5) fit D(6) rI, of app, unfolded res fst_conv snd_conv]
  have t: "do_deliver_request app r s = s\<lparr>sv := s', s2c := out @ s2c s\<rparr>"
    using o(4) by (simp add: do_deliver_request_def res)
  have mono: "ids (n_committed (sv s)) \<subseteq> ids (n_committed s')" using o(2) by (rule ids_mono)
  show "plain_inv (do_deliver_request app r s)"
    using plain o mono unfolding t by (auto simp: plain_inv_def)
  have sinv: "server_inv (issued s) s'"
    using on_request_inv(1) [OF D(2) D(5) fit D(6) rI, of app] by (simp add: res)
  note mx = on_request_max [OF plain_no_recover [OF ps D(7) rI D(5) D(2) fit] plain_serverD(1) [OF ps],
      of app, unfolded res snd_conv]
  show "window_bounds (do_deliver_request app r s)"
    using win plain_buffer_bound [OF sinv o(1), of "peak s"] plain_pending_bound [OF sinv o(1) D(1)]
    unfolding t by (simp add: window_bounds_def mx)
qed

section \<open>The crash-free invariant holds in every reachable state\<close>

definition plain_sys :: "'w sys \<Rightarrow> bool" where
  "plain_sys s \<longleftrightarrow> sys_inv s \<and> plain_inv s \<and> window_bounds s"

lemma plain_step:
  assumes step: "step app False s t" and fits: "sys_fits t" and inv: "plain_sys s"
  shows "plain_sys t"
proof -
  have i: "sys_inv s" "plain_inv s" "window_bounds s" using inv by (simp_all add: plain_sys_def)
  have fs: "sys_fits s" using step fits by (rule step_fits)
  have t: "sys_inv t" using step fits i(1) by (rule step_inv)
  have "plain_inv t \<and> window_bounds t"
    using step
  proof cases
    case (generate p)
    then show ?thesis using i fits plain_generate window_generate by blast
  next
    case (retransmit q r)
    then show ?thesis using i by (auto simp: plain_inv_def window_bounds_def)
  next
    case (deliver_request r)
    then show ?thesis using i fs plain_deliver_request by blast
  next
    case (deliver_response x b c)
    then show ?thesis using i fs plain_deliver_response by blast
  next
    case take_checkpoint
    then show ?thesis using i by (auto simp: plain_inv_def window_bounds_def)
  next
    case (outside w)
    then show ?thesis using i by (auto simp: plain_inv_def window_bounds_def)
  qed (use i in \<open>auto simp: plain_inv_def\<close>)
  then show ?thesis using t by (simp add: plain_sys_def)
qed

interpretation plain: bounded_system sys_init "step app False" sys_fits plain_sys for app
  by unfold_locales
     (simp add: plain_sys_def plain_inv_init sys_inv_init, rule plain_step, assumption+, rule step_fits)

lemma reachable_plain: "reachable app False s \<Longrightarrow> sys_fits s \<Longrightarrow> plain_sys s"
  by (auto simp: reachable_iff intro: plain.inv_reached)

lemma plain_sysD:
  assumes "plain_sys s"
  shows "sys_inv s" and "plain_inv s" and "window_bounds s"
    and "plain_server (issued s) (cli_received (cl s)) (sv s)"
    and "cli_received (cl s) = set (acks (issued s) @ cli_pending_new (cl s))"
  using assms by (auto simp: plain_sys_def plain_inv_def)

end
