(* ===== verification/Answers.thy ===== *)
theory Answers
  imports Plain_System
begin

text \<open>
  What the client's application sees. With or without crashes, responses are handed up in
  the order of the acknowledgements, each at most once. Without crashes every copy of a
  response carries the payload the application computed for its request, and the client
  can always drain: from every reachable state some continuation answers every request.
\<close>

section \<open>Delivery order\<close>

definition delivery_ok :: "'w sys \<Rightarrow> bool" where
  "delivery_ok s \<longleftrightarrow>
     map fst (cli_delivered (cl s)) =
       (if cli_deliver (cl s) then acks (issued s) @ cli_pending_new (cl s) else [])"

definition delivery_sys :: "'w sys \<Rightarrow> bool" where
  "delivery_sys s \<longleftrightarrow> sys_inv s \<and> delivery_ok s"

lemma on_response_delivered:
  assumes "on_response x c = Some (b, c')"
  shows "cli_deliver c' = cli_deliver c"
    and "\<exists>ys. cli_pending_new c' = cli_pending_new c @ map fst ys \<and>
         cli_delivered c' = cli_delivered c @ (if cli_deliver c then ys else [])"
proof -
  consider "rsp_seq x \<in> cli_received c"
    | n where "rsp_seq x \<notin> cli_received c"
      "advance_base (insert (rsp_seq x) (cli_received c)) (cli_base c) = Some n"
    using assms on_response_None [of x c] by fastforce
  then have "cli_deliver c' = cli_deliver c \<and> (\<exists>ys. cli_pending_new c' = cli_pending_new c @ map fst ys \<and>
         cli_delivered c' = cli_delivered c @ (if cli_deliver c then ys else []))"
  proof cases
    case 1
    then show ?thesis using assms by (auto simp: on_response_duplicate)
  next
    case (2 n)
    then show ?thesis
      using on_response_first [OF 2] assms
      by (auto intro: exI [of _ "if rsp_no_op x then [] else [(rsp_seq x, rsp_payload x)]"])
  qed
  then show "cli_deliver c' = cli_deliver c"
    and "\<exists>ys. cli_pending_new c' = cli_pending_new c @ map fst ys \<and>
         cli_delivered c' = cli_delivered c @ (if cli_deliver c then ys else [])"
    by blast+
qed

lemma delivery_step:
  assumes step: "step app crashes s t" and inv: "delivery_ok s"
  shows "delivery_ok t"
  using step
proof cases
  case (generate p)
  then show ?thesis
    using inv generate_request_parts [of p "cl s"]
    by (simp add: delivery_ok_def do_generate_def case_prod_beta)
next
  case (deliver_request r)
  then show ?thesis
    using inv
    by (simp add: delivery_ok_def do_deliver_request_def case_prod_beta split: if_splits)
next
  case (deliver_response x b c)
  then show ?thesis
    using inv on_response_delivered [OF deliver_response(3)] by (auto simp: delivery_ok_def)
qed (use inv in \<open>simp_all add: delivery_ok_def\<close>)

lemma delivery_init: "sys_init s \<Longrightarrow> delivery_ok s"
  by (auto simp: sys_init_def init_sys_def delivery_ok_def client_new_def client_on_hash_mismatch_def)

interpretation delivery: bounded_system sys_init "step app crashes" sys_fits delivery_sys for app crashes
  by unfold_locales
     (auto simp: delivery_sys_def sys_inv_init delivery_init intro: step_inv step_fits delivery_step)

lemma reachable_delivery: "reachable app crashes s \<Longrightarrow> sys_fits s \<Longrightarrow> delivery_sys s"
  by (auto simp: reachable_iff intro: delivery.inv_reached)

section \<open>One payload per request\<close>

text \<open>The answers in the system: buffered at the server, on the wire, or kept by the client.\<close>

definition wire_answers :: "response list \<Rightarrow> (seq \<times> string) set" where
  "wire_answers xs = {(rsp_seq x, rsp_payload x) | x. x \<in> set xs \<and> \<not> rsp_no_op x}"

definition answers :: "'w sys \<Rightarrow> (seq \<times> string) set" where
  "answers s = set (srv_resp_buffer (sv s)) \<union> wire_answers (s2c s) \<union>
     set (cli_received_payload (cl s))"

definition answers_ok :: "nat \<Rightarrow> (seq \<times> string) set \<Rightarrow> bool" where
  "answers_ok n A \<longleftrightarrow> single_valued A \<and> fst ` A \<subseteq> ids n"

lemma answers_ok_subset: "answers_ok n A \<Longrightarrow> B \<subseteq> A \<Longrightarrow> answers_ok n B"
  by (auto simp: answers_ok_def dest: single_valued_subset)

lemma answers_ok_insert:
  assumes "answers_ok n A" and "unat q = Suc n"
  shows "answers_ok (Suc n) (insert (q, p) A)"
proof -
  have "q \<notin> ids n" using assms(2) by (simp add: ids_def)
  then have "q \<notin> fst ` A" using assms(1) by (auto simp: answers_ok_def)
  then have fresh: "(q, p') \<notin> A" for p' by (metis fst_conv image_eqI)
  have "single_valued A" using assms(1) by (simp add: answers_ok_def)
  then have "single_valued (insert (q, p) A)"
    using fresh by (auto simp: single_valued_def)
  moreover have "fst ` A \<subseteq> ids (Suc n)"
    using assms(1) ids_mono [of n "Suc n"] by (auto simp: answers_ok_def)
  moreover have "q \<in> ids (Suc n)" using assms(2) by (simp add: ids_def)
  ultimately show ?thesis by (simp add: answers_ok_def)
qed

lemma wire_answers_simps [simp]:
  "wire_answers [] = {}" "wire_answers (xs @ ys) = wire_answers xs \<union> wire_answers ys"
  "wire_answers [x] = (if rsp_no_op x then {} else {(rsp_seq x, rsp_payload x)})"
  by (auto simp: wire_answers_def)


lemma buffer_put_set: "set (um_put q p m) \<subseteq> insert (q, p) (set m)"
proof (induction m)
  case (Cons kv m)
  then show ?case by (cases kv) auto
qed simp

lemma buffer_erase_set: "set (um_erase q m) \<subseteq> set m"
  by (auto simp: AList.delete_eq)

lemma release_acked_set: "set (srv_resp_buffer (release_acked r s)) \<subseteq> set (srv_resp_buffer s)"
proof -
  have erase: "set (fold um_erase qs m) \<subseteq> set m" for qs and m :: "(seq, string) umap"
  proof (induction qs arbitrary: m)
    case (Cons q qs)
    show ?case using Cons.IH [of "um_erase q m"] buffer_erase_set [of q m] by simp
  qed simp
  show ?thesis
    unfolding release_acked_def Let_def
    by (simp, rule subset_trans [OF erase]) (simp add: filter_is_subset)
qed

lemma commit_loop_answers:
  fixes app :: "'w app"
  assumes inv: "server_inv I s" and log: "log_ok I" "log_fits I" "log_hashes I"
    and ok: "answers_ok (n_committed s) (A \<union> set (srv_resp_buffer s))"
  shows "answers_ok (n_committed (snd (commit_loop app s [])))
    (A \<union> set (srv_resp_buffer (snd (commit_loop app s []))) \<union>
     wire_answers (fst (commit_loop app s [])))"
proof -
  let ?P = "\<lambda>(t :: 'w server) (out :: response list). server_inv I t \<and>
    answers_ok (n_committed t) (A \<union> set (srv_resp_buffer t) \<union> wire_answers out)"
  have "?P (snd (commit_loop app s [])) (fst (commit_loop app s [])) \<and>
    um_find (srv_pending_reqs (snd (commit_loop app s [])))
      (srv_committed_upto (snd (commit_loop app s [])) + 1) = None"
  proof (rule commit_loop_rule [where P = ?P])
    show "?P s []" using inv ok by simp
    fix t out r
    assume P: "?P t out" and nxt: "um_find (srv_pending_reqs t) (srv_committed_upto t + 1) = Some r"
    then have t: "server_inv I t" by simp
    let ?t0 = "t\<lparr>srv_pending_reqs := um_erase (srv_committed_upto t + 1) (srv_pending_reqs t)\<rparr>"
    let ?p = "fst (app (srv_world t) (req_seq r) (req_payload r)
                (fold history_push (tokens r) (srv_history t)))"
    note f = commit_request_parts [of app r ?t0, folded commit_next_def]
    have seq: "unat (req_seq r) = Suc (n_committed t)" using t log(1,2) nxt by (rule next_pending)
    have "answers_ok (Suc (n_committed t))
      (insert (req_seq r, ?p) (A \<union> set (srv_resp_buffer t) \<union> wire_answers out))"
      using P seq by (auto intro: answers_ok_insert)
    then have "answers_ok (Suc (n_committed t)) (A \<union> set (srv_resp_buffer (snd (commit_next app r t)))
      \<union> wire_answers (out @ [fst (commit_next app r t)]))"
      by (rule answers_ok_subset) (auto simp: f(6) f(14) dest: subsetD [OF buffer_put_set])
    then show "?P (snd (commit_next app r t)) (out @ [fst (commit_next app r t)])"
      using commit_next_inv(1) [OF t log nxt, of app] by (simp add: f(4) seq)
  qed
  then show ?thesis by blast
qed

lemma on_request_answers:
  assumes inv: "server_inv I s" and log: "log_ok I" "log_fits I" "log_hashes I" and r: "r \<in> set I"
    and no_wait: "srv_awaiting s = {}" and no: "\<not> needs_recover r s"
    and ok: "answers_ok (n_committed s) (A \<union> set (srv_resp_buffer s))"
  shows "answers_ok (n_committed (snd (on_request app r s)))
    (A \<union> set (srv_resp_buffer (snd (on_request app r s))) \<union> wire_answers (fst (on_request app r s)))"
proof -
  let ?s = "release_acked r s"
  have rel: "answers_ok (n_committed s) (A \<union> set (srv_resp_buffer ?s))"
    using ok release_acked_set [of r s] by (auto intro: answers_ok_subset)
  show ?thesis
  proof (cases rule: on_request_cases [of r s])
    case (resend p)
    then have "(req_seq r, p) \<in> set (srv_resp_buffer ?s)" by (auto dest: map_of_SomeD)
    then show ?thesis using resend rel by (simp add: on_request_resend insert_absorb)
  next
    case no_op
    then show ?thesis using rel by (simp add: on_request_no_op)
  next
    case new
    have "server_inv I (stage r ?s)"
      using server_inv_stage [OF server_inv_release [OF inv] r] by (simp add: stage_def)
    then show ?thesis
      using new rel commit_loop_answers [of I "stage r ?s" A app, OF _ log]
      by (simp add: on_request_new stage_def)
  qed (use no no_wait in simp_all)
qed


definition answered_sys :: "'w sys \<Rightarrow> bool" where
  "answered_sys s \<longleftrightarrow> plain_sys s \<and> answers_ok (n_committed (sv s)) (answers s)"

lemma answers_deliver_request:
  assumes inv: "answered_sys s" and fits: "sys_fits s" and r: "r \<in> set (c2s s)"
  shows "answers_ok (n_committed (sv (do_deliver_request app r s))) (answers (do_deliver_request app r s))"
proof -
  have p: "plain_sys s" using inv by (simp add: answered_sys_def)
  note P = plain_sysD [OF p] note D = sys_invD [OF P(1)]
  have rI: "r \<in> set (issued s)" and fit: "log_fits (issued s)"
    using r D(3) fits by (auto simp: sys_fits_def)
  obtain out s' where res: "on_request app r (sv s) = (out, s')" by fastforce
  have "\<not> is_recover out" using plain_on_request(4) [OF P(4) D(2) D(7) D(5) fit D(6) rI, of app] res by simp
  then have t: "do_deliver_request app r s = s\<lparr>sv := s', s2c := out @ s2c s\<rparr>"
    by (simp add: do_deliver_request_def res)
  let ?A = "wire_answers (s2c s) \<union> set (cli_received_payload (cl s))"
  have "answers_ok (n_committed s') (?A \<union> set (srv_resp_buffer s') \<union> wire_answers out)"
    using on_request_answers [OF D(2) D(5) fit D(6) rI plain_serverD(1) [OF P(4)]
        plain_no_recover [OF P(4) D(7) rI D(5) D(2) fit], of ?A app] inv res
    by (simp add: answered_sys_def answers_def Un_ac)
  moreover have "answers (s\<lparr>sv := s', s2c := out @ s2c s\<rparr>) =
      ?A \<union> set (srv_resp_buffer s') \<union> wire_answers out"
    by (auto simp: answers_def)
  ultimately show ?thesis unfolding t by simp
qed

lemma on_response_payloads:
  assumes "on_response x c = Some (b, c')"
  shows "set (cli_received_payload c') \<subseteq> set (cli_received_payload c) \<union> wire_answers [x]"
proof (cases "rsp_seq x \<in> cli_received c")
  case True
  then show ?thesis using assms by (simp add: on_response_duplicate)
next
  case False
  then obtain n where "advance_base (insert (rsp_seq x) (cli_received c)) (cli_base c) = Some n"
    using assms on_response_None [of x c] by fastforce
  then show ?thesis
    using on_response_first [OF False] assms
    by (auto dest: subsetD [OF buffer_put_set])
qed

lemma answers_step:
  assumes step: "step app False s t" and fits: "sys_fits t" and inv: "answered_sys s"
  shows "answered_sys t"
proof -
  have p: "plain_sys s" "plain_sys t"
    using inv plain_step [OF step fits] by (simp_all add: answered_sys_def)
  have a: "answers_ok (n_committed (sv s)) (answers s)" using inv by (simp add: answered_sys_def)
  have "answers_ok (n_committed (sv t)) (answers t)"
    using step
  proof cases
    case (generate q)
    then show ?thesis
      using a generate_request_parts(15) [of q "cl s"]
      by (simp add: answers_def do_generate_def case_prod_beta)
  next
    case (deliver_request r)
    then show ?thesis using answers_deliver_request [OF inv step_fits [OF step fits]] by simp
  next
    case (deliver_response x b c)
    have "wire_answers [x] \<subseteq> wire_answers (s2c s)"
      using deliver_response(2) by (auto simp: wire_answers_def)
    then have "answers t \<subseteq> answers s"
      using on_response_payloads [OF deliver_response(3)] deliver_response(1)
      unfolding answers_def by auto
    then show ?thesis using a deliver_response(1) by (auto intro: answers_ok_subset)
  qed (use a plain_sysD(2) [OF p(1)] in \<open>auto simp: answers_def plain_inv_def\<close>)
  then show ?thesis using p(2) by (simp add: answered_sys_def)
qed

lemma answers_init: "sys_init s \<Longrightarrow> answered_sys s"
  by (auto simp: sys_init_def answered_sys_def plain.inv_init answers_ok_def answers_def init_sys_def
      server_new_def client_new_def server_on_hash_mismatch_def client_on_hash_mismatch_def)

interpretation answered: bounded_system sys_init "step app False" sys_fits answered_sys for app
  by unfold_locales (rule answers_init, assumption, rule answers_step, assumption+, rule step_fits)

lemma reachable_answered: "reachable app False s \<Longrightarrow> sys_fits s \<Longrightarrow> answered_sys s"
  by (auto simp: reachable_iff intro: answered.inv_reached)

section \<open>Draining\<close>

text \<open>
  One round trip for the oldest unanswered request: retransmit it, deliver it, deliver its
  response. The set of unanswered requests loses at least that request.
\<close>

lemma oldest_inflight:
  assumes inv: "client_inv I c" and some: "cli_inflight c \<noteq> []" and fits: "log_fits I"
  shows "\<exists>r \<in> set I. frozen (cli_base c) c = Some r \<and> req_seq r = cli_base c"
proof -
  note D = client_invD [OF inv]
  let ?b = "cli_base c"
  have "um_keys (cli_inflight c) \<noteq> {}" using some by (cases "cli_inflight c") auto
  then obtain q where q: "q \<in> ids (length I)" "q \<notin> cli_received c"
    using client_inflight_keys [OF inv] by auto
  have "unat ?b \<le> unat q"
  proof (rule ccontr)
    assume "\<not> ?thesis"
    then have "q \<in> ids (unat ?b - 1)" using q(1) by (auto simp: ids_def)
    then show False using q(2) D(15) by auto
  qed
  then have b: "?b \<in> ids (length I)" using q(1) D(13) by (auto simp: ids_def)
  then have f: "frozen ?b c = Some (I ! (unat ?b - 1))" using D(9,16) by (simp add: frozen_def)
  have k: "unat ?b - 1 < length I" using b by (auto simp: ids_def)
  then have "unat (req_seq (I ! (unat ?b - 1))) = unat ?b" using log_ok_seq [OF D(1) k] D(13) by simp
  then show ?thesis using f k by (intro bexI [of _ "I ! (unat ?b - 1)"]) (auto intro: word64_eqI)
qed

lemma round_trip:
  assumes inv: "plain_sys s" and fits: "sys_fits s" and some: "cli_inflight (cl s) \<noteq> []"
  shows "\<exists>t. (step app False)\<^sup>*\<^sup>* s t \<and> issued t = issued s \<and>
    length (cli_inflight (cl t)) < length (cli_inflight (cl s))"
proof -
  note P = plain_sysD [OF inv] note D = sys_invD [OF P(1)]
  let ?c = "cl s"
  have fit: "log_fits (issued s)" using fits by (simp add: sys_fits_def)
  obtain r where r: "r \<in> set (issued s)" "frozen (cli_base ?c) ?c = Some r" "req_seq r = cli_base ?c"
    using oldest_inflight [OF D(1) some fit] by blast
  have "\<not> needs_recover r (sv s)" using plain_no_recover [OF P(4) D(7) r(1) D(5) D(2) fit] .
  moreover obtain x where "x \<in> set (fst (on_request app r (sv s)))" "rsp_seq x = cli_base ?c"
    using oldest_answered [OF P(4) D(2) D(7) D(5) fit D(6) r(1), of app]
      client_invD(15,16) [OF D(1)] r(3) by auto
  ultimately show ?thesis using answer_step [OF P(1) fits r(2)] by blast
qed

lemma drain:
  assumes "plain_sys s" and "sys_fits s"
  shows "\<exists>t. (step app False)\<^sup>*\<^sup>* s t \<and> issued t = issued s \<and> cli_inflight (cl t) = []"
  using assms
proof (induction "length (cli_inflight (cl s))" arbitrary: s rule: less_induct)
  case less
  show ?case
  proof (cases "cli_inflight (cl s) = []")
    case False
    then obtain t where t: "(step app False)\<^sup>*\<^sup>* s t" "issued t = issued s"
      "length (cli_inflight (cl t)) < length (cli_inflight (cl s))"
      using round_trip [OF less.prems] by blast
    have "sys_fits t" using t(2) less.prems(2) by (simp add: sys_fits_def)
    moreover from this have "plain_sys t" using plain.inv_run t(1) less.prems(1) by blast
    ultimately show ?thesis
      using less.hyps [OF t(3)] t(1,2) by (metis rtranclp_trans)
  qed blast
qed

end
