(* ===== verification/Recovery.thy ===== *)
theory Recovery
  imports Answers
begin

text \<open>
  Failover. A server that holds the history of every issued request (a caught-up server)
  never raises a recovery signal and answers every retransmission; a recovery signal
  followed by the client's replay makes a server caught up; and from every reachable
  state, crashes included, the client drains after at most one further request.
\<close>

section \<open>Caught-up servers\<close>

lemma caught_up_no_recover:
  assumes inv: "server_inv I s" and log: "log_ok I" "log_fits I" and r: "r \<in> set I"
    and all: "n_committed s = length I"
  shows "\<not> needs_recover r s"
proof -
  obtain k where k: "k < length I" "r = I ! k" using r by (auto simp: in_set_conv_nth)
  have n: "unat (srv_committed_upto s + 1) = length I + 1"
    using all log_fits_length [OF log(2)] unat_plus_one [of "srv_committed_upto s"] by simp
  have "\<not> req_ack_base r > srv_committed_upto s + 1"
    using log_ok_base [OF log(1) k(1)] k n by (simp add: word_less_nat_alt)
  moreover have "\<not> list_ex (\<lambda>i. i > srv_committed_upto s) (req_ack_new r)"
    using log_ok_acks [OF log(1) k(1)] k all
    by (force simp: list_ex_iff ids_def word_less_nat_alt)
  ultimately show ?thesis by (simp add: needs_recover_def)
qed

lemma committed_answer:
  assumes "\<not> needs_recover r s" and "req_seq r \<le> srv_committed_upto s"
  shows "\<exists>x s'. on_request app r s = ([x], s') \<and> rsp_seq x = req_seq r \<and>
    srv_committed_upto s' = srv_committed_upto s \<and> srv_history s' = srv_history s"
  using assms
  by (cases rule: on_request_cases [of r s])
     (auto simp: on_request_resend on_request_awaiting on_request_no_op answer_awaiting_parts)

lemma inflight_frozen:
  assumes inv: "client_inv I c" and q: "q \<in> um_keys (cli_inflight c)"
  shows "\<exists>r \<in> set I. frozen q c = Some r \<and> req_seq r = q"
proof -
  have "q \<in> ids (length I) - cli_received c" using q client_inflight_keys [OF inv] by simp
  then have f: "frozen q c = Some (I ! (unat q - 1))" and k: "unat q - 1 < length I" "1 \<le> unat q"
    using client_invD(9) [OF inv] by (auto simp: frozen_def ids_def)
  then have "unat (req_seq (I ! (unat q - 1))) = unat q"
    using log_ok_seq [OF client_invD(1) [OF inv] k(1)] by simp
  then show ?thesis using f k(1) by (intro bexI [of _ "I ! (unat q - 1)"]) (auto intro: word64_eqI)
qed

lemma caught_up_drain:
  assumes "sys_inv s" and "sys_fits s" and "n_committed (sv s) = length (issued s)"
  shows "\<exists>t. (step app crashes)\<^sup>*\<^sup>* s t \<and> issued t = issued s \<and> cli_inflight (cl t) = [] \<and>
    srv_history (sv t) = srv_history (sv s)"
  using assms
proof (induction "length (cli_inflight (cl s))" arbitrary: s rule: less_induct)
  case less
  note D = sys_invD [OF less.prems(1)]
  have fit: "log_fits (issued s)" using less.prems(2) by (simp add: sys_fits_def)
  show ?case
  proof (cases "cli_inflight (cl s) = []")
    case False
    then obtain q where "q \<in> um_keys (cli_inflight (cl s))" by (cases "cli_inflight (cl s)") auto
    then obtain r where r: "r \<in> set (issued s)" "frozen q (cl s) = Some r" "req_seq r = q"
      using inflight_frozen [OF D(1)] by blast
    have no: "\<not> needs_recover r (sv s)"
      using caught_up_no_recover [OF D(2) D(5) fit r(1) less.prems(3)] .
    have "req_seq r \<le> srv_committed_upto (sv s)"
      using log_member_seq [OF D(5) r(1)] less.prems(3) by (simp add: ids_def word_le_nat_alt)
    then obtain x s' where x: "on_request app r (sv s) = ([x], s')" "rsp_seq x = q"
      "srv_committed_upto s' = srv_committed_upto (sv s)" "srv_history s' = srv_history (sv s)"
      using committed_answer [OF no, of app] r(3) by auto
    obtain t where t: "(step app crashes)\<^sup>*\<^sup>* s t" "issued t = issued s" "sys_inv t"
      "length (cli_inflight (cl t)) < length (cli_inflight (cl s))" "sv t = s'"
      using answer_step [OF less.prems(1,2) r(2) no, of x app crashes] x by auto
    have "\<exists>u. (step app crashes)\<^sup>*\<^sup>* t u \<and> issued u = issued t \<and> cli_inflight (cl u) = [] \<and>
      srv_history (sv u) = srv_history (sv t)"
      using t x(3) less.prems(2,3) by (intro less.hyps) (simp_all add: sys_fits_def)
    then show ?thesis using t x(4) by (metis rtranclp_trans)
  qed blast
qed

section \<open>A recovery signal leads to a caught-up server\<close>

lemma full_replay:
  assumes inv: "sys_inv s" and fits: "sys_fits s" and n: "n \<le> event_count (srv_history (sv s))"
  shows "server_inv (issued s) (ingest_replay (build_replay n (cl s)) (sv s))"
    and "n_committed (ingest_replay (build_replay n (cl s)) (sv s)) = length (issued s)"
proof -
  note D = sys_invD [OF inv]
  have fit: "log_fits (issued s)" using fits by (simp add: sys_fits_def)
  have ev: "map event_of (rp_events (build_replay n (cl s))) =
      drop (unat (rp_from (build_replay n (cl s)))) (hist_of (take (length (issued s)) (issued s)))"
    using build_replay_events [OF D(1), of n] by (simp add: build_replay_def)
  have base: "rp_from (build_replay n (cl s)) \<le> event_count (srv_history (sv s))"
    using n by (simp add: build_replay_def)
  note res = ingest_replay_result [OF D(2) D(5) fit order.refl ev base]
  show "server_inv (issued s) (ingest_replay (build_replay n (cl s)) (sv s))" by (rule res(1))
  show "n_committed (ingest_replay (build_replay n (cl s)) (sv s)) = length (issued s)"
    using res(2) server_invD(1) [OF D(2)] by simp
qed

lemma caught_up_hash:
  assumes "server_inv I s" and "client_inv I c" and "n_committed s = length I"
  shows "h_cur_hash (srv_history s) = h_cur_hash (cli_history c)"
  using represents_hash [OF server_invD(2) [OF assms(1)]]
    represents_hash [OF client_invD(3) [OF assms(2)]] assms(3) by simp

lemma recover_drains:
  assumes inv: "sys_inv s" and fits: "sys_fits s" and r: "r \<in> set (c2s s)"
    and rec: "needs_recover r (sv s)"
  shows "\<exists>t. (step app crashes)\<^sup>*\<^sup>* s t \<and> issued t = issued s \<and> cli_inflight (cl t) = [] \<and>
    h_cur_hash (srv_history (sv t)) = h_cur_hash (cli_history (cl t))"
proof -
  let ?n = "event_count (srv_history (sv s))"
  let ?rp = "build_replay ?n (cl s)"
  let ?s1 = "s\<lparr>signals := ?n # signals s\<rparr>"
  let ?s2 = "?s1\<lparr>replays := ?rp # replays s\<rparr>"
  let ?s3 = "?s2\<lparr>sv := ingest_replay ?rp (sv s)\<rparr>"
  have "step app crashes s (do_deliver_request app r s)" using r by (rule step.deliver_request)
  moreover have "do_deliver_request app r s = ?s1"
    using rec by (simp add: do_deliver_request_def on_request_recover is_recover_def recover_response_def)
  moreover have "step app crashes ?s1 ?s2"
    using step.send_replay [of ?n ?s1 app crashes] by simp
  moreover have "step app crashes ?s2 ?s3"
    using step.deliver_replay [of ?rp ?s2 app crashes] by (simp add: build_replay_def)
  ultimately have run: "(step app crashes)\<^sup>*\<^sup>* s ?s3"
    by (metis (no_types, lifting) r_into_rtranclp rtranclp.rtrancl_into_rtrancl)
  have fits3: "sys_fits ?s3" using fits by (simp add: sys_fits_def)
  have inv3: "sys_inv ?s3" using run fits3 inv by (rule color.inv_run)
  have full: "n_committed (sv ?s3) = length (issued ?s3)" using full_replay(2) [OF inv fits] by simp
  obtain t where t: "(step app crashes)\<^sup>*\<^sup>* ?s3 t" "issued t = issued s" "cli_inflight (cl t) = []"
    "srv_history (sv t) = srv_history (sv ?s3)"
    using caught_up_drain [OF inv3 fits3 full, of app crashes] by auto
  have "sys_fits t" using t(2) fits by (simp add: sys_fits_def)
  then have invt: "sys_inv t" using color.inv_run [OF t(1)] inv3 by blast
  have "h_cur_hash (srv_history (sv t)) = hash_of (hist_of (issued s))"
    using represents_hash [OF server_invD(2) [OF sys_invD(2) [OF inv3]]] full
    unfolding t(4) by simp
  moreover have "h_cur_hash (cli_history (cl t)) = hash_of (hist_of (issued s))"
    using represents_hash [OF client_invD(3) [OF sys_invD(1) [OF invt]]] t(2) by simp
  ultimately show ?thesis using rtranclp_trans [OF run t(1)] t(2,3) by auto
qed

lemma step_run:
  "step app crashes s t \<Longrightarrow> (step app crashes)\<^sup>*\<^sup>* t u \<Longrightarrow> (step app crashes)\<^sup>*\<^sup>* s u"
  by (rule converse_rtranclp_into_rtranclp)

section \<open>Draining with crashes\<close>

lemma failover_round:
  assumes inv: "sys_inv s" and fits: "sys_fits (do_generate p s)"
    and some: "cli_inflight (cl s) \<noteq> []"
  shows "(\<exists>t. (step app crashes)\<^sup>*\<^sup>* s t \<and> cli_inflight (cl t) = [] \<and>
      length (issued t) \<le> length (issued s) + 1) \<or>
    (\<exists>t. (step app crashes)\<^sup>*\<^sup>* s t \<and> issued t = issued s \<and> sys_inv t \<and>
      length (cli_inflight (cl t)) < length (cli_inflight (cl s)))"
proof -
  note D = sys_invD [OF inv]
  let ?c = "cl s" and ?v = "sv s"
  have fs: "sys_fits s" using step.generate fits by (rule step_fits)
  then have fit: "log_fits (issued s)" by (simp add: sys_fits_def)
  obtain r where r: "r \<in> set (issued s)" "frozen (cli_base ?c) ?c = Some r" "req_seq r = cli_base ?c"
    using oldest_inflight [OF D(1) some fit] by blast
  have wrap: "unat (srv_committed_upto ?v + 1) = n_committed ?v + 1"
    using server_invD(1) [OF D(2)] log_fits_length [OF fit] by (intro unat_plus_one) simp
  show ?thesis
  proof (cases "needs_recover r ?v")
    case True
    let ?s1 = "s\<lparr>c2s := r # c2s s\<rparr>"
    have st: "step app crashes s ?s1" using r(2) by (rule step.retransmit)
    have f1: "sys_fits ?s1" using fs by (simp add: sys_fits_def)
    then have "sys_inv ?s1" using step_inv [OF st _ inv] by simp
    from recover_drains [OF this f1, of r app crashes] True
    obtain t where "(step app crashes)\<^sup>*\<^sup>* ?s1 t" "issued t = issued s" "cli_inflight (cl t) = []"
      by auto
    then show ?thesis
      using step_run [OF st] by (intro disjI1 exI [of _ t]) simp
  next
    case no: False
    have "req_seq r \<le> srv_committed_upto ?v \<or> req_seq r = srv_committed_upto ?v + 1 \<or>
        req_seq r > srv_committed_upto ?v + 1"
      by (cases "unat (req_seq r)" "n_committed ?v + 1" rule: linorder_cases)
         (auto simp: word_le_nat_alt word_less_nat_alt wrap intro: word64_eqI)
    then consider (old) "req_seq r \<le> srv_committed_upto ?v" | (nxt) "req_seq r = srv_committed_upto ?v + 1"
      | (far) "req_seq r > srv_committed_upto ?v + 1"
      by blast
    then show ?thesis
    proof cases
      case old
      then obtain x s' where "on_request app r ?v = ([x], s')" "rsp_seq x = cli_base ?c"
        using committed_answer [OF no old, of app] r(3) by auto
      then show ?thesis using answer_step [OF inv fs r(2) no, of x app crashes] by auto
    next
      case nxt
      then have "\<not> req_seq r \<le> srv_committed_upto ?v" using wrap by (simp add: word_le_nat_alt)
      then obtain x where "x \<in> set (fst (on_request app r ?v))" "rsp_seq x = cli_base ?c"
        using on_request_next [OF no _ nxt, of app] r(3) by auto
      then show ?thesis using answer_step [OF inv fs r(2) no, of x app crashes] by auto
    next
      case far
      obtain r' c' where gen: "generate_request p ?c = (r', c')" by fastforce
      let ?s1 = "do_generate p s"
      have s1: "?s1 = s\<lparr>cl := c', c2s := r' # c2s s, issued := issued s @ [r'],
          peak := max (peak s) (length (outstanding c'))\<rparr>"
        by (simp add: do_generate_def gen)
      have "needs_recover r' ?v"
        using far r(3) generate_request_fields(2) [OF gen] by (simp add: needs_recover_def)
      then obtain t where t: "(step app crashes)\<^sup>*\<^sup>* ?s1 t" "issued t = issued ?s1" "cli_inflight (cl t) = []"
        using recover_drains [OF do_generate_inv [OF inv fits] fits, of r' app crashes] by (auto simp: s1)
      then have "(step app crashes)\<^sup>*\<^sup>* s t"
        using step_run [OF step.generate] by blast
      then show ?thesis using t(2,3) by (intro disjI1 exI [of _ t]) (simp add: s1)
    qed
  qed
qed

lemma failover_drain:
  assumes "sys_inv s" and "2 * (length (issued s) + 1) < 2 ^ 64"
  shows "\<exists>t. (step app crashes)\<^sup>*\<^sup>* s t \<and> cli_inflight (cl t) = [] \<and>
    length (issued t) \<le> length (issued s) + 1"
  using assms
proof (induction "length (cli_inflight (cl s))" arbitrary: s rule: less_induct)
  case less
  have fits: "sys_fits (do_generate [] s)"
    using less.prems(2) by (simp add: sys_fits_def log_fits_def do_generate_def case_prod_beta)
  show ?case
  proof (cases "cli_inflight (cl s) = []")
    case False
    from failover_round [OF less.prems(1) fits False, of app crashes] show ?thesis
    proof
      assume "\<exists>t. (step app crashes)\<^sup>*\<^sup>* s t \<and> issued t = issued s \<and> sys_inv t \<and>
        length (cli_inflight (cl t)) < length (cli_inflight (cl s))"
      then obtain t where t: "(step app crashes)\<^sup>*\<^sup>* s t" "issued t = issued s" "sys_inv t"
        "length (cli_inflight (cl t)) < length (cli_inflight (cl s))" by blast
      then show ?thesis using less.hyps [OF t(4,3)] less.prems(2) by (metis rtranclp_trans)
    qed
  qed (auto intro: exI [of _ s])
qed

end
