(* ===== verification/Checker.thy ===== *)
theory Checker
  imports Recovery
begin

text \<open>
  The checker of the repository's fuzzing harness, \<open>verification/src/checker.h\<close>, and
  what it reports on the states of the protocol. Failure messages are modelled as the code
  builds them. The loop over the issued ids compares a \<open>uint64_t\<close> counter with
  \<open>issued\<close> and would not end if \<open>issued\<close> were the largest value, so it is a
  \<open>while_option\<close> and the checker returns an option.
\<close>

record check_result =
  cr_ok :: bool
  cr_failures :: "string list"

definition check_result_new :: check_result where
  "check_result_new = \<lparr>cr_ok = True, cr_failures = []\<rparr>"

definition require :: "bool \<Rightarrow> string \<Rightarrow> check_result \<Rightarrow> check_result" where
  "require cond msg r =
     (if \<not> cond then r\<lparr>cr_ok := False, cr_failures := cr_failures r @ [msg]\<rparr> else r)"

definition show_int :: "int \<Rightarrow> string" where
  "show_int i = (if i < 0 then ''-'' @ show_nat (nat (- i)) else show_nat (nat i))"

text \<open>The comparison of the two histories up to the shorter one, stopping at the first difference.\<close>

fun check_prefix :: "nat \<Rightarrow> event list \<Rightarrow> event list \<Rightarrow> check_result \<Rightarrow> check_result" where
  "check_prefix i (x # sh) (y # ch) r =
     (if \<not> event_eq x y
      then require False (''history divergence at event '' @ show_nat i @ '': server='' @
             event_str x @ '' client='' @ event_str y) r
      else check_prefix (Suc i) sh ch r)"
| "check_prefix i _ _ r = r"

definition check_safety :: "client \<Rightarrow> 'w server \<Rightarrow> check_result \<Rightarrow> check_result" where
  "check_safety c s r =
     (let ch = h_events (cli_history c); sh = h_events (srv_history s);
          r = require (length sh \<le> length ch)
                (''server history longer than client history ('' @ show_nat (length sh) @ '' > '' @
                 show_nat (length ch) @ '')'') r
      in check_prefix 0 sh ch r)"

definition check_call :: "seq \<times> int \<Rightarrow> check_result \<Rightarrow> check_result" where
  "check_call kv = require (snd kv = 1)
     (''seq '' @ to_string (fst kv) @ '' processed '' @ show_int (snd kv) @ '' times (want 1)'')"

definition check_answer :: "client \<Rightarrow> seq \<Rightarrow> check_result \<Rightarrow> check_result" where
  "check_answer c q = require (q \<in> cli_received c) (''request '' @ to_string q @ '' never answered'')"

definition check_answers :: "client \<Rightarrow> seq \<Rightarrow> check_result \<Rightarrow> check_result option" where
  "check_answers c iss r =
     map_option snd (while_option (\<lambda>(q, r). q \<le> iss) (\<lambda>(q, r). (q + 1, check_answer c q r)) (1, r))"

definition check_bound :: "string \<Rightarrow> nat \<Rightarrow> nat \<Rightarrow> check_result \<Rightarrow> check_result" where
  "check_bound what n bound =
     require (n \<le> bound) (what @ show_nat n @ '' exceeds bound '' @ show_nat bound)"

definition check_run ::
    "client \<Rightarrow> 'w server \<Rightarrow> 64 word \<Rightarrow> nat \<Rightarrow> bool \<Rightarrow> check_result option" where
  "check_run c s hash_mismatches bound had_failover =
     (let r = check_result_new;
          r = (if \<not> had_failover then check_safety c s r else r);
          r = require (h_cur_hash (cli_history c) = h_cur_hash (srv_history s))
                ''final history hash mismatch (client vs server)'' r;
          r = require (hash_mismatches = 0)
                (''hash mismatches detected: '' @ to_string hash_mismatches) r;
          up = srv_committed_upto s;
          r = (if \<not> had_failover
               then require (length (srv_app_calls s) = unat up)
                      (''app_calls size '' @ show_nat (length (srv_app_calls s)) @
                       '' != committed_upto '' @ to_string up) r
               else r);
          r = fold check_call (srv_app_calls s) r;
          iss = cli_next_seq c - 1;
          r = require (srv_committed_upto s = iss)
                (''committed_upto '' @ to_string (srv_committed_upto s) @ '' != issued '' @
                 to_string iss) r
      in case check_answers c iss r of
           None \<Rightarrow> None
         | Some r \<Rightarrow>
             (let r = check_bound ''resp buffer max '' (srv_max_resp_buffer s) bound r;
                  r = check_bound ''pending staging max '' (srv_max_pending s) bound r;
                  r = check_bound ''ack-new max '' (cli_max_ack_new c) bound r
              in Some r))"

section \<open>What the checks amount to\<close>

lemma require_ok [simp]: "cr_ok (require b msg r) \<longleftrightarrow> cr_ok r \<and> b"
  by (simp add: require_def)

lemma check_prefix_ok:
  "cr_ok (check_prefix i sh ch r) \<longleftrightarrow>
   cr_ok r \<and> take (min (length sh) (length ch)) sh = take (min (length sh) (length ch)) ch"
  by (induction i sh ch r rule: check_prefix.induct) auto

lemma check_safety_ok:
  "cr_ok (check_safety c s r) \<longleftrightarrow>
   cr_ok r \<and> (\<exists>zs. h_events (cli_history c) = h_events (srv_history s) @ zs)"
proof -
  let ?ch = "h_events (cli_history c)" and ?sh = "h_events (srv_history s)"
  have "length ?sh \<le> length ?ch \<and> take (min (length ?sh) (length ?ch)) ?sh =
      take (min (length ?sh) (length ?ch)) ?ch \<longleftrightarrow> (\<exists>zs. ?ch = ?sh @ zs)"
    by (auto simp: min_def) (metis append_take_drop_id)
  then show ?thesis by (auto simp: check_safety_def Let_def check_prefix_ok)
qed

lemma check_calls_ok: "cr_ok (fold check_call kvs r) \<longleftrightarrow> cr_ok r \<and> (\<forall>kv \<in> set kvs. snd kv = 1)"
  by (induction kvs arbitrary: r) (auto simp: check_call_def)

lemma check_bound_ok [simp]: "cr_ok (check_bound what n bound r) \<longleftrightarrow> cr_ok r \<and> n \<le> bound"
  by (simp add: check_bound_def)

text \<open>The loop over the ids ends, and asks for every id, unless \<open>iss + 1\<close> wraps around.\<close>

lemma check_answers_from:
  assumes "unat iss + 1 < 2 ^ 64" and "unat q + n = unat iss + 1"
  shows "\<exists>r'. map_option snd (while_option (\<lambda>(q, r). q \<le> iss)
      (\<lambda>(q, r). (q + 1, check_answer c q r)) (q, r)) = Some r' \<and>
    (cr_ok r' \<longleftrightarrow> cr_ok r \<and> (\<forall>i < n. q + of_nat i \<in> cli_received c))"
  using assms(2)
proof (induction n arbitrary: q r)
  case 0
  then have "\<not> q \<le> iss" by (simp add: word_le_nat_alt)
  then show ?case by (subst while_option_unfold) simp
next
  case (Suc n)
  have le: "q \<le> iss" using Suc.prems by (simp add: word_le_nat_alt)
  have "unat (q + 1) + n = unat iss + 1"
    using Suc.prems assms(1) unat_plus_one [of q] by simp
  from Suc.IH [OF this, of "check_answer c q r"] show ?case
    by (subst while_option_unfold)
       (auto simp: le check_answer_def All_less_Suc2 algebra_simps)
qed


lemma ids_from_one:
  assumes "N + 1 < 2 ^ 64"
  shows "(\<forall>i < N. 1 + of_nat i \<in> R) \<longleftrightarrow> ids N \<subseteq> (R :: seq set)"
proof
  assume R: "\<forall>i < N. 1 + of_nat i \<in> R"
  show "ids N \<subseteq> R"
  proof
    fix q assume "q \<in> ids N"
    then have q: "1 \<le> unat q" "unat q \<le> N" by (simp_all add: ids_def)
    have "of_nat (Suc (unat q - 1)) = q" using q(1) by simp
    then have "1 + of_nat (unat q - 1) = q" by simp
    moreover have "unat q - 1 < N" using q by linarith
    ultimately show "q \<in> R" using R by metis
  qed
next
  assume R: "ids N \<subseteq> R"
  show "\<forall>i < N. 1 + of_nat i \<in> R"
  proof (intro allI impI)
    fix i assume i: "i < N"
    have "unat (of_nat (Suc i) :: seq) = Suc i" using i assms by (intro unat_of_nat_64) simp
    then have "of_nat (Suc i) \<in> ids N" using i by (simp add: ids_def del: of_nat_Suc)
    then show "1 + of_nat i \<in> R" using R by auto
  qed
qed

lemma check_answers_ok:
  assumes "unat iss + 1 < 2 ^ 64"
  shows "\<exists>r'. check_answers c iss r = Some r' \<and>
    (cr_ok r' \<longleftrightarrow> cr_ok r \<and> ids (unat iss) \<subseteq> cli_received c)"
  using check_answers_from [OF assms, of 1 "unat iss" c r] ids_from_one [OF assms]
  by (simp add: check_answers_def)

text \<open>The verdict of the checker, as a formula over the two end states.\<close>

definition run_ok :: "client \<Rightarrow> 'w server \<Rightarrow> 64 word \<Rightarrow> nat \<Rightarrow> bool \<Rightarrow> bool" where
  "run_ok c s m bound had_failover \<longleftrightarrow>
     (had_failover \<or> (\<exists>zs. h_events (cli_history c) = h_events (srv_history s) @ zs) \<and>
        length (srv_app_calls s) = unat (srv_committed_upto s)) \<and>
     h_cur_hash (cli_history c) = h_cur_hash (srv_history s) \<and> m = 0 \<and>
     (\<forall>kv \<in> set (srv_app_calls s). snd kv = 1) \<and>
     srv_committed_upto s = cli_next_seq c - 1 \<and>
     ids (unat (cli_next_seq c - 1)) \<subseteq> cli_received c \<and>
     srv_max_resp_buffer s \<le> bound \<and> srv_max_pending s \<le> bound \<and> cli_max_ack_new c \<le> bound"

lemma check_run_verdict:
  assumes "unat (cli_next_seq c - 1) + 1 < 2 ^ 64"
  shows "\<exists>r. check_run c s m bound had_failover = Some r \<and>
    (cr_ok r \<longleftrightarrow> run_ok c s m bound had_failover)"
proof -
  obtain f where f: "\<And>r. check_answers c (cli_next_seq c - 1) r = Some (f r) \<and>
      (cr_ok (f r) \<longleftrightarrow> cr_ok r \<and> ids (unat (cli_next_seq c - 1)) \<subseteq> cli_received c)"
    using check_answers_ok [OF assms, of c] by metis
  have "cr_ok check_result_new" by (simp add: check_result_new_def)
  then show ?thesis
    by (auto simp: check_run_def Let_def f run_ok_def check_calls_ok check_safety_ok)
qed

section \<open>The checker on reachable states\<close>

lemma drained_received: "client_inv I c \<Longrightarrow> cli_inflight c = [] \<Longrightarrow> cli_received c = ids (length I)"
  using client_inflight_keys [of I c] client_invD(7) [of I c] by auto

lemma issued_upto: "client_inv I c \<Longrightarrow> unat (cli_next_seq c - 1) = length I"
proof -
  assume "client_inv I c"
  then have n: "unat (cli_next_seq c) = length I + 1" by (rule client_invD)
  then have "1 \<le> cli_next_seq c" by (simp add: word_le_nat_alt)
  then show ?thesis using n by (simp add: unat_sub)
qed

lemma issued_upto_bound: "client_inv I c \<Longrightarrow> unat (cli_next_seq c - 1) + 1 < 2 ^ 64"
  using issued_upto [of I c] client_invD(2) [of I c] unat_64_less [of "cli_next_seq c"] by simp

lemma plain_run_ok:
  assumes inv: "plain_sys s" and drained: "cli_inflight (cl s) = []" and bound: "peak s \<le> bound"
  shows "run_ok (cl s) (sv s) (of_nat (length (cli_mismatches (cl s) @ srv_mismatches (sv s)))) bound False"
proof -
  note P = plain_sysD [OF inv] note D = sys_invD [OF P(1)]
  have R: "cli_received (cl s) = ids (length (issued s))" using D(1) drained by (rule drained_received)
  have iss: "unat (cli_next_seq (cl s) - 1) = length (issued s)" using D(1) by (rule issued_upto)
  have n: "n_committed (sv s) = length (issued s)"
  proof (rule antisym)
    show "length (issued s) \<le> n_committed (sv s)"
    proof (cases "issued s = []")
      case False
      then have "cli_next_seq (cl s) - 1 \<in> ids (length (issued s))"
        using iss by (cases "issued s") (simp_all add: ids_def)
      then have "cli_next_seq (cl s) - 1 \<in> ids (n_committed (sv s))"
        using R plain_serverD(3) [OF P(4)] by blast
      then show ?thesis using iss by (simp add: ids_def)
    qed simp
  qed (rule server_invD(1) [OF D(2)])
  have "h_events (srv_history (sv s)) = h_events (cli_history (cl s))"
    using server_invD(2) [OF D(2)] plain_serverD(2) [OF P(4)] client_history_events [OF D(1)] n
    by (simp add: represents_def)
  moreover have "length (srv_app_calls (sv s)) = unat (srv_committed_upto (sv s))"
  proof -
    have "um_keys (srv_app_calls (sv s)) = ids (length (issued s))"
      using plain_serverD(4) [OF P(4)] n by (auto simp: dom_def)
    moreover have "card (ids (length (issued s))) = length (issued s)"
      using iss card_ids [of "length (issued s)"] unat_64_less [of "cli_next_seq (cl s) - 1"] by simp
    ultimately show ?thesis using umap.size_card [OF plain_serverD(5) [OF P(4)]] n by simp
  qed
  moreover have "\<forall>kv \<in> set (srv_app_calls (sv s)). snd kv = 1"
    using server_invD(8) [OF D(2)] plain_serverD(5) [OF P(4)]
    by (fastforce simp: um_wf_def dest: map_of_is_SomeI)
  moreover have "srv_committed_upto (sv s) = cli_next_seq (cl s) - 1"
    using n iss by (intro word64_eqI) simp
  ultimately show ?thesis
    using R iss caught_up_hash [OF D(2) D(1) n] client_invD(18) [OF D(1)] server_invD(9) [OF D(2)]
      P(3) bound
    by (auto simp: run_ok_def window_bounds_def)
qed

end
