(* ===== verification/Harness.thy ===== *)
theory Harness
  imports Sim_Network Checker
begin

text \<open>
  The fuzzing driver, \<open>verification/src/fuzz_main.cpp\<close>: one seeded conversation of a
  client and a server over two lossy links, with checkpoints and failovers, and the final
  call of the checker. \<open>run_one\<close> and its lambdas are one definition each; what they
  capture by reference is the record \<open>harness\<close>. The clock \<open>now\<close> that the
  application reads is the world of the server, set whenever a request is handed over.

  A result \<open>None\<close> means that the code does not return normally (a loop of the client or
  of the checker that does not end, or \<open>frozen\<close> of an unknown id); the refinement in
  \<open>Harness_Refinement\<close> shows that this does not happen.
\<close>

record config =
  cf_seeds :: "64 word"
  cf_base_seed :: "64 word"
  cf_gen_steps :: "64 word"
  cf_parallel :: size_t
  cf_rate :: real
  cf_drop :: real
  cf_dup :: real
  cf_max_latency :: int
  cf_rto :: "64 word"
  cf_minutes :: real
  cf_verbose :: bool
  cf_failovers :: "64 word"
  cf_ckpt_interval :: "64 word"

definition default_config :: config where
  "default_config =
     \<lparr>cf_seeds = 100, cf_base_seed = 1, cf_gen_steps = 2000, cf_parallel = 8, cf_rate = 2,
      cf_drop = 0.3, cf_dup = 0.1, cf_max_latency = 5, cf_rto = 6, cf_minutes = 0,
      cf_verbose = False, cf_failovers = 0, cf_ckpt_interval = 40\<rparr>"

record 'g harness =
  hs_client :: client
  hs_server :: "64 word server"
  hs_c2s :: "request link"
  hs_s2c :: "response link"
  hs_now :: "64 word"
  hs_mismatches :: "64 word"
  hs_last_send :: "(seq, 64 word) umap"
  hs_last_ckpt :: checkpoint
  hs_failovers_done :: "64 word"
  hs_rng :: 'g

record run_stats =
  st_result :: check_result
  st_steps :: "64 word"
  st_issued :: "64 word"
  st_req_sent :: "64 word"
  st_req_dropped :: "64 word"
  st_req_dup :: "64 word"
  st_rsp_sent :: "64 word"
  st_rsp_dropped :: "64 word"
  st_rsp_dup :: "64 word"
  st_max_resp_buffer :: nat
  st_max_pending :: nat
  st_max_ack_new :: nat

definition fuzz_app :: "64 word app" where
  "fuzz_app now q payload H = (''srv-ts='' @ to_string now @ '';seq='' @ to_string q, now)"

definition link_cfg :: "config \<Rightarrow> link_config" where
  "link_cfg cfg = \<lparr>p_drop = cf_drop cfg, p_dup = cf_dup cfg, min_latency = 1,
                   max_latency = cf_max_latency cfg\<rparr>"

text \<open>A fold that stops when a step does not return.\<close>

fun fold_option :: "('a \<Rightarrow> 's \<Rightarrow> 's option) \<Rightarrow> 'a list \<Rightarrow> 's \<Rightarrow> 's option" where
  "fold_option f [] s = Some s"
| "fold_option f (x # xs) s = (case f x s of None \<Rightarrow> None | Some s \<Rightarrow> fold_option f xs s)"

section \<open>One tick\<close>

definition send_request :: "'g rng \<Rightarrow> request \<Rightarrow> 'g harness \<Rightarrow> 'g harness" where
  "send_request G r h =
     (let (l, g) = link_send G (hs_now h) r (hs_c2s h) (hs_rng h)
      in h\<lparr>hs_c2s := l, hs_rng := g,
           hs_last_send := um_put (req_seq r) (hs_now h) (hs_last_send h)\<rparr>)"

definition generate_one :: "'g rng \<Rightarrow> 'g harness \<Rightarrow> 'g harness" where
  "generate_one G h =
     (let (x, g) = rng_next G (hs_rng h);
          p = ''cli-ts='' @ to_string (hs_now h) @ '';n='' @ to_string (take_bit 16 x);
          (r, c) = generate_request p (hs_client h)
      in send_request G r (h\<lparr>hs_client := c, hs_rng := g\<rparr>))"

text \<open>\<open>for (j = 0; j < want && out < parallel; ++j)\<close>: the first argument is \<open>want - j\<close>.\<close>

fun generate_loop :: "nat \<Rightarrow> nat \<Rightarrow> 'g rng \<Rightarrow> config \<Rightarrow> 'g harness \<Rightarrow> 'g harness" where
  "generate_loop 0 out G cfg h = h"
| "generate_loop (Suc n) out G cfg h =
     (if out < unat (cf_parallel cfg)
      then generate_loop n (Suc out) G cfg (generate_one G h) else h)"

definition generate_phase :: "'g rng \<Rightarrow> config \<Rightarrow> 'g harness \<Rightarrow> 'g harness" where
  "generate_phase G cfg h =
     (let (want, g) = rng_arrivals G (hs_rng h)
      in generate_loop (nat want) (length (outstanding (hs_client h))) G cfg (h\<lparr>hs_rng := g\<rparr>))"

definition retransmit_one :: "'g rng \<Rightarrow> config \<Rightarrow> seq \<Rightarrow> 'g harness \<Rightarrow> 'g harness option" where
  "retransmit_one G cfg q h =
     (let t = (case um_find (hs_last_send h) q of Some t \<Rightarrow> t | None \<Rightarrow> 0)
      in if hs_now h - t \<ge> cf_rto cfg
         then (case frozen q (hs_client h) of
                 None \<Rightarrow> None
               | Some r \<Rightarrow> Some (send_request G r h))
         else Some h)"

text \<open>The recovery round trip, resolved inline at most eight times.\<close>

fun recover_loop ::
    "nat \<Rightarrow> client \<Rightarrow> request \<Rightarrow> response list \<Rightarrow> 64 word server \<Rightarrow> response list \<times> 64 word server" where
  "recover_loop 0 c req out s = (out, s)"
| "recover_loop (Suc guard) c req out s =
     (if length out = 1 \<and> rsp_recover (out ! 0)
      then (let s = ingest_replay (build_replay (rsp_recover_from (out ! 0)) c) s;
                (out, s) = on_request fuzz_app req s
            in recover_loop guard c req out s)
      else (out, s))"

definition send_response :: "'g rng \<Rightarrow> response \<Rightarrow> 'g harness \<Rightarrow> 'g harness" where
  "send_response G x h =
     (let (l, g) = link_send G (hs_now h) x (hs_s2c h) (hs_rng h)
      in h\<lparr>hs_s2c := l, hs_rng := g\<rparr>)"

definition handle_request :: "'g rng \<Rightarrow> request \<Rightarrow> 'g harness \<Rightarrow> 'g harness" where
  "handle_request G req h =
     (let s0 = (hs_server h)\<lparr>srv_world := hs_now h\<rparr>;
          (out, s) = on_request fuzz_app req s0;
          (out, s) = recover_loop 8 (hs_client h) req out s;
          h = h\<lparr>hs_server := s,
                hs_mismatches := hs_mismatches h +
                  of_nat (length (srv_mismatches s) - length (srv_mismatches s0))\<rparr>
      in fold (send_response G) out h)"

definition handle_response :: "response \<Rightarrow> 'g harness \<Rightarrow> 'g harness option" where
  "handle_response x h =
     (case on_response x (hs_client h) of
        None \<Rightarrow> None
      | Some (b, c) \<Rightarrow>
          Some (h\<lparr>hs_client := c,
                  hs_mismatches := hs_mismatches h +
                    of_nat (length (cli_mismatches c) - length (cli_mismatches (hs_client h)))\<rparr>))"

definition harness_step :: "'g rng \<Rightarrow> config \<Rightarrow> bool \<Rightarrow> 'g harness \<Rightarrow> 'g harness option" where
  "harness_step G cfg generating h =
     (let h = (if generating then generate_phase G cfg h else h)
      in case fold_option (retransmit_one G cfg) (outstanding (hs_client h)) h of
           None \<Rightarrow> None
         | Some h \<Rightarrow>
             (let (reqs, l) = link_due (hs_now h) (hs_c2s h);
                  h = fold (handle_request G) reqs (h\<lparr>hs_c2s := l\<rparr>);
                  (resps, l) = link_due (hs_now h) (hs_s2c h)
              in fold_option handle_response resps (h\<lparr>hs_s2c := l\<rparr>)))"

section \<open>A run\<close>

definition failover_step :: "config \<Rightarrow> 64 word \<Rightarrow> 64 word" where
  "failover_step cfg k = cf_gen_steps cfg * (k + 1) div (cf_failovers cfg + 1)"

definition do_failover :: "'g harness \<Rightarrow> 'g harness" where
  "do_failover h =
     h\<lparr>hs_server := server_on_hash_mismatch (server_restore (hs_last_ckpt h) True (hs_now h)),
       hs_failovers_done := hs_failovers_done h + 1\<rparr>"

definition generation_body :: "'g rng \<Rightarrow> config \<Rightarrow> nat \<Rightarrow> 'g harness \<Rightarrow> 'g harness option" where
  "generation_body G cfg i h =
     (case harness_step G cfg True h of
        None \<Rightarrow> None
      | Some h \<Rightarrow>
          (let h = (if cf_ckpt_interval cfg \<noteq> 0 \<and> (of_nat i :: 64 word) mod cf_ckpt_interval cfg = 0
                    then h\<lparr>hs_last_ckpt := server_checkpoint (hs_server h)\<rparr> else h);
               h = (if hs_failovers_done h < cf_failovers cfg \<and>
                       of_nat i = failover_step cfg (hs_failovers_done h)
                    then do_failover h else h)
           in Some (h\<lparr>hs_now := hs_now h + 1\<rparr>)))"

definition run_drained :: "'g harness \<Rightarrow> bool" where
  "run_drained h \<longleftrightarrow>
     outstanding (hs_client h) = [] \<and> link_empty (hs_c2s h) \<and> link_empty (hs_s2c h)"

text \<open>\<open>while (drained < drain_cap)\<close>: the first argument is \<open>drain_cap - drained\<close>.\<close>

fun drain_loop :: "nat \<Rightarrow> 'g rng \<Rightarrow> config \<Rightarrow> 'g harness \<Rightarrow> 'g harness option" where
  "drain_loop 0 G cfg h = Some h"
| "drain_loop (Suc n) G cfg h =
     (if run_drained h then Some h
      else case harness_step G cfg False h of
             None \<Rightarrow> None
           | Some h \<Rightarrow> drain_loop n G cfg (h\<lparr>hs_now := hs_now h + 1\<rparr>))"

definition harness_start :: "config \<Rightarrow> 'g \<Rightarrow> 'g harness" where
  "harness_start cfg g =
     (let server = server_on_hash_mismatch (server_new True 0)
      in \<lparr>hs_client = client_on_hash_mismatch (client_new False True), hs_server = server,
          hs_c2s = link_new (link_cfg cfg), hs_s2c = link_new (link_cfg cfg), hs_now = 0, hs_mismatches = 0,
          hs_last_send = [], hs_last_ckpt = server_checkpoint server, hs_failovers_done = 0,
          hs_rng = g\<rparr>)"

text \<open>The conversation, without the final check.\<close>

definition run_conversation :: "'g rng \<Rightarrow> config \<Rightarrow> 'g \<Rightarrow> 'g harness option" where
  "run_conversation G cfg g =
     (case fold_option (generation_body G cfg) [0..<unat (cf_gen_steps cfg)] (harness_start cfg g) of
        None \<Rightarrow> None
      | Some h \<Rightarrow> drain_loop (unat (cf_gen_steps cfg * 50 + 100000)) G cfg h)"

definition run_bound :: "config \<Rightarrow> size_t" where
  "run_bound cfg = 4 * (cf_parallel cfg + of_int (cf_max_latency cfg)) + 16"

definition run_one :: "'g rng \<Rightarrow> config \<Rightarrow> 'g \<Rightarrow> run_stats option" where
  "run_one G cfg g =
     (case run_conversation G cfg g of
        None \<Rightarrow> None
      | Some h \<Rightarrow>
          (case check_run (hs_client h) (hs_server h) (hs_mismatches h) (unat (run_bound cfg))
                  (cf_failovers cfg > 0) of
             None \<Rightarrow> None
           | Some r \<Rightarrow>
               Some \<lparr>st_result = r, st_steps = hs_now h,
                     st_issued = cli_next_seq (hs_client h) - 1,
                     st_req_sent = lk_sent (hs_c2s h), st_req_dropped = lk_dropped (hs_c2s h),
                     st_req_dup = lk_duplicated (hs_c2s h),
                     st_rsp_sent = lk_sent (hs_s2c h), st_rsp_dropped = lk_dropped (hs_s2c h),
                     st_rsp_dup = lk_duplicated (hs_s2c h),
                     st_max_resp_buffer = srv_max_resp_buffer (hs_server h),
                     st_max_pending = srv_max_pending (hs_server h),
                     st_max_ack_new = cli_max_ack_new (hs_client h)\<rparr>))"

end
