(* ===== verification/Harness_Refinement.thy ===== *)
theory Harness_Refinement
  imports Harness
begin

text \<open>
  Every run of the harness, whatever the random generator does, is an execution of the
  transition system of \<open>Conversation\<close>: each operation of the driver is a sequence of
  steps. The number of requests issued is bounded by the window times the number of
  generating ticks, so the machine integers never wrap when that product is small enough,
  and the safety and window theorems then speak about the harness's final state.
\<close>

text \<open>
  \<open>tracks\<close>: the state of the driver is the client and server of a reachable state; what
  the links hold was offered to the network; at most \<open>n\<close> requests were issued.
\<close>

definition tracks :: "bool \<Rightarrow> config \<Rightarrow> nat \<Rightarrow> 'g harness \<Rightarrow> 64 word sys \<Rightarrow> bool" where
  "tracks crashes cfg n h s \<longleftrightarrow>
     reachable fuzz_app crashes s \<and> length (issued s) \<le> n \<and>
     cl s = hs_client h \<and> sv s = hs_server h \<and>
     link_msgs (hs_c2s h) \<subseteq> set (c2s s) \<and> link_msgs (hs_s2c h) \<subseteq> set (s2c s) \<and>
     hs_last_ckpt h \<in> set (saved s) \<and> hs_mismatches h = 0 \<and>
     peak s \<le> unat (cf_parallel cfg)"

lemma tracks_mono: "tracks crashes cfg m h s \<Longrightarrow> m \<le> n \<Longrightarrow> tracks crashes cfg n h s"
  by (simp add: tracks_def)

lemma tracks_weaken: "tracks crashes cfg m h s \<Longrightarrow> m \<le> n \<Longrightarrow> \<exists>t. tracks crashes cfg n h t"
  using tracks_mono by blast

lemma tracks_fits: "tracks crashes cfg n h s \<Longrightarrow> 2 * n < 2 ^ 64 \<Longrightarrow> sys_fits s"
  by (simp add: tracks_def sys_fits_def log_fits_def)

lemma tracks_inv: "tracks crashes cfg n h s \<Longrightarrow> 2 * n < 2 ^ 64 \<Longrightarrow> sys_inv s"
  using tracks_fits [of crashes cfg n h s] by (auto simp: tracks_def intro: reachable_inv)

lemma tracks_start: "\<exists>s. tracks crashes cfg 0 (harness_start cfg g) s"
proof -
  let ?i = "init_sys False True True 0 :: 64 word sys"
  let ?s = "?i\<lparr>saved := server_checkpoint (sv ?i) # saved ?i\<rparr>"
  have "reachable fuzz_app crashes ?s"
    by (rule reachable.step [OF reachable.start step.take_checkpoint])
  then have "tracks crashes cfg 0 (harness_start cfg g) ?s"
    by (simp add: tracks_def harness_start_def init_sys_def Let_def)
  then show ?thesis by blast
qed

section \<open>Sending\<close>

lemma send_request_fields:
  "hs_client (send_request G r h) = hs_client h" "hs_server (send_request G r h) = hs_server h"
  "hs_s2c (send_request G r h) = hs_s2c h" "hs_now (send_request G r h) = hs_now h"
  "hs_last_ckpt (send_request G r h) = hs_last_ckpt h"
  "hs_mismatches (send_request G r h) = hs_mismatches h"
  "link_msgs (hs_c2s (send_request G r h)) \<subseteq> insert r (link_msgs (hs_c2s h))"
  using link_send_msgs [of G "hs_now h" r "hs_c2s h" "hs_rng h"]
  by (simp_all add: send_request_def Let_def case_prod_beta)

lemma tracks_send_request:
  "tracks crashes cfg n h s \<Longrightarrow> r \<in> set (c2s s) \<Longrightarrow> tracks crashes cfg n (send_request G r h) s"
  using send_request_fields [of G r h] by (auto simp: tracks_def)

lemma send_response_fields:
  "hs_client (send_response G x h) = hs_client h" "hs_server (send_response G x h) = hs_server h"
  "hs_c2s (send_response G x h) = hs_c2s h" "hs_now (send_response G x h) = hs_now h"
  "hs_last_ckpt (send_response G x h) = hs_last_ckpt h"
  "hs_mismatches (send_response G x h) = hs_mismatches h"
  "link_msgs (hs_s2c (send_response G x h)) \<subseteq> insert x (link_msgs (hs_s2c h))"
  using link_send_msgs [of G "hs_now h" x "hs_s2c h" "hs_rng h"]
  by (simp_all add: send_response_def Let_def case_prod_beta)

lemma tracks_send_responses:
  "tracks crashes cfg n h s \<Longrightarrow> set xs \<subseteq> set (s2c s) \<Longrightarrow>
   tracks crashes cfg n (fold (send_response G) xs h) s"
proof (induction xs arbitrary: h)
  case (Cons x xs)
  have "tracks crashes cfg n (send_response G x h) s"
    using Cons.prems send_response_fields [of G x h] by (auto simp: tracks_def)
  then show ?case using Cons by simp
qed simp

section \<open>Generating\<close>

lemma generate_outstanding:
  assumes "client_inv I c" and "generate_request p c = (r, c')"
  shows "length (outstanding c') = Suc (length (outstanding c))"
proof -
  have "cli_next_seq c \<notin> um_keys (cli_inflight c)"
    using client_inflight_keys [OF assms(1)] client_invD(2) [OF assms(1)] by (auto simp: ids_def)
  then show ?thesis
    using generate_request_fields(11) [OF assms(2)]
    by (simp add: outstanding_def length_put_fresh)
qed

lemma tracks_generate_one:
  assumes tr: "tracks crashes cfg n h s" and n: "2 * Suc n < 2 ^ 64"
    and room: "length (outstanding (hs_client h)) < unat (cf_parallel cfg)"
  shows "\<exists>t. tracks crashes cfg (Suc n) (generate_one G h) t"
    and "length (outstanding (hs_client (generate_one G h))) = Suc (length (outstanding (hs_client h)))"
proof -
  obtain x g where x: "rng_next G (hs_rng h) = (x, g)" by fastforce
  let ?p = "''cli-ts='' @ to_string (hs_now h) @ '';n='' @ to_string (take_bit 16 x)"
  obtain r c where gen: "generate_request ?p (hs_client h) = (r, c)" by fastforce
  let ?h = "h\<lparr>hs_client := c, hs_rng := g\<rparr>"
  have h: "generate_one G h = send_request G r ?h" using gen by (simp add: generate_one_def x)
  have inv: "client_inv (issued s) (hs_client h)"
    using sys_invD(1) [OF tracks_inv [OF tr]] tr n by (simp add: tracks_def)
  have len: "length (outstanding c) = Suc (length (outstanding (hs_client h)))"
    using inv gen by (rule generate_outstanding)
  then show "length (outstanding (hs_client (generate_one G h))) =
      Suc (length (outstanding (hs_client h)))" by (simp add: h send_request_fields)
  have "reachable fuzz_app crashes (do_generate ?p s)"
    using tr by (auto simp: tracks_def intro: reachable.step step.generate)
  then have "tracks crashes cfg (Suc n) ?h (do_generate ?p s)"
    using tr gen len room by (auto simp: tracks_def do_generate_def)
  moreover have "r \<in> set (c2s (do_generate ?p s))" using tr gen by (simp add: do_generate_def tracks_def)
  ultimately show "\<exists>t. tracks crashes cfg (Suc n) (generate_one G h) t"
    unfolding h by (blast intro: tracks_send_request)
qed

lemma tracks_generate_loop:
  assumes "tracks crashes cfg n h s" and "out = length (outstanding (hs_client h))"
    and "2 * (n + (unat (cf_parallel cfg) - out)) < 2 ^ 64"
  shows "\<exists>t. tracks crashes cfg (n + (unat (cf_parallel cfg) - out)) (generate_loop k out G cfg h) t"
  using assms
proof (induction k out G cfg h arbitrary: n s rule: generate_loop.induct)
  case (1 out G cfg h)
  then show ?case by (auto intro: tracks_weaken)
next
  case (2 k out G cfg h)
  show ?case
  proof (cases "out < unat (cf_parallel cfg)")
    case True
    have eq: "Suc n + (unat (cf_parallel cfg) - Suc out) = n + (unat (cf_parallel cfg) - out)"
      using True by simp
    have "Suc n \<le> n + (unat (cf_parallel cfg) - out)" using True by simp
    then have n: "2 * Suc n < 2 ^ 64" using 2(4) by simp
    have room: "length (outstanding (hs_client h)) < unat (cf_parallel cfg)" using True 2(3) by simp
    obtain t where t: "tracks crashes cfg (Suc n) (generate_one G h) t"
      using tracks_generate_one(1) [OF 2(2) n room] by blast
    have len: "Suc out = length (outstanding (hs_client (generate_one G h)))"
      using tracks_generate_one(2) [OF 2(2) n room] 2(3) by simp
    have "\<exists>t. tracks crashes cfg (Suc n + (unat (cf_parallel cfg) - Suc out))
        (generate_loop k (Suc out) G cfg (generate_one G h)) t"
      using 2(4) unfolding eq [symmetric] by (intro "2.IH" [OF True t len]) simp
    then show ?thesis using True unfolding eq by simp
  next
    case False
    then show ?thesis using 2(2) by (auto intro: tracks_weaken)
  qed
qed

lemma tracks_generate_phase:
  assumes "tracks crashes cfg n h s" and "2 * (n + unat (cf_parallel cfg)) < 2 ^ 64"
  shows "\<exists>t. tracks crashes cfg (n + unat (cf_parallel cfg)) (generate_phase G cfg h) t"
proof -
  obtain want g where w: "rng_arrivals G (hs_rng h) = (want, g)" by fastforce
  let ?out = "length (outstanding (hs_client h))"
  have "tracks crashes cfg n (h\<lparr>hs_rng := g\<rparr>) s" using assms(1) by (simp add: tracks_def)
  then have "\<exists>t. tracks crashes cfg (n + (unat (cf_parallel cfg) - ?out))
      (generate_loop (nat want) ?out G cfg (h\<lparr>hs_rng := g\<rparr>)) t"
    using assms(2) by (intro tracks_generate_loop) simp_all
  then show ?thesis
    using w by (auto simp: generate_phase_def intro: tracks_weaken)
qed


section \<open>Retransmitting\<close>

lemma tracks_retransmit:
  assumes "tracks crashes cfg n h s" and "set qs \<subseteq> um_keys (cli_inflight (hs_client h))"
  shows "\<exists>h' t. fold_option (retransmit_one G cfg) qs h = Some h' \<and> tracks crashes cfg n h' t"
  using assms
proof (induction qs arbitrary: h s)
  case (Cons q qs)
  obtain r where r: "frozen q (hs_client h) = Some r" using Cons.prems(2) by (auto simp: frozen_def)
  let ?s = "s\<lparr>c2s := r # c2s s\<rparr>" and ?h = "send_request G r h"
  have "frozen q (cl s) = Some r" using Cons.prems(1) r by (simp add: tracks_def)
  then have "step fuzz_app crashes s ?s" by (rule step.retransmit)
  then have "reachable fuzz_app crashes ?s"
    using Cons.prems(1) reachable.step by (auto simp: tracks_def)
  then have "tracks crashes cfg n h ?s" using Cons.prems(1) by (auto simp: tracks_def)
  then have "tracks crashes cfg n ?h ?s" by (rule tracks_send_request) simp
  then show ?case
    using Cons.IH [of ?h ?s] Cons.IH [OF Cons.prems(1)] Cons.prems(2) r
    by (simp add: retransmit_one_def Let_def send_request_fields)
qed auto

section \<open>Delivering requests\<close>

text \<open>The recovery round trip of the harness: one replay is always enough.\<close>

lemma recover_loop_done: "\<not> is_recover out \<Longrightarrow> recover_loop n c req out s = (out, s)"
  by (cases n) (auto simp: is_recover_def)

lemma deliver_run:
  assumes inv: "sys_inv s" and fits: "sys_fits s" and req: "req \<in> set (c2s s)"
    and res: "on_request fuzz_app req (sv s) = (out, s')" "recover_loop 8 (cl s) req out s' = (out', s'')"
  shows "\<exists>t. (step fuzz_app crashes)\<^sup>*\<^sup>* s t \<and> sv t = s'' \<and> set out' \<subseteq> set (s2c t) \<and>
    cl t = cl s \<and> c2s t = c2s s \<and> set (s2c s) \<subseteq> set (s2c t) \<and> saved t = saved s \<and>
    issued t = issued s \<and> peak t = peak s"
proof (cases "is_recover out")
  case False
  then have "recover_loop 8 (cl s) req out s' = (out, s')" by (rule recover_loop_done)
  then have "out' = out" "s'' = s'" using res(2) by simp_all
  moreover have "step fuzz_app crashes s (do_deliver_request fuzz_app req s)"
    using req by (rule step.deliver_request)
  ultimately show ?thesis
    using False res(1)
    by (intro exI [of _ "do_deliver_request fuzz_app req s"]) (auto simp: do_deliver_request_def)
next
  case True
  note D = sys_invD [OF inv]
  have fit: "log_fits (issued s)" and rI: "req \<in> set (issued s)"
    using fits req D(3) by (auto simp: sys_fits_def)
  have need: "needs_recover req (sv s)"
    using True no_recover_signal [OF D(2) D(5) fit D(6) rI, of fuzz_app] res(1) by auto
  let ?n = "event_count (srv_history (sv s))"
  let ?rp = "build_replay ?n (cl s)" and ?v = "ingest_replay (build_replay ?n (cl s)) (sv s)"
  have out: "out = [recover_response req (sv s)]" "s' = sv s"
    using on_request_recover [OF need, of fuzz_app] res(1) by simp_all
  note full = full_replay [OF inv fits order.refl]
  have no: "\<not> needs_recover req ?v"
    using caught_up_no_recover [OF full(1) D(5) fit rI full(2)] .
  obtain o2 v2 where o2: "on_request fuzz_app req ?v = (o2, v2)" by fastforce
  have "\<not> is_recover o2" using no_recover_signal [OF full(1) D(5) fit D(6) rI no, of fuzz_app] o2 by simp
  then have rl: "recover_loop 8 (cl s) req out s' = (o2, v2)"
    using recover_loop.simps(2) [of 7 "cl s" req out s'] o2 recover_loop_done [of o2 7 "cl s" req v2]
    by (simp add: out recover_response_def)
  let ?s1 = "s\<lparr>signals := ?n # signals s\<rparr>"
  let ?s2 = "?s1\<lparr>replays := ?rp # replays s\<rparr>"
  let ?s3 = "?s2\<lparr>sv := ?v\<rparr>"
  let ?s4 = "?s3\<lparr>sv := v2, s2c := o2 @ s2c s\<rparr>"
  have "step fuzz_app crashes s (do_deliver_request fuzz_app req s)" using req by (rule step.deliver_request)
  moreover have "do_deliver_request fuzz_app req s = ?s1"
    using need by (simp add: do_deliver_request_def on_request_recover is_recover_def recover_response_def)
  moreover have "step fuzz_app crashes ?s1 ?s2" using step.send_replay [of ?n ?s1 fuzz_app crashes] by simp
  moreover have "step fuzz_app crashes ?s2 ?s3"
    using step.deliver_replay [of ?rp ?s2 fuzz_app crashes] by (simp add: build_replay_def)
  moreover have "step fuzz_app crashes ?s3 (do_deliver_request fuzz_app req ?s3)"
    using req by (intro step.deliver_request) simp
  moreover have "do_deliver_request fuzz_app req ?s3 = ?s4"
    using o2 \<open>\<not> is_recover o2\<close> by (simp add: do_deliver_request_def)
  ultimately have "(step fuzz_app crashes)\<^sup>*\<^sup>* s ?s4"
    by (metis (no_types, lifting) r_into_rtranclp rtranclp.rtrancl_into_rtrancl)
  moreover have "out' = o2" "s'' = v2" using rl res(2) by simp_all
  ultimately show ?thesis by (intro exI [of _ ?s4]) auto
qed


lemma tracks_handle_request:
  assumes tr: "tracks crashes cfg n h s" and n: "2 * n < 2 ^ 64" and req: "req \<in> set (c2s s)"
  shows "\<exists>t. tracks crashes cfg n (handle_request G req h) t \<and> set (c2s s) \<subseteq> set (c2s t)"
proof -
  let ?s0 = "s\<lparr>sv := (sv s)\<lparr>srv_world := hs_now h\<rparr>\<rparr>"
  let ?v0 = "(hs_server h)\<lparr>srv_world := hs_now h\<rparr>"
  have st: "step fuzz_app crashes s ?s0" by (rule step.outside)
  have v0: "sv ?s0 = ?v0" "cl ?s0 = hs_client h" using tr by (simp_all add: tracks_def)
  have fits0: "sys_fits ?s0" using tracks_fits [OF tr n] by (simp add: sys_fits_def)
  have inv0: "sys_inv ?s0" using step_inv [OF st fits0 tracks_inv [OF tr n]] .
  obtain out v1 where o1: "on_request fuzz_app req ?v0 = (out, v1)" by fastforce
  obtain out' v where o2: "recover_loop 8 (hs_client h) req out v1 = (out', v)" by fastforce
  obtain t where t: "(step fuzz_app crashes)\<^sup>*\<^sup>* ?s0 t" "sv t = v" "set out' \<subseteq> set (s2c t)"
    "cl t = hs_client h" "c2s t = c2s s" "set (s2c s) \<subseteq> set (s2c t)" "saved t = saved s"
    "issued t = issued s" "peak t = peak s"
    using deliver_run [OF inv0 fits0 _ _ _, of req out v1 out' v crashes] req o1 o2 v0 by auto
  have reach: "reachable fuzz_app crashes t"
    using reachable_run [OF step_run [OF st t(1)]] tr by (simp add: tracks_def)
  moreover have "sys_fits t" using t(8) fits0 by (simp add: sys_fits_def)
  ultimately have "sys_inv t" by (rule reachable_inv)
  then have mm: "srv_mismatches v = []" using server_invD(9) [OF sys_invD(2)] t(2) by blast
  let ?h = "h\<lparr>hs_server := v, hs_mismatches := hs_mismatches h +
      of_nat (length (srv_mismatches v) - length (srv_mismatches ?v0))\<rparr>"
  have "tracks crashes cfg n ?h t"
    using tr reach t mm by (auto simp: tracks_def)
  then have "tracks crashes cfg n (fold (send_response G) out' ?h) t"
    using t(3) by (rule tracks_send_responses)
  moreover have "handle_request G req h = fold (send_response G) out' ?h"
    using o1 o2 by (simp add: handle_request_def Let_def)
  ultimately show ?thesis using t(5) by (intro exI [of _ t]) simp
qed

lemma tracks_handle_requests:
  assumes "tracks crashes cfg n h s" and "2 * n < 2 ^ 64" and "set reqs \<subseteq> set (c2s s)"
  shows "\<exists>t. tracks crashes cfg n (fold (handle_request G) reqs h) t"
  using assms
proof (induction reqs arbitrary: h s)
  case (Cons r reqs)
  obtain t where "tracks crashes cfg n (handle_request G r h) t" "set (c2s s) \<subseteq> set (c2s t)"
    using tracks_handle_request [OF Cons.prems(1,2), of r G] Cons.prems(3) by auto
  then show ?case using Cons.IH [of "handle_request G r h" t] Cons.prems(2,3) by auto
qed auto

section \<open>Delivering responses\<close>

lemma tracks_handle_responses:
  assumes "tracks crashes cfg n h s" and "2 * n < 2 ^ 64" and "set xs \<subseteq> set (s2c s)"
  shows "\<exists>h' t. fold_option handle_response xs h = Some h' \<and> tracks crashes cfg n h' t"
  using assms
proof (induction xs arbitrary: h s)
  case (Cons x xs)
  note tr = Cons.prems(1)
  have inv: "sys_inv s" and fits: "sys_fits s"
    using tracks_inv [OF tr Cons.prems(2)] tracks_fits [OF tr Cons.prems(2)] by simp_all
  note D = sys_invD [OF inv]
  have x: "x \<in> set (s2c s)" using Cons.prems(3) by simp
  obtain b c where c: "on_response x (cl s) = Some (b, c)" "client_inv (issued s) c"
    using on_response_inv [OF D(1) _ D(4) [OF x]] fits by (auto simp: sys_fits_def)
  have "step fuzz_app crashes s (s\<lparr>cl := c\<rparr>)" using x c(1) by (rule step.deliver_response)
  then have "reachable fuzz_app crashes (s\<lparr>cl := c\<rparr>)"
    using tr reachable.step by (auto simp: tracks_def)
  moreover obtain h' where h': "handle_response x h = Some h'" "hs_client h' = c"
    "h' = h\<lparr>hs_client := c, hs_mismatches := hs_mismatches h\<rparr>"
    using tr c(1) client_invD(18) [OF c(2)] by (auto simp: handle_response_def tracks_def)
  ultimately have "tracks crashes cfg n h' (s\<lparr>cl := c\<rparr>)"
    using tr by (auto simp: tracks_def)
  then show ?case using Cons.IH [of h' "s\<lparr>cl := c\<rparr>"] Cons.prems(2,3) h'(1) by simp
qed auto

section \<open>A tick and a run\<close>

lemma tracks_step:
  assumes tr: "tracks crashes cfg n h s" and n: "2 * (n + unat (cf_parallel cfg)) < 2 ^ 64"
  shows "\<exists>h' t. harness_step G cfg gen h = Some h' \<and>
    tracks crashes cfg (n + (if gen then unat (cf_parallel cfg) else 0)) h' t"
proof -
  let ?m = "n + (if gen then unat (cf_parallel cfg) else 0)"
  let ?h1 = "if gen then generate_phase G cfg h else h"
  have m: "2 * ?m < 2 ^ 64" using n by auto
  obtain s1 where t1: "tracks crashes cfg ?m ?h1 s1"
    using tracks_generate_phase [OF tr n, of G] tr by (cases gen) auto
  have "set (outstanding (hs_client ?h1)) \<subseteq> um_keys (cli_inflight (hs_client ?h1))"
    by (simp add: outstanding_def dom_map_of_conv_image_fst)
  then obtain h2 s2 where h2: "fold_option (retransmit_one G cfg) (outstanding (hs_client ?h1)) ?h1 = Some h2"
    and t2: "tracks crashes cfg ?m h2 s2" using tracks_retransmit [OF t1, of _ G] by blast
  obtain reqs l where due: "link_due (hs_now h2) (hs_c2s h2) = (reqs, l)" by fastforce
  let ?h2 = "h2\<lparr>hs_c2s := l\<rparr>"
  have sub: "set reqs \<subseteq> link_msgs (hs_c2s h2)" "link_msgs l \<subseteq> link_msgs (hs_c2s h2)"
    using link_due_msgs [of "hs_now h2" "hs_c2s h2"] due by simp_all
  then have "tracks crashes cfg ?m ?h2 s2" "set reqs \<subseteq> set (c2s s2)"
    using t2 by (auto simp: tracks_def)
  then obtain s3 where t3: "tracks crashes cfg ?m (fold (handle_request G) reqs ?h2) s3"
    using tracks_handle_requests [OF _ m] by blast
  define h3 where "h3 = fold (handle_request G) reqs ?h2"
  obtain resps k where due2: "link_due (hs_now h3) (hs_s2c h3) = (resps, k)" by fastforce
  have "set resps \<subseteq> link_msgs (hs_s2c h3)" "link_msgs k \<subseteq> link_msgs (hs_s2c h3)"
    using link_due_msgs [of "hs_now h3" "hs_s2c h3"] due2 by simp_all
  then have "tracks crashes cfg ?m (h3\<lparr>hs_s2c := k\<rparr>) s3" "set resps \<subseteq> set (s2c s3)"
    using t3 by (auto simp: tracks_def h3_def)
  then obtain h4 s4 where "fold_option handle_response resps (h3\<lparr>hs_s2c := k\<rparr>) = Some h4"
    "tracks crashes cfg ?m h4 s4" using tracks_handle_responses [OF _ m] by blast
  then show ?thesis
    using h2 due due2 by (auto simp: harness_step_def Let_def h3_def)
qed


lemma tracks_failover:
  assumes "tracks True cfg n h s"
  shows "\<exists>t. tracks True cfg n (do_failover h) t"
proof -
  let ?t = "s\<lparr>sv := server_on_hash_mismatch (server_restore (hs_last_ckpt h) True (hs_now h))\<rparr>"
  have "step fuzz_app True s ?t"
    using step.crash [of True "hs_last_ckpt h" s "cp_buffer (hs_last_ckpt h)" fuzz_app True "hs_now h"]
      assms by (simp add: tracks_def)
  then have "reachable fuzz_app True ?t" using assms reachable.step by (auto simp: tracks_def)
  then have "tracks True cfg n (do_failover h) ?t" using assms by (simp add: tracks_def do_failover_def)
  then show ?thesis by blast
qed

lemma tracks_generation_body:
  assumes tr: "tracks crashes cfg n h s" and n: "2 * (n + unat (cf_parallel cfg)) < 2 ^ 64"
    and cr: "cf_failovers cfg > 0 \<longrightarrow> crashes"
  shows "\<exists>h' t. generation_body G cfg i h = Some h' \<and>
    tracks crashes cfg (n + unat (cf_parallel cfg)) h' t"
proof -
  let ?m = "n + unat (cf_parallel cfg)"
  obtain h1 s1 where h1: "harness_step G cfg True h = Some h1" "tracks crashes cfg ?m h1 s1"
    using tracks_step [OF tr n, of G True] by auto
  define h2 where "h2 =
    (if cf_ckpt_interval cfg \<noteq> 0 \<and> (of_nat i :: 64 word) mod cf_ckpt_interval cfg = 0
     then h1\<lparr>hs_last_ckpt := server_checkpoint (hs_server h1)\<rparr> else h1)"
  let ?s2 = "s1\<lparr>saved := server_checkpoint (sv s1) # saved s1\<rparr>"
  have "reachable fuzz_app crashes s1" using h1(2) by (simp add: tracks_def)
  then have "reachable fuzz_app crashes ?s2" by (rule reachable.step [OF _ step.take_checkpoint])
  then have t2: "tracks crashes cfg ?m h2 ?s2" using h1(2) by (simp add: tracks_def h2_def)
  define h3 where "h3 =
    (if hs_failovers_done h2 < cf_failovers cfg \<and> of_nat i = failover_step cfg (hs_failovers_done h2)
     then do_failover h2 else h2)"
  have "\<exists>t. tracks crashes cfg ?m h3 t"
  proof (cases "hs_failovers_done h2 < cf_failovers cfg")
    case True
    then have "crashes" using cr word_gt_0 by fastforce
    then show ?thesis using t2 tracks_failover [of cfg ?m h2 ?s2] by (auto simp: h3_def)
  next
    case False
    then show ?thesis using t2 by (auto simp: h3_def)
  qed
  then obtain t where "tracks crashes cfg ?m (h3\<lparr>hs_now := hs_now h3 + 1\<rparr>) t"
    by (auto simp: tracks_def)
  moreover have "generation_body G cfg i h = Some (h3\<lparr>hs_now := hs_now h3 + 1\<rparr>)"
    using h1(1) by (simp add: generation_body_def Let_def h2_def h3_def)
  ultimately show ?thesis by blast
qed

lemma tracks_generation:
  assumes "tracks crashes cfg n h s" and "2 * (n + (length xs + 1) * unat (cf_parallel cfg)) < 2 ^ 64"
    and "cf_failovers cfg > 0 \<longrightarrow> crashes"
  shows "\<exists>h' t. fold_option (generation_body G cfg) xs h = Some h' \<and>
    tracks crashes cfg (n + length xs * unat (cf_parallel cfg)) h' t"
  using assms
proof (induction xs arbitrary: h s n)
  case (Cons i xs)
  let ?P = "unat (cf_parallel cfg)"
  have "2 * (n + ?P) < 2 ^ 64" using Cons.prems(2) by simp
  then obtain h1 t where h1: "generation_body G cfg i h = Some h1" "tracks crashes cfg (n + ?P) h1 t"
    using tracks_generation_body [OF Cons.prems(1) _ Cons.prems(3), of G i] by auto
  have "2 * ((n + ?P) + (length xs + 1) * ?P) < 2 ^ 64" using Cons.prems(2) by simp
  then show ?case using Cons.IH [OF h1(2) _ Cons.prems(3)] h1(1) by (simp add: add.assoc)
qed auto

lemma tracks_drain:
  assumes "tracks crashes cfg n h s" and "2 * (n + unat (cf_parallel cfg)) < 2 ^ 64"
  shows "\<exists>h' t. drain_loop k G cfg h = Some h' \<and> tracks crashes cfg n h' t"
  using assms
proof (induction k arbitrary: h s)
  case (Suc k)
  show ?case
  proof (cases "run_drained h")
    case False
    obtain h1 t where h1: "harness_step G cfg False h = Some h1" "tracks crashes cfg n h1 t"
      using tracks_step [OF Suc.prems, of G False] by auto
    have "tracks crashes cfg n (h1\<lparr>hs_now := hs_now h1 + 1\<rparr>) t" using h1(2) by (simp add: tracks_def)
    then show ?thesis using Suc.IH [OF _ Suc.prems(2)] h1(1) False by simp
  qed (use Suc.prems in auto)
qed auto

text \<open>
  The configurations the theorems speak about: the number of requests a run can issue is
  far below \<open>2 ^ 63\<close>. The defaults, 2000 ticks and a window of 8, give 16008.
\<close>

definition config_fits :: "config \<Rightarrow> bool" where
  "config_fits cfg \<longleftrightarrow> 2 * ((unat (cf_gen_steps cfg) + 1) * unat (cf_parallel cfg)) < 2 ^ 64"

lemma run_tracked:
  assumes "config_fits cfg" and "cf_failovers cfg > 0 \<longrightarrow> crashes"
  shows "\<exists>h s. run_conversation G cfg g = Some h \<and>
    tracks crashes cfg (unat (cf_gen_steps cfg) * unat (cf_parallel cfg)) h s"
proof -
  let ?P = "unat (cf_parallel cfg)" and ?xs = "[0..<unat (cf_gen_steps cfg)]"
  obtain s where "tracks crashes cfg 0 (harness_start cfg g) s"
    using tracks_start [of crashes cfg g] by blast
  then obtain h1 s1 where h1: "fold_option (generation_body G cfg) ?xs (harness_start cfg g) = Some h1"
    "tracks crashes cfg (unat (cf_gen_steps cfg) * ?P) h1 s1"
    using tracks_generation [of crashes cfg 0 "harness_start cfg g" s ?xs G] assms
    by (auto simp: config_fits_def)
  have "2 * (unat (cf_gen_steps cfg) * ?P + ?P) < 2 ^ 64" using assms(1) by (simp add: config_fits_def)
  then show ?thesis
    using tracks_drain [OF h1(2), of "unat (cf_gen_steps cfg * 50 + 100000)" G] h1(1)
    by (auto simp: run_conversation_def)
qed

lemma run_checked:
  assumes "config_fits cfg"
  shows "\<exists>h st. run_conversation G cfg g = Some h \<and> run_one G cfg g = Some st \<and>
    (cr_ok (st_result st) \<longleftrightarrow> run_ok (hs_client h) (hs_server h) (hs_mismatches h)
       (unat (run_bound cfg)) (cf_failovers cfg > 0))"
proof -
  let ?n = "unat (cf_gen_steps cfg) * unat (cf_parallel cfg)"
  obtain h s where h: "run_conversation G cfg g = Some h" "tracks True cfg ?n h s"
    using run_tracked [OF assms, of True G g] by auto
  have "2 * ?n < 2 ^ 64" using assms by (simp add: config_fits_def)
  then have "client_inv (issued s) (hs_client h)"
    using sys_invD(1) [OF tracks_inv [OF h(2)]] h(2) by (simp add: tracks_def)
  then obtain r where "check_run (hs_client h) (hs_server h) (hs_mismatches h) (unat (run_bound cfg))
      (cf_failovers cfg > 0) = Some r"
    "cr_ok r \<longleftrightarrow> run_ok (hs_client h) (hs_server h) (hs_mismatches h) (unat (run_bound cfg))
      (cf_failovers cfg > 0)"
    using check_run_verdict [OF issued_upto_bound] by blast
  then show ?thesis using h(1) by (simp add: run_one_def)
qed

text \<open>Without failovers, a run that ends with every request answered passes its check.\<close>

lemma answered_run_passes:
  assumes "config_fits cfg" and "cf_failovers cfg = 0" and "0 \<le> cf_max_latency cfg"
    and "4 * (unat (cf_parallel cfg) + nat (cf_max_latency cfg)) + 16 < 2 ^ 64"
    and "run_conversation G cfg g = Some h" and "outstanding (hs_client h) = []"
  shows "\<exists>st. run_one G cfg g = Some st \<and> cr_ok (st_result st)"
proof -
  let ?N = "unat (cf_gen_steps cfg) * unat (cf_parallel cfg)"
  obtain s where tr: "tracks False cfg ?N h s"
    using run_tracked [OF assms(1), of False G g] assms(2,5) by auto
  have N: "2 * ?N < 2 ^ 64" using assms(1) by (simp add: config_fits_def)
  have p: "plain_sys s"
    using reachable_plain [of fuzz_app, OF _ tracks_fits [OF tr N]] tr by (simp add: tracks_def)
  have "run_bound cfg = of_nat (4 * (unat (cf_parallel cfg) + nat (cf_max_latency cfg)) + 16)"
    using assms(3) by (simp add: run_bound_def of_nat_nat)
  then have "unat (run_bound cfg) = 4 * (unat (cf_parallel cfg) + nat (cf_max_latency cfg)) + 16"
    using unat_of_nat_64 [OF assms(4)] by (simp only:)
  then have "peak s \<le> unat (run_bound cfg)" using tr by (simp add: tracks_def)
  then have "run_ok (hs_client h) (hs_server h) 0 (unat (run_bound cfg)) False"
    using plain_run_ok [OF p, of "unat (run_bound cfg)"] tr assms(6)
      client_invD(18) [OF sys_invD(1) [OF plain_sysD(1) [OF p]]]
      server_invD(9) [OF sys_invD(2) [OF plain_sysD(1) [OF p]]]
    by (simp add: tracks_def outstanding_def)
  then show ?thesis using run_checked [OF assms(1), of G g] assms(2,5) tr by (auto simp: tracks_def)
qed

end
