(* ===== verification/Demo_Run.thy ===== *)
theory Demo_Run
  imports Harness_Refinement
begin

text \<open>
  Two concrete executions, at which the theorems about reachable states are instantiated.

  \<open>demo\<close>: two requests are generated, the second overtakes the first, both are
  committed, the response to the first arrives, a third request acknowledges it.

  \<open>lost\<close>: the same start with a checkpoint taken before anything was committed; both
  responses arrive, the server crashes and restarts from that checkpoint, and the third
  request names history the new process does not have.
\<close>

definition demo_app :: "nat app" where
  "demo_app w q p H = (''re:'' @ p, Suc w)"

definition do_deliver_response :: "response \<Rightarrow> 'w sys \<Rightarrow> 'w sys" where
  "do_deliver_response x s = s\<lparr>cl := snd (the (on_response x (cl s)))\<rparr>"

definition two_requests :: "nat sys" where
  "two_requests = do_generate ''b'' (do_generate ''a'' (init_sys True True True 0))"

definition with_checkpoint :: "nat sys" where
  "with_checkpoint = two_requests\<lparr>saved := server_checkpoint (sv two_requests) # saved two_requests\<rparr>"

definition overtaken :: "nat sys \<Rightarrow> nat sys" where
  "overtaken s = do_deliver_request demo_app (c2s s ! 0) s"

definition committed :: "nat sys \<Rightarrow> nat sys" where
  "committed s = do_deliver_request demo_app (c2s s ! 1) (overtaken s)"

definition one_answer :: "nat sys \<Rightarrow> nat sys" where
  "one_answer s = do_deliver_response (s2c (committed s) ! 0) (committed s)"

definition two_answers :: "nat sys \<Rightarrow> nat sys" where
  "two_answers s = do_deliver_response (s2c (committed s) ! 1) (one_answer s)"

definition demo :: "nat sys" where
  "demo = do_generate ''c'' (one_answer two_requests)"

definition crashed :: "nat sys" where
  "crashed = (two_answers with_checkpoint)\<lparr>sv := server_on_hash_mismatch
     (server_restore (saved with_checkpoint ! 0) True 0)\<rparr>"

definition lost :: "nat sys" where
  "lost = do_generate ''c'' crashed"

text \<open>Some random generator.\<close>

definition counting_rng :: "nat rng" where
  "counting_rng = \<lparr>rng_next = \<lambda>n. (of_nat n, Suc n), rng_uniform = \<lambda>n. (of_nat (n mod 7) / 7, Suc n),
     rng_arrivals = \<lambda>n. (int (n mod 3), Suc n)\<rparr>"

text \<open>
  A run of the harness with one generating tick, one request and a network that loses
  nothing: the states after each tick.
\<close>

definition one_tick :: config where
  "one_tick = \<lparr>cf_seeds = 1, cf_base_seed = 1, cf_gen_steps = 1, cf_parallel = 8, cf_rate = 2,
     cf_drop = 0.3, cf_dup = 0.1, cf_max_latency = 5, cf_rto = 6, cf_minutes = 0, cf_verbose = False,
     cf_failovers = 0, cf_ckpt_interval = 40\<rparr>"

definition lucky_rng :: "unit rng" where
  "lucky_rng = \<lparr>rng_next = \<lambda>g. (0, g), rng_uniform = \<lambda>g. (1, g), rng_arrivals = \<lambda>g. (1, g)\<rparr>"

definition tick_payload :: string where
  "tick_payload = ''cli-ts='' @ to_string 0 @ '';n='' @ to_string 0"

definition tick_request :: request where
  "tick_request = fst (generate_request tick_payload (hs_client (harness_start one_tick ())))"

definition tick_client :: client where
  "tick_client = snd (generate_request tick_payload (hs_client (harness_start one_tick ())))"

definition tick_response :: response where
  "tick_response = hd (fst (on_request fuzz_app tick_request ((hs_server (harness_start one_tick ()))\<lparr>srv_world := 1\<rparr>)))"

definition tick_server :: "64 word server" where
  "tick_server = snd (on_request fuzz_app tick_request ((hs_server (harness_start one_tick ()))\<lparr>srv_world := 1\<rparr>))"

definition tick_done :: client where
  "tick_done = snd (the (on_response tick_response tick_client))"

definition tick_start :: "unit harness" where "tick_start = harness_start one_tick ()"

definition tick1 :: "unit harness" where "tick1 = tick_start\<lparr>hs_client := tick_client, hs_c2s := (link_new (link_cfg one_tick))\<lparr>lk_queue := [(1, tick_request)], lk_sent := 1\<rparr>,
  hs_last_send := [(1,0)], hs_last_ckpt := server_checkpoint (hs_server tick_start), hs_now := 1\<rparr>"

definition tick2 :: "unit harness" where "tick2 = tick1\<lparr>hs_server := tick_server, hs_c2s := (link_new (link_cfg one_tick))\<lparr>lk_sent := 1, lk_delivered := 1\<rparr>,
  hs_s2c := (link_new (link_cfg one_tick))\<lparr>lk_queue := [(2, tick_response)], lk_sent := 1\<rparr>\<rparr>"

definition tick3 :: "unit harness" where "tick3 = tick2\<lparr>hs_client := tick_done, hs_now := 2,
  hs_s2c := (link_new (link_cfg one_tick))\<lparr>lk_sent := 1, lk_delivered := 1\<rparr>\<rparr>"

text \<open>A server that was told by a replay that request 1 is committed and unanswered.\<close>

definition owing :: "nat server" where
  "owing = (server_new True 0)\<lparr>srv_committed_upto := 1, srv_awaiting := {1}\<rparr>"

lemmas demo_defs = two_requests_def with_checkpoint_def overtaken_def committed_def one_answer_def
  two_answers_def

lemmas eval_client = do_generate_def init_sys_def generate_request_def client_new_def server_new_def
  client_on_hash_mismatch_def server_on_hash_mismatch_def Let_def history_append_def
  history_push_def history_new_def default_request_def outstanding_def
  do_deliver_response_def on_response_def advance_base_step

lemmas eval_server = do_deliver_request_def on_request_def needs_recover_def release_acked_def
  commit_loop.simps commit_request_def count_call_def call_app_def make_response_def
  track_bounds_def default_response_def is_recover_def demo_app_def server_checkpoint_def
  event_count_def

section \<open>The executions are executions\<close>

lemma reach_deliver_response:
  assumes "reachable app crashes s" and "sys_fits s" and "x \<in> set (s2c s)"
  shows "reachable app crashes (do_deliver_response x s)"
proof -
  note D = sys_invD [OF reachable_inv [OF assms(1,2)]]
  obtain c where "on_response x (cl s) = Some (rsp_seq x \<notin> cli_received (cl s), c)"
    using on_response_inv [OF D(1) _ D(4) [OF assms(3)]] assms(2) by (auto simp: sys_fits_def)
  then show ?thesis
    using reachable.step [OF assms(1) step.deliver_response [OF assms(3)]]
    by (simp add: do_deliver_response_def)
qed

lemma issued_delivered [simp]:
  "issued (do_deliver_response x s) = issued s" "issued (do_deliver_request app r s) = issued s"
  "length (issued (do_generate p s)) = Suc (length (issued s))"
  "c2s (do_deliver_request app r s) = c2s s" "s2c (do_deliver_response x s) = s2c s"
  "saved (do_deliver_request app r s) = saved s" "saved (do_deliver_response x s) = saved s"
  by (simp_all add: do_deliver_response_def do_deliver_request_def do_generate_def case_prod_beta)

lemma reach_committed:
  assumes "reachable demo_app crashes s" and "length (c2s s) = 2"
  shows "reachable demo_app crashes (committed s)"
proof -
  have mem: "c2s s ! 0 \<in> set (c2s s)" "c2s s ! 1 \<in> set (c2s s)" using assms(2) by simp_all
  have "reachable demo_app crashes (overtaken s)"
    unfolding overtaken_def using reachable.step [OF assms(1) step.deliver_request [OF mem(1)]] .
  moreover have "step demo_app crashes (overtaken s) (committed s)"
    unfolding committed_def using mem(2) by (intro step.deliver_request) (simp add: overtaken_def)
  ultimately show ?thesis by (rule reachable.step)
qed

lemma reach_answers:
  assumes "reachable demo_app crashes s" and "length (c2s s) = 2" and "length (issued s) = 2"
    and "length (s2c (committed s)) = 2"
  shows "reachable demo_app crashes (one_answer s)" and "reachable demo_app crashes (two_answers s)"
proof -
  have fits: "sys_fits (committed s)" "sys_fits (one_answer s)"
    using assms(3) by (simp_all add: sys_fits_def log_fits_def committed_def overtaken_def one_answer_def)
  show one: "reachable demo_app crashes (one_answer s)"
    unfolding one_answer_def
    using reach_deliver_response [OF reach_committed [OF assms(1,2)] fits(1)] assms(4) by simp
  show "reachable demo_app crashes (two_answers s)"
    unfolding two_answers_def
    using reach_deliver_response [OF one fits(2)] assms(4) by (simp add: one_answer_def)
qed

lemma reach_two_requests: "reachable demo_app crashes two_requests"
  unfolding two_requests_def by (intro reachable.step [OF _ step.generate] reachable.start)

lemma two_requests_value:
  "length (c2s two_requests) = 2" "length (issued two_requests) = 2" "saved two_requests = []"
  by (simp_all add: two_requests_def eval_client)

text \<open>The two requests, the state they leave the server in, and the two responses.\<close>

lemma requests_value:
  "req_seq (c2s two_requests ! 0) = 2" "req_seq (c2s two_requests ! Suc 0) = 1"
  "req_ack_base (c2s two_requests ! 0) = 1" "req_ack_base (c2s two_requests ! Suc 0) = 1"
  "req_ack_new (c2s two_requests ! 0) = []" "req_ack_new (c2s two_requests ! Suc 0) = []"
  "req_payload (c2s two_requests ! 0) = ''b''" "req_payload (c2s two_requests ! Suc 0) = ''a''"
  "sv two_requests = server_on_hash_mismatch (server_new True 0)" "s2c two_requests = []"
  by (simp_all add: two_requests_def eval_client)

lemma overtaken_value:
  "on_request demo_app (c2s two_requests ! 0) (sv two_requests) =
   ([], (sv two_requests)\<lparr>srv_pending_reqs := [(2, c2s two_requests ! 0)], srv_max_pending := 1\<rparr>)"
  by (simp add: on_request_def needs_recover_def release_acked_def commit_loop.simps track_bounds_def
      requests_value server_on_hash_mismatch_def server_new_def)

lemma committed_value:
  "length (s2c (committed two_requests)) = 2"
  "rsp_seq (s2c (committed two_requests) ! 0) = 1" "rsp_seq (s2c (committed two_requests) ! Suc 0) = 2"
  "\<not> rsp_no_op (s2c (committed two_requests) ! 0)" "\<not> rsp_no_op (s2c (committed two_requests) ! Suc 0)"
  "srv_committed_upto (sv (committed two_requests)) = 2"
  "srv_resp_buffer (sv (committed two_requests)) = [(1, ''re:a''), (2, ''re:b'')]"
  "srv_app_calls (sv (committed two_requests)) = [(1, 1), (2, 1)]"
  "cl (committed two_requests) = cl two_requests" "c2s (committed two_requests) = c2s two_requests"
  "peak (committed two_requests) = peak two_requests" "issued (committed two_requests) = issued two_requests"
proof -
  let ?v = "(sv two_requests)\<lparr>srv_pending_reqs := [(2, c2s two_requests ! 0)], srv_max_pending := 1\<rparr>"
  let ?r = "c2s two_requests ! Suc 0"
  have no: "\<not> needs_recover ?r ?v" "\<not> req_seq ?r \<le> srv_committed_upto ?v"
    by (simp_all add: needs_recover_def requests_value server_on_hash_mismatch_def server_new_def)
  have ov: "overtaken two_requests = two_requests\<lparr>sv := ?v\<rparr>"
    by (simp add: overtaken_def do_deliver_request_def overtaken_value is_recover_def)
  note f = commit_loop_unfold [of demo_app] commit_next_def
    commit_request_parts stage_def requests_value server_on_hash_mismatch_def server_new_def demo_app_def
    release_acked_def
  have out: "length (fst (on_request demo_app ?r ?v)) = 2"
    "rsp_seq (fst (on_request demo_app ?r ?v) ! 0) = 1" "rsp_seq (fst (on_request demo_app ?r ?v) ! Suc 0) = 2"
    "\<not> rsp_no_op (fst (on_request demo_app ?r ?v) ! 0)" "\<not> rsp_no_op (fst (on_request demo_app ?r ?v) ! Suc 0)"
    unfolding on_request_new [OF no, of demo_app] by (simp_all add: f)
  have st: "srv_committed_upto (snd (on_request demo_app ?r ?v)) = 2"
    "srv_resp_buffer (snd (on_request demo_app ?r ?v)) = [(1, ''re:a''), (2, ''re:b'')]"
    "srv_app_calls (snd (on_request demo_app ?r ?v)) = [(1, 1), (2, 1)]"
    unfolding on_request_new [OF no, of demo_app] by (simp_all add: f)
  have c: "committed two_requests = two_requests\<lparr>sv := snd (on_request demo_app ?r ?v),
      s2c := fst (on_request demo_app ?r ?v)\<rparr>"
    using out(1) by (simp add: committed_def ov do_deliver_request_def is_recover_def case_prod_beta requests_value)
  show "length (s2c (committed two_requests)) = 2"
    "rsp_seq (s2c (committed two_requests) ! 0) = 1" "rsp_seq (s2c (committed two_requests) ! Suc 0) = 2"
    "\<not> rsp_no_op (s2c (committed two_requests) ! 0)" "\<not> rsp_no_op (s2c (committed two_requests) ! Suc 0)"
    "srv_committed_upto (sv (committed two_requests)) = 2"
    "srv_resp_buffer (sv (committed two_requests)) = [(1, ''re:a''), (2, ''re:b'')]"
    "srv_app_calls (sv (committed two_requests)) = [(1, 1), (2, 1)]"
    "cl (committed two_requests) = cl two_requests" "c2s (committed two_requests) = c2s two_requests"
    "peak (committed two_requests) = peak two_requests" "issued (committed two_requests) = issued two_requests"
    using out st by (simp_all add: c)
qed

lemma checkpoint_value:
  "length (s2c (committed with_checkpoint)) = 2" "length (c2s with_checkpoint) = 2"
  "length (issued with_checkpoint) = 2" "length (saved with_checkpoint) = 1"
proof -
  have "do_deliver_request app r (s\<lparr>saved := cs\<rparr>) = (do_deliver_request app r s)\<lparr>saved := cs\<rparr>"
    for app and r and s :: "nat sys" and cs
    by (simp add: do_deliver_request_def case_prod_beta)
  then have "s2c (committed with_checkpoint) = s2c (committed two_requests)"
    by (simp add: committed_def overtaken_def with_checkpoint_def)
  then show "length (s2c (committed with_checkpoint)) = 2" by (simp add: committed_value)
qed (simp_all add: with_checkpoint_def two_requests_value)

lemma reach_demo: "reachable demo_app crashes demo"
  unfolding demo_def
  by (rule reachable.step [OF reach_answers(1) step.generate])
     (simp_all add: reach_two_requests two_requests_value committed_value)

lemma demo_fits: "sys_fits demo"
  by (simp add: sys_fits_def log_fits_def demo_def one_answer_def committed_def overtaken_def
      two_requests_value)

lemma reach_crashed: "reachable demo_app True crashed"
proof -
  have "reachable demo_app True with_checkpoint"
    unfolding with_checkpoint_def by (rule reachable.step [OF reach_two_requests step.take_checkpoint])
  then have r: "reachable demo_app True (two_answers with_checkpoint)"
    by (rule reach_answers(2)) (simp_all add: checkpoint_value)
  let ?cp = "saved with_checkpoint ! 0"
  have "?cp \<in> set (saved (two_answers with_checkpoint))"
    using checkpoint_value(4) by (simp add: two_answers_def one_answer_def committed_def overtaken_def)
  then have "step demo_app True (two_answers with_checkpoint) crashed"
    using step.crash [of True ?cp "two_answers with_checkpoint" "cp_buffer ?cp" demo_app True 0]
    by (simp add: crashed_def)
  then show ?thesis using r by (blast intro: reachable.step)
qed

lemma reach_lost: "reachable demo_app True lost"
  unfolding lost_def by (rule reachable.step [OF reach_crashed step.generate])

lemma lost_issued: "length (issued lost) = 3"
  by (simp add: lost_def crashed_def two_answers_def one_answer_def committed_def overtaken_def
      checkpoint_value)

lemma lost_fits: "sys_fits lost"
  by (simp add: sys_fits_def log_fits_def lost_issued)

text \<open>The client before and after the first response.\<close>

lemma client_value:
  "cli_received (cl two_requests) = {}" "cli_base (cl two_requests) = 1"
  "cli_pending_new (cl two_requests) = []" "map fst (cli_inflight (cl two_requests)) = [1, 2]"
  "cli_deliver (cl two_requests)" "acks (issued two_requests) = []" "peak two_requests = 2"
  "cli_next_seq (cl two_requests) = 3" "2 \<in> um_keys (cli_inflight (cl two_requests))"
  by (simp_all add: two_requests_def eval_client acks_def)

lemma one_answer_value:
  defines "c \<equiv> cl (one_answer two_requests)"
  shows "cli_received c = {1}" and "cli_base c = 2" and "cli_pending_new c = [1]"
    and "cli_inflight c = um_erase 1 (cli_inflight (cl two_requests))" and "cli_deliver c"
    and "cli_next_seq c = 3"
proof -
  let ?x = "s2c (committed two_requests) ! 0"
  have "advance_base {1} 1 = Some 2" by (simp add: advance_base_step)
  then have "rsp_seq ?x \<notin> cli_received (cl two_requests)"
    "advance_base (insert (rsp_seq ?x) (cli_received (cl two_requests))) (cli_base (cl two_requests)) = Some 2"
    by (simp_all add: committed_value client_value)
  from on_response_first [OF this] obtain c' where c': "on_response ?x (cl two_requests) = Some (True, c')"
    "cli_received c' = {1}" "cli_base c' = 2" "cli_pending_new c' = [1]"
    "cli_inflight c' = um_erase 1 (cli_inflight (cl two_requests))"
    "cli_deliver c' = cli_deliver (cl two_requests)" "cli_next_seq c' = cli_next_seq (cl two_requests)"
    unfolding committed_value client_value by (simp add: committed_value) blast
  have "c = c'" by (simp add: c_def one_answer_def do_deliver_response_def committed_value c'(1))
  then show "cli_received c = {1}" "cli_base c = 2" "cli_pending_new c = [1]"
    "cli_inflight c = um_erase 1 (cli_inflight (cl two_requests))" "cli_deliver c" "cli_next_seq c = 3"
    using c' by (simp_all add: client_value)
qed

lemma two_answers_value:
  "cli_base (cl (two_answers two_requests)) = 3" "cli_inflight (cl (two_answers two_requests)) = []"
proof -
  have e: "um_erase 2 (um_erase 1 (cli_inflight (cl two_requests))) = []"
    using client_value(4) by (auto simp: AList.delete_eq filter_empty_conv map_eq_Cons_conv)
  let ?y = "s2c (committed two_requests) ! Suc 0" and ?c = "cl (one_answer two_requests)"
  have "advance_base {2, 1} 2 = Some 3" by (simp add: advance_base_step)
  then have "rsp_seq ?y \<notin> cli_received ?c"
    "advance_base (insert (rsp_seq ?y) (cli_received ?c)) (cli_base ?c) = Some 3"
    by (simp_all add: committed_value one_answer_value)
  from on_response_first [OF this] obtain c' where c': "on_response ?y ?c = Some (True, c')"
    "cli_base c' = 3" "cli_inflight c' = um_erase 2 (cli_inflight ?c)"
    by (simp add: committed_value) blast
  have "cl (two_answers two_requests) = c'"
    by (simp add: two_answers_def do_deliver_response_def c'(1))
  then show "cli_base (cl (two_answers two_requests)) = 3" "cli_inflight (cl (two_answers two_requests)) = []"
    using c' e by (simp_all add: one_answer_value)
qed

lemma demo_value:
  "srv_committed_upto (sv demo) = 2" "srv_app_calls (sv demo) = [(1, 1), (2, 1)]"
  "srv_resp_buffer (sv demo) = [(1, ''re:a''), (2, ''re:b'')]" "peak demo = 2"
  "cli_received (cl demo) = {1}" "cli_base (cl demo) = 2" "cli_deliver (cl demo)"
  "acks (issued demo) @ cli_pending_new (cl demo) = [1]" "length (outstanding (cl demo)) = 2"
  "\<exists>r. frozen 3 (cl demo) = Some r \<and> req_ack_new r = [1]" "\<exists>r. frozen 2 (cl demo) = Some r"
  "c2s demo ! 0 \<in> set (c2s demo)"
proof -
  let ?c = "cl (one_answer two_requests)"
  obtain r c where gen: "generate_request ''c'' ?c = (r, c)" by fastforce
  note f = generate_request_fields [OF gen] one_answer_value
  have d: "demo = (one_answer two_requests)\<lparr>cl := c, c2s := r # c2s (one_answer two_requests),
      issued := issued (one_answer two_requests) @ [r],
      peak := max (peak (one_answer two_requests)) (length (outstanding c))\<rparr>"
    by (simp add: demo_def do_generate_def gen)
  obtain r1 r2 where infl: "cli_inflight (cl two_requests) = [(1, r1), (2, r2)]"
    using client_value(4) by (auto simp: map_eq_Cons_conv)
  show "srv_committed_upto (sv demo) = 2" "srv_app_calls (sv demo) = [(1, 1), (2, 1)]"
    "srv_resp_buffer (sv demo) = [(1, ''re:a''), (2, ''re:b'')]" "peak demo = 2"
    "cli_received (cl demo) = {1}" "cli_base (cl demo) = 2" "cli_deliver (cl demo)"
    "acks (issued demo) @ cli_pending_new (cl demo) = [1]" "length (outstanding (cl demo)) = 2"
    "\<exists>r. frozen 3 (cl demo) = Some r \<and> req_ack_new r = [1]" "\<exists>r. frozen 2 (cl demo) = Some r"
    "c2s demo ! 0 \<in> set (c2s demo)"
    by (simp_all add: d f infl outstanding_def frozen_def)
       (simp_all add: one_answer_def do_deliver_response_def committed_value client_value)
qed

lemma crashed_value: "srv_committed_upto (sv crashed) = 0" "srv_pending_reqs (sv crashed) = []"
  by (simp_all add: crashed_def server_on_hash_mismatch_def server_restore_fields with_checkpoint_def
      server_checkpoint_def requests_value server_new_def)

lemma lost_value: "needs_recover (c2s lost ! 0) (sv lost)" "c2s lost ! 0 \<in> set (c2s lost)"
proof -
  have "cl (two_answers with_checkpoint) = cl (two_answers two_requests)"
    by (simp add: two_answers_def one_answer_def committed_def overtaken_def with_checkpoint_def
        do_deliver_response_def do_deliver_request_def case_prod_beta)
  then have "cli_base (cl crashed) = 3" using two_answers_value(1) by (simp add: crashed_def)
  then have "req_ack_base (c2s lost ! 0) = 3"
    using generate_request_parts(2) [of "''c''" "cl crashed"]
    by (simp add: lost_def do_generate_def case_prod_beta)
  moreover have "srv_committed_upto (sv lost) = 0"
    using crashed_value(1) by (simp add: lost_def do_generate_def case_prod_beta)
  ultimately show "needs_recover (c2s lost ! 0) (sv lost)" by (simp add: needs_recover_def)
  show "c2s lost ! 0 \<in> set (c2s lost)" by (simp add: lost_def do_generate_def case_prod_beta)
qed

section \<open>A run of the harness\<close>

lemma default_config_fits: "config_fits default_config"
  by (simp add: config_fits_def default_config_def)

lemmas eval_harness = generation_body_def harness_step_def generate_phase_def 
  generate_one_def send_request_def link_send_def schedule_def bernoulli_def link_cfg_def link_due_def
  retransmit_one_def handle_request_def handle_response_def send_response_def run_drained_def link_empty_def link_new_def
  lucky_rng_def one_tick_def Let_def

lemma tick_start_fields: "hs_c2s tick_start = link_new (link_cfg one_tick)" "hs_s2c tick_start = link_new (link_cfg one_tick)" "hs_now tick_start = 0" "hs_last_send tick_start = []"
  "hs_mismatches tick_start = 0" "hs_failovers_done tick_start = 0" "outstanding (hs_client tick_start) = []" "hs_rng tick_start = ()"
  by (simp_all add: tick_start_def harness_start_def Let_def outstanding_def client_new_def client_on_hash_mismatch_def)

lemma tick_generate: "generate_request tick_payload (hs_client tick_start) = (tick_request, tick_client)"
  by (simp add: tick_request_def tick_client_def tick_start_def)

lemma tick_client_value: "outstanding tick_client = [1]" "req_seq tick_request = 1" "cli_mismatches tick_client = []"
  by (simp_all add: tick_client_def tick_request_def harness_start_def eval_client)

lemma tick_on_request: "on_request fuzz_app tick_request ((hs_server tick_start)\<lparr>srv_world := 1\<rparr>) = ([tick_response], tick_server)"
   "\<not> rsp_recover tick_response" "srv_mismatches tick_server = []"  "srv_mismatches (hs_server tick_start) = []"
  by (simp_all add: tick_start_def tick_response_def tick_server_def tick_request_def harness_start_def eval_client eval_server fuzz_app_def)

lemma tick_on_response: "on_response tick_response tick_client = Some (True, tick_done)" "outstanding tick_done = []" "cli_mismatches tick_done = []"
  by (simp_all add: tick_done_def tick_client_def tick_response_def tick_request_def harness_start_def eval_client eval_server fuzz_app_def)

lemma drain_loop_unfold:
  "0 < n \<Longrightarrow> drain_loop n G cfg h = (if run_drained h then Some h
      else case harness_step G cfg False h of
             None \<Rightarrow> None
           | Some h \<Rightarrow> drain_loop (n - 1) G cfg (h\<lparr>hs_now := hs_now h + 1\<rparr>))"
  by (cases n) (simp_all split: option.split)

lemma tick_step1: "generation_body lucky_rng one_tick 0 tick_start = Some tick1"
  using tick_generate
  by (simp add: eval_harness tick_start_fields tick_client_value tick_payload_def tick1_def)

lemma six_ticks: "\<not> (6 :: 64 word) \<le> 1" by (simp add: word_le_nat_alt)

lemma tick_step2: "harness_step lucky_rng one_tick False tick1 = Some tick2"
  using tick_on_request recover_loop_done [of "[tick_response]" 8 tick_client tick_request tick_server]
  by (simp add: eval_harness tick_start_fields tick_client_value tick1_def tick2_def is_recover_def six_ticks)

lemma tick_step3: "harness_step lucky_rng one_tick False (tick2\<lparr>hs_now := hs_now tick2 + 1\<rparr>) = Some tick3"
  using tick_on_response
  by (simp add: eval_harness tick_start_fields tick_client_value tick1_def tick2_def tick3_def)

lemma tick_run: "run_conversation lucky_rng one_tick () = Some (tick3\<lparr>hs_now := 3\<rparr>)"
proof -
  have "\<not> run_drained tick1" "\<not> run_drained (tick2\<lparr>hs_now := hs_now tick2 + 1\<rparr>)" "run_drained (tick3\<lparr>hs_now := 3\<rparr>)"
    by (simp_all add: run_drained_def tick1_def tick2_def tick3_def tick_client_value tick_on_response link_empty_def link_new_def)
  moreover have "hs_now tick3 + 1 = 3" by (simp add: tick3_def)
  ultimately have "drain_loop 100050 lucky_rng one_tick tick1 = Some (tick3\<lparr>hs_now := 3\<rparr>)"
    by (simp add: drain_loop_unfold tick_step2 tick_step3)
  then show ?thesis using tick_step1 by (simp add: run_conversation_def one_tick_def tick_start_def) 
qed

end
