(* ===== verification/Core_Properties.thy ===== *)
theory Core_Properties
  imports Demo_Run
begin

text \<open>
  Properties of the single operations of the core: histories and their hash, the client's
  receipt of responses, and every branch of the server's \<open>on_request\<close>. They hold for
  arbitrary states, reachable or not, unless an invariant is named.
\<close>

section \<open>Lemmas\<close>


section \<open>The server\<close>



text \<open>A copy of a committed request that is not owed an answer never reaches the application:
  history, high-water mark, staging area, call counts and the application's world stay as
  they are, and the single answer is the buffered payload, or an empty no-op if the client
  has acknowledged it.\<close>

lemma committed_request_not_reprocessed:
  assumes "\<not> needs_recover req s" and "req_seq req \<le> srv_committed_upto s"
    and "req_seq req \<notin> srv_awaiting s" and "um_wf (srv_resp_buffer s)"
  shows "\<exists>x s'. on_request app req s = ([x], s') \<and> rsp_seq x = req_seq req \<and>
    (if req_seq req < req_ack_base req \<or> req_seq req \<in> set (req_ack_new req)
     then rsp_no_op x \<and> rsp_payload x = []
     else case um_find (srv_resp_buffer s) (req_seq req) of
            None \<Rightarrow> rsp_no_op x \<and> rsp_payload x = []
          | Some p \<Rightarrow> \<not> rsp_no_op x \<and> rsp_payload x = p) \<and>
    srv_history s' = srv_history s \<and> srv_committed_upto s' = srv_committed_upto s \<and>
    srv_pending_reqs s' = srv_pending_reqs s \<and> srv_app_calls s' = srv_app_calls s \<and>
    srv_world s' = srv_world s"
proof (cases "um_find (srv_resp_buffer (release_acked req s)) (req_seq req)")
  case None
  then show ?thesis
    using assms by (auto simp: on_request_no_op release_acked_find split: if_splits)
next
  case (Some p)
  then show ?thesis
    using assms by (auto simp: on_request_resend release_acked_find split: if_splits)
qed

text \<open>A request a replay declared committed and unanswered is processed by its first
  retransmission, with the history as it stood, and a second copy gets the same payload
  without a second call of the application.\<close>

lemma replayed_request_processed_once:
  assumes "\<not> needs_recover req s" and "req_seq req \<le> srv_committed_upto s"
    and "req_seq req \<in> srv_awaiting s" and "um_find (srv_resp_buffer s) (req_seq req) = None"
    and "um_wf (srv_resp_buffer s)"
    and "\<not> req_seq req < req_ack_base req" and "req_seq req \<notin> set (req_ack_new req)"
    and "app (srv_world s) (req_seq req) (req_payload req) (srv_history s) = (p, w)"
  shows "\<exists>x s'. on_request app req s = ([x], s') \<and> rsp_payload x = p \<and> \<not> rsp_no_op x \<and>
    srv_world s' = w \<and> req_seq req \<notin> srv_awaiting s' \<and> srv_history s' = srv_history s \<and>
    (\<exists>y s''. on_request app req s' = ([y], s'') \<and> rsp_payload y = p \<and> \<not> rsp_no_op y \<and>
      srv_world s'' = w)"
proof -
  have none: "um_find (srv_resp_buffer (release_acked req s)) (req_seq req) = None"
    using assms(4,5) by (simp add: release_acked_find)
  note aw = on_request_awaiting [OF assms(1,2) none assms(3), of app]
  note f = answer_awaiting_parts [of app req "release_acked req s"]
  obtain s' where ans: "answer_awaiting app req (release_acked req s) = (p, s')" and w: "srv_world s' = w"
    using assms(8) by (auto simp: answer_awaiting_def call_app_def count_call_def Let_def)
  note g = f [unfolded ans fst_conv snd_conv]
  let ?s' = "track_bounds s'"
  have "\<not> needs_recover req ?s'" "req_seq req \<le> srv_committed_upto ?s'"
    using assms(1,2) needs_recover_cong [of ?s' s req] by (simp_all add: g)
  moreover have "um_wf (srv_resp_buffer ?s')" "um_find (srv_resp_buffer ?s') (req_seq req) = Some p"
    using assms(5) by (simp_all add: g um_simps release_acked_wf)
  moreover from this have "um_find (srv_resp_buffer (release_acked req ?s')) (req_seq req) = Some p"
    using assms(6,7) by (simp add: release_acked_find)
  ultimately have "on_request app req ?s' =
      ([make_response (req_seq req) p False (release_acked req ?s')], track_bounds (release_acked req ?s'))"
    by (simp add: on_request_resend)
  moreover have "on_request app req s = ([make_response (req_seq req) p False s'], ?s')"
    by (simp add: aw ans)
  ultimately show ?thesis using w by (simp add: g)
qed

text \<open>A request that acknowledges something the server has not committed changes nothing: the
  state is untouched and the answer is the recovery signal with the number of history
  events the server holds. Without wrap-around of the high-water mark this happens exactly
  when the request's low-water mark or one of its acknowledgements is beyond it.\<close>

lemma recovery_signal_changes_nothing:
  assumes "unat (srv_committed_upto s) + 1 < 2 ^ 64"
    and "unat (req_ack_base req) > unat (srv_committed_upto s) + 1 \<or>
      (\<exists>i \<in> set (req_ack_new req). unat i > unat (srv_committed_upto s))"
  shows "on_request app req s =
    ([default_response\<lparr>rsp_seq := req_seq req, rsp_recover := True,
        rsp_recover_from := event_count (srv_history s)\<rparr>], s)"
proof -
  have "needs_recover req s"
    using assms unat_plus_one [OF assms(1)] by (auto simp: needs_recover_def word_less_nat_alt list_ex_iff)
  then show ?thesis by (simp add: on_request_def)
qed

section \<open>The client\<close>

text \<open>Receiving a response again, at once or later, changes nothing and is reported as a
  duplicate.\<close>

lemma duplicate_response_ignored:
  assumes "on_response x c = Some (b, c')" and "rsp_seq y = rsp_seq x"
  shows "on_response y c' = Some (False, c')"
proof (cases "rsp_seq x \<in> cli_received c")
  case True
  then show ?thesis using assms by (simp add: on_response_duplicate)
next
  case False
  then obtain n where "advance_base (insert (rsp_seq x) (cli_received c)) (cli_base c) = Some n"
    using assms(1) on_response_None [of x c] by fastforce
  then have "rsp_seq y \<in> cli_received c'" using on_response_first [OF False] assms by auto
  then show ?thesis by (rule on_response_duplicate)
qed

text \<open>The loop that advances the low-water mark returns whenever some id has not been received,
  at the first id from the old mark on that is missing, after at most as many turns as that
  id is away (counted around the 64-bit wrap).\<close>

lemma base_is_first_missing:
  assumes "q \<notin> received"
  shows "\<exists>n \<le> unat (q - b). advance_base received b = Some (b + of_nat n) \<and>
    b + of_nat n \<notin> received \<and> (\<forall>i < n. b + of_nat i \<in> received)"
  using advance_base_returns [OF assms] by blast

text \<open>The loop does not return only if every one of the \<open>2 ^ 64\<close> ids has been
  received.\<close>

lemma base_loop_diverges: "advance_base received b = None \<longleftrightarrow> received = UNIV"
proof
  assume "advance_base received b = None"
  then show "received = UNIV" using advance_base_returns [of _ received b] by fastforce
qed (simp add: advance_base_none)

section \<open>Histories\<close>


text \<open>One step of the hash always tells the request token from the response token of the same
  id, and two ids that differ in a single decimal digit.\<close>

lemma hash_tells_request_from_response:
  assumes "to_string m = s @ c # t" and "to_string n = s @ d # t" and "c \<noteq> d"
  shows "hash_step prev (Rq n) \<noteq> hash_step prev (Rs n) \<and>
    hash_step prev \<lparr>ev_is_response = b, ev_seq = m\<rparr> \<noteq> hash_step prev \<lparr>ev_is_response = b, ev_seq = n\<rparr>"
proof
  show "hash_step prev (Rq n) \<noteq> hash_step prev (Rs n)"
    using fnv_bytes_one_byte [of "CHR ''R''" "CHR ''r''" "hash_prefix prev" "[]" "to_string n"]
    by (simp add: hash_step_eq event_str_def)
  show "hash_step prev \<lparr>ev_is_response = b, ev_seq = m\<rparr> \<noteq>
      hash_step prev \<lparr>ev_is_response = b, ev_seq = n\<rparr>"
    using fnv_bytes_one_byte [OF assms(3), of "hash_prefix prev" "(if b then ''r'' else ''R'') @ s" t] assms(1,2)
    by (simp add: hash_step_eq event_str_def)
qed

text \<open>The display form of a history determines its retained events, whatever the ids are.\<close>

lemma display_form_is_injective:
  assumes "history_str H = history_str K"
  shows "h_events H = h_events K"
proof -
  have words: "event_words es = '' '' \<longleftrightarrow> False" for es
    by (cases es) (simp_all add: event_words_def event_str_def)
  have "(if h_events H = [] then '' '' else event_words (h_events H)) =
      (if h_events K = [] then '' '' else event_words (h_events K))"
    using assms history_str_eq [of H] history_str_eq [of K] by simp
  then show ?thesis
    using words [of "h_events H"] words [of "h_events K"] by (auto simp: event_words_inj split: if_splits)
qed

end
