(* ===== verification/Json_Parser.thy ===== *)
theory Json_Parser
  imports Color_Prelude
begin

text \<open>
  The serialisation helper and the recursive-descent parser of
  \<open>src/wire/failover_json.cc\<close>. The parser's pointers \<open>p\<close> and \<open>end\<close> are the list of
  the bytes between them. The two loop shapes the reader functions repeat, over the members
  of an object and over the elements of an array, are written once, with the code that
  handles one member or one element as a parameter.

  Nothing about that code alone makes the loops end, so they are partial functions:
  \<open>None\<close> means that the loop does not return, \<open>Inl a\<close> an early \<open>return false\<close> that
  leaves \<open>a\<close> in the output read so far. The locales below show that the loops return when the code in their
  body consumes input, and the interpretations in \<open>Failover_Json\<close> that it does.
\<close>

section \<open>Serialisation\<close>

definition hex_digits :: string where
  "hex_digits = ''0123456789abcdef''"

definition escaped_char :: "char \<Rightarrow> string" where
  "escaped_char c =
     (if c = CHR 0x22 then [CHR 0x5C, CHR 0x22]
      else if c = CHR 0x5C then [CHR 0x5C, CHR 0x5C]
      else if c = CHR 0x0A then [CHR 0x5C, CHR ''n'']
      else if c = CHR 0x0D then [CHR 0x5C, CHR ''r'']
      else if c = CHR 0x09 then [CHR 0x5C, CHR ''t'']
      else if (of_char c :: nat) < 0x20
      then [CHR 0x5C, CHR ''u'', CHR ''0'', CHR ''0'',
            hex_digits ! (of_char c div 16 mod 16), hex_digits ! (of_char c mod 16)]
      else [c])"

definition append_escaped :: "string \<Rightarrow> string \<Rightarrow> string" where
  "append_escaped out s =
     (let out = out @ [CHR 0x22]; out = foldl (\<lambda>out c. out @ escaped_char c) out s
      in out @ [CHR 0x22])"

section \<open>The parser\<close>

record parser =
  pr_in :: string
  pr_ok :: bool

definition is_ws :: "char \<Rightarrow> bool" where
  "is_ws c \<longleftrightarrow> c = CHR '' '' \<or> c = CHR 0x09 \<or> c = CHR 0x0A \<or> c = CHR 0x0D"

definition ws :: "parser \<Rightarrow> parser" where
  "ws p = p\<lparr>pr_in := dropWhile is_ws (pr_in p)\<rparr>"

definition eat :: "char \<Rightarrow> parser \<Rightarrow> bool \<times> parser" where
  "eat c p =
     (let p = ws p
      in case pr_in p of
           x # xs \<Rightarrow> (if x = c then (True, p\<lparr>pr_in := xs\<rparr>) else (False, p\<lparr>pr_ok := False\<rparr>))
         | [] \<Rightarrow> (False, p\<lparr>pr_ok := False\<rparr>))"

definition peek :: "char \<Rightarrow> parser \<Rightarrow> bool \<times> parser" where
  "peek c p = (let p = ws p in (pr_in p \<noteq> [] \<and> hd (pr_in p) = c, p))"

text \<open>One hexadecimal digit; any other character counts as 0.\<close>

definition hex_val :: "char \<Rightarrow> nat" where
  "hex_val h =
     (let k = (of_char h :: nat)
      in if 48 \<le> k \<and> k \<le> 57 then k - 48
         else if 97 \<le> k \<and> k \<le> 102 then k - 97 + 10
         else if 65 \<le> k \<and> k \<le> 70 then k - 65 + 10
         else 0)"

text \<open>The character after a backslash: what it adds to the string, and what is left to read.\<close>

definition escape :: "char \<Rightarrow> string \<Rightarrow> string \<times> string" where
  "escape e cs =
     (if e = CHR 0x22 then ([CHR 0x22], cs)
      else if e = CHR 0x5C then ([CHR 0x5C], cs)
      else if e = CHR ''/'' then ([CHR ''/''], cs)
      else if e = CHR ''n'' then ([CHR 0x0A], cs)
      else if e = CHR ''r'' then ([CHR 0x0D], cs)
      else if e = CHR ''t'' then ([CHR 0x09], cs)
      else if e = CHR ''b'' then ([CHR 0x08], cs)
      else if e = CHR ''f'' then ([CHR 0x0C], cs)
      else if e = CHR ''u'' then
        (if length cs \<ge> 4
         then (let v = foldl (\<lambda>v h. 16 * v + hex_val h) 0 (take 4 cs)
               in (if v < 0x80 then [char_of v] else [], drop 4 cs))
         else ([], cs))
      else ([e], cs))"

lemma escape_length: "length (snd (escape e cs)) \<le> length cs"
  by (simp add: escape_def Let_def)

text \<open>The loop of \<open>parse_string\<close>: stops in front of the closing quote or at the end.\<close>

function string_body :: "string \<Rightarrow> string \<Rightarrow> string \<times> string" where
  "string_body [] s = (s, [])"
| "string_body [c] s = (if c = CHR 0x22 then (s, [c]) else (s @ [c], []))"
| "string_body (c # e # cs) s =
     (if c = CHR 0x22 then (s, c # e # cs)
      else if c = CHR 0x5C then string_body (snd (escape e cs)) (s @ fst (escape e cs))
      else string_body (e # cs) (s @ [c]))"
  by pat_completeness auto
termination
  by (relation "measure (\<lambda>(cs, s). length cs)") (auto simp: le_imp_less_Suc escape_length le_SucI)

definition parse_string :: "parser \<Rightarrow> string \<times> parser" where
  "parse_string p =
     (let (opened, p) = eat CHR 0x22 p
      in if \<not> opened then ([], p)
         else (let (s, rest) = string_body (pr_in p) []; p = p\<lparr>pr_in := rest\<rparr>
               in case pr_in p of
                    c # cs \<Rightarrow> (s, if c = CHR 0x22 then p\<lparr>pr_in := cs\<rparr> else p\<lparr>pr_ok := False\<rparr>)
                  | [] \<Rightarrow> (s, p\<lparr>pr_ok := False\<rparr>)))"

definition number_char :: "char \<Rightarrow> bool" where
  "number_char c \<longleftrightarrow> is_digit c \<or> c = CHR ''-''"

definition parse_u64 :: "parser \<Rightarrow> 64 word \<times> parser" where
  "parse_u64 p =
     (let p = ws p; start = pr_in p; p = p\<lparr>pr_in := dropWhile number_char (pr_in p)\<rparr>
      in (strtoull (takeWhile number_char start), p))"

definition parse_bool :: "parser \<Rightarrow> bool \<times> parser" where
  "parse_bool p =
     (let p = ws p
      in if take 4 (pr_in p) = ''true'' then (True, p\<lparr>pr_in := drop 4 (pr_in p)\<rparr>)
         else if take 5 (pr_in p) = ''false'' then (False, p\<lparr>pr_in := drop 5 (pr_in p)\<rparr>)
         else (False, p\<lparr>pr_ok := False\<rparr>))"

lemma string_body_length: "length (snd (string_body cs s)) \<le> length cs"
proof (induction cs s rule: string_body.induct)
  case (3 c e cs s)
  then show ?case using escape_length [of e cs] by (auto simp: Let_def)
qed auto

lemma ws_length: "length (pr_in (ws p)) \<le> length (pr_in p)"
  by (simp add: ws_def length_dropWhile_le)

lemma eat_length:
  "length (pr_in (snd (eat c p))) + (if fst (eat c p) then 1 else 0) \<le> length (pr_in p)"
  using ws_length [of p] by (auto simp: eat_def Let_def split: list.split)

lemma parse_string_length:
  "length (pr_in (snd (parse_string p))) + (if fst (eat CHR 0x22 p) then 1 else 0) \<le> length (pr_in p)"
proof -
  let ?q = "snd (eat CHR 0x22 p)"
  have "length (snd (string_body (pr_in ?q) [])) \<le> length (pr_in ?q)" by (rule string_body_length)
  then show ?thesis
    using eat_length [of "CHR 0x22" p]
    by (auto simp: parse_string_def Let_def case_prod_beta split: list.split)
qed

text \<open>Skipping a nested value: quoted strings are skipped whole, other brackets are not counted.\<close>

function skip_nested :: "char \<Rightarrow> char \<Rightarrow> nat \<Rightarrow> parser \<Rightarrow> parser" where
  "skip_nested opn cls depth p =
     (if pr_in p \<noteq> [] \<and> depth > 0 then
        if hd (pr_in p) = CHR 0x22 then skip_nested opn cls depth (snd (parse_string p))
        else skip_nested opn cls
          (if hd (pr_in p) = opn then depth + 1 else if hd (pr_in p) = cls then depth - 1 else depth)
          (p\<lparr>pr_in := tl (pr_in p)\<rparr>)
      else p)"
  by pat_completeness auto
termination
proof (relation "measure (\<lambda>(opn, cls, depth, p). length (pr_in p))", goal_cases)
  case (2 opn cls depth p)
  then have "fst (eat CHR 0x22 p)"
    by (cases "pr_in p") (simp_all add: eat_def ws_def is_ws_def)
  then show ?case using parse_string_length [of p] by simp
qed auto

declare skip_nested.simps [simp del]

definition skip_value :: "parser \<Rightarrow> parser" where
  "skip_value p =
     (let p = ws p
      in case pr_in p of
           [] \<Rightarrow> p\<lparr>pr_ok := False\<rparr>
         | c # cs \<Rightarrow>
             if c = CHR 0x22 then snd (parse_string p)
             else if c = CHR ''{'' \<or> c = CHR ''['' then
               (let cls = (if c = CHR ''{'' then CHR ''}'' else CHR '']'')
                in skip_nested c cls 1 (p\<lparr>pr_in := cs\<rparr>))
             else p\<lparr>pr_in := dropWhile (\<lambda>x. x \<noteq> CHR '','' \<and> x \<noteq> CHR ''}'' \<and> x \<noteq> CHR '']'')
                                (pr_in p)\<rparr>)"


section \<open>The loops of the reader functions\<close>

type_synonym 'a parse = "('a + 'a \<times> parser) option"

partial_function (option) object_loop ::
    "(string \<Rightarrow> 'a \<Rightarrow> parser \<Rightarrow> 'a parse) \<Rightarrow> 'a \<Rightarrow> parser \<Rightarrow> 'a parse" where
  "object_loop field a p =
     (let (closed, p) = peek CHR ''}'' p
      in if \<not> closed \<and> pr_ok p then
           (let (key, p) = parse_string p; (colon, p) = eat CHR '':'' p
            in if \<not> colon then Some (Inl a)
               else case field key a p of
                      None \<Rightarrow> None
                    | Some (Inl a) \<Rightarrow> Some (Inl a)
                    | Some (Inr (a, p)) \<Rightarrow>
                        (let (closed, p) = peek CHR ''}'' p;
                             p = (if \<not> closed then snd (eat CHR '','' p) else p)
                         in object_loop field a p))
         else Some (Inr (a, p)))"

definition parse_object ::
    "(string \<Rightarrow> 'a \<Rightarrow> parser \<Rightarrow> 'a parse) \<Rightarrow> 'a \<Rightarrow> parser \<Rightarrow> 'a parse" where
  "parse_object field a p =
     (let (opened, p) = eat CHR ''{'' p
      in if \<not> opened then Some (Inl a)
         else case object_loop field a p of
                None \<Rightarrow> None
              | Some (Inl a) \<Rightarrow> Some (Inl a)
              | Some (Inr (a, p)) \<Rightarrow> Some (Inr (a, snd (eat CHR ''}'' p))))"

partial_function (option) array_loop ::
    "(parser \<Rightarrow> 'b parse) \<Rightarrow> 'b list \<Rightarrow> parser \<Rightarrow> 'b list parse" where
  "array_loop elem xs p =
     (let (closed, p) = peek CHR '']'' p
      in if \<not> closed \<and> pr_ok p then
           (case elem p of
              None \<Rightarrow> None
            | Some (Inl x) \<Rightarrow> Some (Inl xs)
            | Some (Inr (x, p)) \<Rightarrow>
                (let (closed, p) = peek CHR '']'' p;
                     p = (if \<not> closed then snd (eat CHR '','' p) else p)
                 in array_loop elem (xs @ [x]) p))
         else Some (Inr (xs, p)))"

definition parse_array :: "(parser \<Rightarrow> 'b parse) \<Rightarrow> 'b list \<Rightarrow> parser \<Rightarrow> 'b list parse" where
  "parse_array elem xs p =
     (let (opened, p) = eat CHR ''['' p
      in if \<not> opened then Some (Inl xs)
         else case array_loop elem xs p of
                None \<Rightarrow> None
              | Some (Inl xs) \<Rightarrow> Some (Inl xs)
              | Some (Inr (xs, p)) \<Rightarrow> Some (Inr (xs, snd (eat CHR '']'' p))))"

section \<open>The parser never gains input\<close>

text \<open>\<open>shrinks\<close>: no input is given back, and an error is never forgotten.\<close>

definition shrinks :: "parser \<Rightarrow> parser \<Rightarrow> bool" where
  "shrinks p q \<longleftrightarrow> length (pr_in q) \<le> length (pr_in p) \<and> (pr_ok q \<longrightarrow> pr_ok p)"

text \<open>\<open>consumes\<close>: if no error was found, at least one byte was read.\<close>

definition consumes :: "parser \<Rightarrow> parser \<Rightarrow> bool" where
  "consumes p q \<longleftrightarrow> shrinks p q \<and> (pr_ok q \<longrightarrow> length (pr_in q) < length (pr_in p))"

lemma shrinks_refl [simp]: "shrinks p p"
  by (simp add: shrinks_def)

lemma shrinks_trans [trans]: "shrinks p q \<Longrightarrow> shrinks q r \<Longrightarrow> shrinks p r"
  by (simp add: shrinks_def)

lemma consumes_shrinks: "consumes p q \<Longrightarrow> shrinks p q"
  by (simp add: consumes_def)

lemma consumes_trans: "consumes p q \<Longrightarrow> shrinks q r \<Longrightarrow> consumes p r" "shrinks p q \<Longrightarrow> consumes q r \<Longrightarrow> consumes p r"
  by (auto simp: consumes_def shrinks_def)

lemma ws_shrinks: "shrinks p (ws p)"
  using ws_length [of p] by (simp add: shrinks_def ws_def)

lemma peek_shrinks: "shrinks p (snd (peek c p))"
  by (simp add: peek_def Let_def ws_shrinks)

lemma eat_consumes: "consumes p (snd (eat c p))"
  using ws_length [of p] by (auto simp: eat_def consumes_def shrinks_def ws_def Let_def split: list.split)

lemma parse_string_consumes: "consumes p (snd (parse_string p))"
proof -
  have "consumes p (snd (eat CHR 0x22 p))" by (rule eat_consumes)
  moreover have "shrinks (snd (eat CHR 0x22 p)) (snd (parse_string p))"
    using string_body_length [of "pr_in (snd (eat CHR 0x22 p))" "[]"]
    by (auto simp: parse_string_def shrinks_def Let_def case_prod_beta split: list.split)
  ultimately show ?thesis by (rule consumes_trans)
qed

lemma parse_u64_shrinks: "shrinks p (snd (parse_u64 p))"
  using ws_shrinks [of p] length_dropWhile_le [of number_char "pr_in (ws p)"]
  by (simp add: parse_u64_def Let_def shrinks_def)

lemma skip_nested_shrinks: "shrinks p (skip_nested opn cls depth p)"
proof (induction opn cls depth p rule: skip_nested.induct)
  case (1 opn cls depth p)
  show ?case
  proof (cases "pr_in p \<noteq> [] \<and> depth > 0")
    case True
    have "shrinks p (p\<lparr>pr_in := tl (pr_in p)\<rparr>)" by (simp add: shrinks_def)
    then show ?thesis
      using True 1 consumes_shrinks [OF parse_string_consumes [of p]]
      by (subst skip_nested.simps) (auto intro: shrinks_trans)
  next
    case False
    then show ?thesis by (subst skip_nested.simps) auto
  qed
qed

lemma skip_value_shrinks: "shrinks p (skip_value p)"
proof -
  let ?p = "ws p"
  have "shrinks ?p (skip_value p)"
  proof (cases "pr_in ?p")
    case (Cons c cs)
    have "shrinks ?p (?p\<lparr>pr_in := cs\<rparr>)" by (simp add: shrinks_def Cons)
    moreover have "shrinks ?p (?p\<lparr>pr_in := dropWhile P (c # cs)\<rparr>)" for P
      using length_dropWhile_le [of P "c # cs"] by (simp add: shrinks_def Cons)
    ultimately show ?thesis
      using consumes_shrinks [OF parse_string_consumes [of ?p]] skip_nested_shrinks
      by (auto simp: skip_value_def Let_def Cons simp del: dropWhile.simps intro: shrinks_trans)
  qed (simp add: skip_value_def Let_def shrinks_def)
  then show ?thesis using ws_shrinks shrinks_trans by blast
qed

section \<open>When the loops return\<close>

text \<open>
  The contract of the code that handles one member of an object: it returns, and it does
  not give input back. Then the loop over the members returns, and reading a whole object
  consumes input, which is the contract of the code that reads one element of an array.
\<close>

definition returns :: "(parser \<Rightarrow> parser \<Rightarrow> bool) \<Rightarrow> parser \<Rightarrow> 'a parse \<Rightarrow> bool" where
  "returns R p res \<longleftrightarrow>
     (case res of None \<Rightarrow> False | Some (Inl e) \<Rightarrow> True | Some (Inr (a, q)) \<Rightarrow> R p q)"

lemma returns_simps [simp]:
  "\<not> returns R p None" "returns R p (Some (Inl e))" "returns R p (Some (Inr (a, q))) = R p q"
  by (simp_all add: returns_def)

lemma returns_cases:
  assumes "returns R p res"
  obtains e where "res = Some (Inl e)" | a q where "res = Some (Inr (a, q))" "R p q"
  using assms by (auto simp: returns_def split: option.splits sum.splits prod.splits)

locale json_element =
  fixes elem :: "parser \<Rightarrow> 'b parse"
  assumes elem_returns: "returns consumes p (elem p)"
begin

lemma array_loop_returns: "returns shrinks p (array_loop elem xs p)"
proof (induction "if pr_ok p then Suc (length (pr_in p)) else 0" arbitrary: p xs rule: less_induct)
  case less
  let ?p1 = "snd (peek CHR '']'' p)"
  have p1: "shrinks p ?p1" by (rule peek_shrinks)
  show ?case
  proof (cases "\<not> fst (peek CHR '']'' p) \<and> pr_ok ?p1")
    case True
    from elem_returns [of ?p1] show ?thesis
    proof (cases rule: returns_cases)
      case (1 e)
      then show ?thesis using True by (subst array_loop.simps) (simp add: case_prod_beta)
    next
      case (2 x p2)
      let ?p3 = "snd (peek CHR '']'' p2)"
      let ?p4 = "if \<not> fst (peek CHR '']'' p2) then snd (eat CHR '','' ?p3) else ?p3"
      have "shrinks p2 ?p4"
        using peek_shrinks [of p2 "CHR '']''"] consumes_shrinks [OF eat_consumes [of ?p3 "CHR '',''"]]
        by (auto intro: shrinks_trans)
      then have c: "consumes p ?p4" using p1 2(2) by (blast intro: consumes_trans)
      then have "returns shrinks ?p4 (array_loop elem (xs @ [x]) ?p4)"
        using True p1 by (intro less) (auto simp: consumes_def shrinks_def)
      then have "returns shrinks p (array_loop elem (xs @ [x]) ?p4)"
        by (cases rule: returns_cases) (auto intro: shrinks_trans consumes_shrinks [OF c])
      moreover have "array_loop elem xs p = array_loop elem (xs @ [x]) ?p4"
        using True 2(1) by (subst array_loop.simps) (simp add: case_prod_beta Let_def)
      ultimately show ?thesis by (simp only:)
    qed
  next
    case False
    then show ?thesis using p1 by (subst array_loop.simps) (auto simp: case_prod_beta Let_def)
  qed
qed

lemma parse_array_returns: "returns consumes p (parse_array elem xs p)"
proof -
  let ?p = "snd (eat CHR ''['' p)"
  have c: "consumes p ?p" by (rule eat_consumes)
  from array_loop_returns [of ?p xs] show ?thesis
  proof (cases rule: returns_cases)
    case (2 ys q)
    have "shrinks ?p (snd (eat CHR '']'' q))"
      using 2(2) consumes_shrinks [OF eat_consumes] by (blast intro: shrinks_trans)
    then show ?thesis
      using 2(1) consumes_trans(1) [OF c] by (simp add: parse_array_def case_prod_beta Let_def)
  qed (simp add: parse_array_def case_prod_beta Let_def)
qed

end

locale json_field =
  fixes field :: "string \<Rightarrow> 'a \<Rightarrow> parser \<Rightarrow> 'a parse"
  assumes field_returns: "returns shrinks p (field key a p)"
begin

lemma object_loop_returns: "returns shrinks p (object_loop field a p)"
proof (induction "if pr_ok p then Suc (length (pr_in p)) else 0" arbitrary: p a rule: less_induct)
  case less
  let ?p1 = "snd (peek CHR ''}'' p)"
  let ?p2 = "snd (parse_string ?p1)" let ?p3 = "snd (eat CHR '':'' ?p2)"
  have p1: "shrinks p ?p1" by (rule peek_shrinks)
  have p3: "consumes p ?p3"
    using p1 parse_string_consumes [of ?p1] consumes_shrinks [OF eat_consumes [of ?p2 "CHR '':''"]]
    by (blast intro: consumes_trans)
  show ?case
  proof (cases "\<not> fst (peek CHR ''}'' p) \<and> pr_ok ?p1 \<and> fst (eat CHR '':'' ?p2)")
    case True
    from field_returns [of ?p3 "fst (parse_string ?p1)" a] show ?thesis
    proof (cases rule: returns_cases)
      case (1 e)
      then show ?thesis using True by (subst object_loop.simps) (simp add: case_prod_beta Let_def)
    next
      case (2 b p4)
      let ?p5 = "snd (peek CHR ''}'' p4)"
      let ?p6 = "if \<not> fst (peek CHR ''}'' p4) then snd (eat CHR '','' ?p5) else ?p5"
      have "shrinks p4 ?p6"
        using peek_shrinks [of p4 "CHR ''}''"] consumes_shrinks [OF eat_consumes [of ?p5 "CHR '',''"]]
        by (auto intro: shrinks_trans)
      then have c: "consumes p ?p6" using p3 2(2) by (blast intro: consumes_trans)
      then have "returns shrinks ?p6 (object_loop field b ?p6)"
        using True p1 by (intro less) (auto simp: consumes_def shrinks_def)
      then have "returns shrinks p (object_loop field b ?p6)"
        by (cases rule: returns_cases) (auto intro: shrinks_trans consumes_shrinks [OF c])
      moreover have "object_loop field a p = object_loop field b ?p6"
        using True 2(1) by (subst object_loop.simps) (simp add: case_prod_beta Let_def)
      ultimately show ?thesis by (simp only:)
    qed
  next
    case False
    then show ?thesis using p1 by (subst object_loop.simps) (auto simp: case_prod_beta Let_def)
  qed
qed

lemma parse_object_returns: "returns consumes p (parse_object field a p)"
proof -
  let ?p = "snd (eat CHR ''{'' p)"
  have c: "consumes p ?p" by (rule eat_consumes)
  from object_loop_returns [of ?p a] show ?thesis
  proof (cases rule: returns_cases)
    case (2 b q)
    have "shrinks ?p (snd (eat CHR ''}'' q))"
      using 2(2) consumes_shrinks [OF eat_consumes] by (blast intro: shrinks_trans)
    then show ?thesis
      using 2(1) consumes_trans(1) [OF c] by (simp add: parse_object_def case_prod_beta Let_def)
  qed (simp add: parse_object_def case_prod_beta Let_def)
qed

end

sublocale json_field \<subseteq> obj: json_element "parse_object field a" for a
  by unfold_locales (rule parse_object_returns)


section \<open>Reading back what was written\<close>

text \<open>The printed forms the lemmas speak about.\<close>

definition quote :: "string \<Rightarrow> string" where
  "quote s = CHR 0x22 # s @ [CHR 0x22]"

definition escaped :: "string \<Rightarrow> string" where
  "escaped s = quote (concat (map escaped_char s))"

abbreviation reading :: "string \<Rightarrow> parser" where
  "reading s \<equiv> \<lparr>pr_in = s, pr_ok = True\<rparr>"

lemma append_escaped_eq: "append_escaped out s = out @ escaped s"
proof -
  have "foldl (\<lambda>out c. out @ escaped_char c) out s = out @ concat (map escaped_char s)" for out
    by (induction s arbitrary: out) simp_all
  then show ?thesis by (simp add: append_escaped_def escaped_def quote_def)
qed

lemma hex_val_digits: "k < 16 \<Longrightarrow> hex_val (hex_digits ! k) = k"
proof -
  have "\<forall>k \<in> set [0..<16]. hex_val (hex_digits ! k) = k" by code_simp
  then show "k < 16 \<Longrightarrow> hex_val (hex_digits ! k) = k" by auto
qed

lemma string_body_Cons:
  "xs \<noteq> [] \<Longrightarrow> string_body (c # xs) s =
     (if c = CHR 0x22 then (s, c # xs)
      else if c = CHR 0x5C
      then string_body (snd (escape (hd xs) (tl xs))) (s @ fst (escape (hd xs) (tl xs)))
      else string_body xs (s @ [c]))"
  by (cases xs) simp_all

lemma string_body_escaped_char:
  assumes "rest \<noteq> []"
  shows "string_body (escaped_char c @ rest) s = string_body rest (s @ [c])"
proof -
  let ?k = "of_char c :: nat"
  have u: "escape CHR ''u'' (CHR ''0'' # CHR ''0'' # hex_digits ! (?k div 16 mod 16) #
      hex_digits ! (?k mod 16) # rest) = ([c], rest)" if "?k < 32"
  proof -
    have "hex_val CHR ''0'' = 0" by code_simp
    moreover have "hex_val (hex_digits ! (?k div 16 mod 16)) = ?k div 16"
      using that hex_val_digits [of "?k div 16"] by simp
    moreover have "hex_val (hex_digits ! (?k mod 16)) = ?k mod 16" by (simp add: hex_val_digits)
    moreover have "16 * (?k div 16) + ?k mod 16 = ?k" by simp
    ultimately show ?thesis using that by (simp add: escape_def Let_def)
  qed
  show ?thesis
    using assms u by (simp add: escaped_char_def string_body_Cons escape_def [of "CHR 0x22"]
        escape_def [of "CHR 0x5C"] escape_def [of "CHR ''n''"] escape_def [of "CHR ''r''"]
        escape_def [of "CHR ''t''"])
qed

lemma string_body_escaped:
  "string_body (concat (map escaped_char s) @ CHR 0x22 # rest) acc = (acc @ s, CHR 0x22 # rest)"
proof (induction s arbitrary: acc)
  case Nil
  show ?case by (cases rest) simp_all
next
  case (Cons c s)
  then show ?case by (simp add: string_body_escaped_char)
qed

lemma eat_hit [simp]: "\<not> is_ws c \<Longrightarrow> eat c \<lparr>pr_in = c # cs, pr_ok = b\<rparr> = (True, \<lparr>pr_in = cs, pr_ok = b\<rparr>)"
  by (simp add: eat_def ws_def)

lemma peek_char [simp]:
  "\<not> is_ws c \<Longrightarrow> peek d \<lparr>pr_in = c # cs, pr_ok = b\<rparr> = (c = d, \<lparr>pr_in = c # cs, pr_ok = b\<rparr>)"
  by (simp add: peek_def ws_def)

lemma not_ws_punctuation [simp]:
  "\<not> is_ws CHR 0x22" "\<not> is_ws CHR '':''" "\<not> is_ws CHR '',''" "\<not> is_ws CHR ''{''"
  "\<not> is_ws CHR ''}''" "\<not> is_ws CHR ''[''" "\<not> is_ws CHR '']''"
  by (simp_all add: is_ws_def)

lemma parse_string_escaped [simp]:
  "parse_string \<lparr>pr_in = escaped s @ rest, pr_ok = b\<rparr> = (s, \<lparr>pr_in = rest, pr_ok = b\<rparr>)"
  using string_body_escaped [of s rest "[]"] by (simp add: parse_string_def escaped_def quote_def)

text \<open>A key is printed without escapes.\<close>

definition plain_key :: "string \<Rightarrow> bool" where
  "plain_key k \<longleftrightarrow> list_all (\<lambda>c. escaped_char c = [c]) k"

lemma quote_plain: "plain_key k \<Longrightarrow> quote k = escaped k"
proof -
  have "list_all (\<lambda>c. escaped_char c = [c]) k \<Longrightarrow> concat (map escaped_char k) = k"
    by (induction k) auto
  then show "plain_key k \<Longrightarrow> quote k = escaped k" by (simp add: plain_key_def escaped_def)
qed

lemma digits_takeWhile:
  assumes "list_all is_digit ds" and "rest = [] \<or> \<not> number_char (hd rest)"
  shows "takeWhile number_char (ds @ rest) = ds" and "dropWhile number_char (ds @ rest) = rest"
proof -
  have ds: "\<forall>c \<in> set ds. number_char c" using assms(1) by (auto simp: list_all_iff number_char_def)
  then show "takeWhile number_char (ds @ rest) = ds"
    using assms(2) by (cases rest) (simp_all add: takeWhile_append2)
  show "dropWhile number_char (ds @ rest) = rest"
    using ds assms(2) by (cases rest) (simp_all add: dropWhile_append2)
qed

lemma parse_u64_to_string:
  assumes "rest = [] \<or> \<not> number_char (hd rest)"
  shows "parse_u64 \<lparr>pr_in = to_string w @ rest, pr_ok = b\<rparr> = (w, \<lparr>pr_in = rest, pr_ok = b\<rparr>)"
proof -
  have d: "list_all is_digit (to_string w)" by (rule to_string_digits)
  then have "dropWhile is_ws (to_string w @ rest) = to_string w @ rest"
    by (cases "to_string w") (auto simp: is_digit_def is_ws_def)
  then show ?thesis
    using digits_takeWhile [OF d assms] by (simp add: parse_u64_def ws_def strtoull_to_string)
qed

lemma parse_u64_member [simp]:
  "parse_u64 \<lparr>pr_in = to_string w @ CHR '','' # rest, pr_ok = b\<rparr> = (w, \<lparr>pr_in = CHR '','' # rest, pr_ok = b\<rparr>)"
  "parse_u64 \<lparr>pr_in = to_string w @ CHR ''}'' # rest, pr_ok = b\<rparr> = (w, \<lparr>pr_in = CHR ''}'' # rest, pr_ok = b\<rparr>)"
  by (simp_all add: parse_u64_to_string number_char_def is_digit_def)

text \<open>The members of an object one after the other, and its end.\<close>

lemma parse_string_quote [simp]:
  "plain_key k \<Longrightarrow> parse_string \<lparr>pr_in = quote k @ rest, pr_ok = b\<rparr> = (k, \<lparr>pr_in = rest, pr_ok = b\<rparr>)"
  by (simp add: quote_plain)

lemma peek_quote [simp]:
  "peek c \<lparr>pr_in = quote k @ rest, pr_ok = b\<rparr> = (c = CHR 0x22, \<lparr>pr_in = quote k @ rest, pr_ok = b\<rparr>)"
  by (auto simp: quote_def)

lemma object_member:
  assumes "plain_key key"
    and "field key a (reading body) = Some (Inr (a', reading (CHR '','' # rest)))"
  shows "object_loop field a (reading (quote key @ CHR '':'' # body)) = object_loop field a' (reading rest)"
  using assms by (subst object_loop.simps) simp

lemma object_last:
  assumes "plain_key key"
    and "field key a (reading body) = Some (Inr (a', reading (CHR ''}'' # rest)))"
  shows "object_loop field a (reading (quote key @ CHR '':'' # body)) =
    Some (Inr (a', reading (CHR ''}'' # rest)))"
proof -
  have "object_loop field a (reading (quote key @ CHR '':'' # body)) =
      object_loop field a' (reading (CHR ''}'' # rest))"
    using assms by (subst object_loop.simps) simp
  then show ?thesis by (simp add: object_loop.simps)
qed

lemma parse_object_members:
  assumes "object_loop field a (reading members) = Some (Inr (a', reading (CHR ''}'' # rest)))"
  shows "parse_object field a (reading (CHR ''{'' # members)) = Some (Inr (a', reading rest))"
  using assms by (simp add: parse_object_def)

text \<open>
  An element parser with the printer it inverts. The predicate says for which values; a
  replayed request, for instance, is printed without a payload.
\<close>

fun items_text :: "('b \<Rightarrow> string) \<Rightarrow> 'b list \<Rightarrow> string" where
  "items_text f [] = []"
| "items_text f [x] = f x"
| "items_text f (x # y # zs) = f x @ CHR '','' # items_text f (y # zs)"

locale json_codec = json_element elem for elem :: "parser \<Rightarrow> 'b parse" +
  fixes text_of :: "'b \<Rightarrow> string" and valid :: "'b \<Rightarrow> bool"
  assumes elem_text: "valid x \<Longrightarrow> elem (reading (text_of x @ rest)) = Some (Inr (x, reading rest))"
    and text_object: "\<exists>cs. text_of x = CHR ''{'' # cs"
begin

lemma array_loop_items:
  assumes "\<forall>x \<in> set xs. valid x"
  shows "array_loop elem ys (reading (items_text text_of xs @ CHR '']'' # rest)) =
    Some (Inr (ys @ xs, reading (CHR '']'' # rest)))"
  using assms
proof (induction xs arbitrary: ys rule: induct_list012)
  case 1
  show ?case by (subst array_loop.simps) simp
next
  case (2 x)
  obtain cs where cs: "text_of x = CHR ''{'' # cs" using text_object by blast
  have "elem (reading (CHR ''{'' # cs @ CHR '']'' # rest)) = Some (Inr (x, reading (CHR '']'' # rest)))"
    using elem_text [of x "CHR '']'' # rest"] 2 by (simp add: cs)
  then have "array_loop elem ys (reading (text_of x @ CHR '']'' # rest)) =
      array_loop elem (ys @ [x]) (reading (CHR '']'' # rest))"
    by (subst array_loop.simps) (simp add: cs)
  moreover have "array_loop elem (ys @ [x]) (reading (CHR '']'' # rest)) =
      Some (Inr (ys @ [x], reading (CHR '']'' # rest)))"
    by (subst array_loop.simps) simp
  ultimately show ?case by simp
next
  case (3 x y zs)
  let ?more = "items_text text_of (y # zs) @ CHR '']'' # rest"
  obtain cs where cs: "text_of x = CHR ''{'' # cs" using text_object by blast
  have "elem (reading (CHR ''{'' # cs @ CHR '','' # ?more)) = Some (Inr (x, reading (CHR '','' # ?more)))"
    using elem_text [of x "CHR '','' # ?more"] 3 by (simp add: cs)
  then have "array_loop elem ys (reading (text_of x @ CHR '','' # ?more)) =
      array_loop elem (ys @ [x]) (reading ?more)"
    by (subst array_loop.simps) (simp add: cs)
  also have "\<dots> = Some (Inr ((ys @ [x]) @ y # zs, reading (CHR '']'' # rest)))"
    using 3 by simp
  finally show ?case by simp
qed

lemma parse_array_items:
  "\<forall>x \<in> set xs. valid x \<Longrightarrow>
   parse_array elem [] (reading (CHR ''['' # items_text text_of xs @ CHR '']'' # rest)) =
   Some (Inr (xs, reading rest))"
  by (simp add: parse_array_def array_loop_items)

end

end
