(* ===== verification/Failover_Json.thy ===== *)
theory Failover_Json
  imports Json_Parser Color_Checkpoint
begin

text \<open>
  The two JSON formats of \<open>src/wire/failover_json.cc\<close>: the persisted checkpoint and the
  replay body. The reader functions return on every input, and read back what the writer
  functions wrote, whatever bytes the payloads hold.
\<close>

section \<open>Writing\<close>

text \<open>The loop that writes the items of an array, a comma before all but the first.\<close>

fun json_items :: "('b \<Rightarrow> string \<Rightarrow> string) \<Rightarrow> nat \<Rightarrow> 'b list \<Rightarrow> string \<Rightarrow> string" where
  "json_items item i [] s = s"
| "json_items item i (b # bs) s =
     json_items item (Suc i) bs (item b (if i \<noteq> 0 then s @ '','' else s))"

definition json_buffered :: "buffered_response \<Rightarrow> string \<Rightarrow> string" where
  "json_buffered b s =
     (let s = s @ ''{'' @ quote ''seq'' @ '':'' @ to_string (br_seq b) @ '','' @ quote ''payload'' @ '':'';
          s = append_escaped s (br_payload b)
      in s @ '','' @ quote ''hash'' @ '':'' @ to_string (br_hash b) @ ''}'')"

definition checkpoint_to_json :: "checkpoint \<Rightarrow> string" where
  "checkpoint_to_json cp =
     (let s = ''{'' @ quote ''version'' @ '':1'';
          s = s @ '','' @ quote ''committed_upto'' @ '':'' @ to_string (cp_committed_upto cp);
          s = s @ '','' @ quote ''event_count'' @ '':'' @ to_string (cp_event_count cp);
          s = s @ '','' @ quote ''history_hash'' @ '':'' @ to_string (cp_history_hash cp);
          s = s @ '','' @ quote ''buffer'' @ '':['';
          s = json_items json_buffered 0 (cp_buffer cp) s
      in s @ '']}'')"

definition json_event :: "replay_event \<Rightarrow> string \<Rightarrow> string" where
  "json_event e s =
     (let s = s @ ''{'' @ quote ''t'' @ '':'' @ quote (if re_is_response e then ''r'' else ''R'');
          s = s @ '','' @ quote ''seq'' @ '':'' @ to_string (re_seq e);
          s = (if re_is_response e
               then (let s = s @ '','' @ quote ''payload'' @ '':'';
                         s = append_escaped s (re_payload e)
                     in s @ '','' @ quote ''hash'' @ '':'' @ to_string (re_hash e))
               else s)
      in s @ ''}'')"

definition replay_to_json :: "replay \<Rightarrow> string" where
  "replay_to_json rp =
     (let s = ''{'' @ quote ''from'' @ '':'' @ to_string (rp_from rp) @ '','' @ quote ''events'' @ '':['';
          s = json_items json_event 0 (rp_events rp) s
      in s @ '']}'')"

section \<open>Reading\<close>

definition default_buffered :: buffered_response where
  "default_buffered = \<lparr>br_seq = 0, br_payload = [], br_hash = 0\<rparr>"

definition default_event :: replay_event where
  "default_event = \<lparr>re_is_response = False, re_seq = 0, re_payload = [], re_hash = 0\<rparr>"

definition buffered_field :: "string \<Rightarrow> buffered_response \<Rightarrow> parser \<Rightarrow> buffered_response parse" where
  "buffered_field k b p =
     (if k = ''seq'' then (let (v, p) = parse_u64 p in Some (Inr (b\<lparr>br_seq := v\<rparr>, p)))
      else if k = ''payload'' then (let (v, p) = parse_string p in Some (Inr (b\<lparr>br_payload := v\<rparr>, p)))
      else if k = ''hash'' then (let (v, p) = parse_u64 p in Some (Inr (b\<lparr>br_hash := v\<rparr>, p)))
      else Some (Inr (b, skip_value p)))"

definition checkpoint_field :: "string \<Rightarrow> checkpoint \<Rightarrow> parser \<Rightarrow> checkpoint parse" where
  "checkpoint_field key out p =
     (if key = ''committed_upto''
      then (let (v, p) = parse_u64 p in Some (Inr (out\<lparr>cp_committed_upto := v\<rparr>, p)))
      else if key = ''event_count''
      then (let (v, p) = parse_u64 p in Some (Inr (out\<lparr>cp_event_count := v\<rparr>, p)))
      else if key = ''history_hash''
      then (let (v, p) = parse_u64 p in Some (Inr (out\<lparr>cp_history_hash := v\<rparr>, p)))
      else if key = ''buffer''
      then (case parse_array (parse_object buffered_field default_buffered) (cp_buffer out) p of
              None \<Rightarrow> None
            | Some (Inl bs) \<Rightarrow> Some (Inl (out\<lparr>cp_buffer := bs\<rparr>))
            | Some (Inr (bs, p)) \<Rightarrow> Some (Inr (out\<lparr>cp_buffer := bs\<rparr>, p)))
      else Some (Inr (out, skip_value p)))"

definition event_field :: "string \<Rightarrow> replay_event \<Rightarrow> parser \<Rightarrow> replay_event parse" where
  "event_field k e p =
     (if k = ''t'' then (let (v, p) = parse_string p in Some (Inr (e\<lparr>re_is_response := (v = ''r'')\<rparr>, p)))
      else if k = ''seq'' then (let (v, p) = parse_u64 p in Some (Inr (e\<lparr>re_seq := v\<rparr>, p)))
      else if k = ''payload'' then (let (v, p) = parse_string p in Some (Inr (e\<lparr>re_payload := v\<rparr>, p)))
      else if k = ''hash'' then (let (v, p) = parse_u64 p in Some (Inr (e\<lparr>re_hash := v\<rparr>, p)))
      else Some (Inr (e, skip_value p)))"

definition replay_field :: "string \<Rightarrow> replay \<Rightarrow> parser \<Rightarrow> replay parse" where
  "replay_field key out p =
     (if key = ''from'' then (let (v, p) = parse_u64 p in Some (Inr (out\<lparr>rp_from := v\<rparr>, p)))
      else if key = ''events''
      then (case parse_array (parse_object event_field default_event) (rp_events out) p of
              None \<Rightarrow> None
            | Some (Inl es) \<Rightarrow> Some (Inl (out\<lparr>rp_events := es\<rparr>))
            | Some (Inr (es, p)) \<Rightarrow> Some (Inr (out\<lparr>rp_events := es\<rparr>, p)))
      else Some (Inr (out, skip_value p)))"

text \<open>
  The result of a reader: \<open>None\<close> if it does not return, otherwise the value it returns and
  what it leaves in the output parameter, which is also filled, up to the error, when the
  value is \<open>false\<close>.
\<close>

definition read_result :: "'a parse \<Rightarrow> (bool \<times> 'a) option" where
  "read_result res =
     (case res of
        None \<Rightarrow> None
      | Some (Inl out) \<Rightarrow> Some (False, out)
      | Some (Inr (out, p)) \<Rightarrow> Some (pr_ok p, out))"

definition from_json_checkpoint :: "string \<Rightarrow> (bool \<times> checkpoint) option" where
  "from_json_checkpoint s = read_result (parse_object checkpoint_field default_checkpoint (reading s))"

definition from_json_replay :: "string \<Rightarrow> (bool \<times> replay) option" where
  "from_json_replay s = read_result (parse_object replay_field default_replay (reading s))"

section \<open>The readers return\<close>

lemma leaf_shrinks:
  "shrinks p (snd (parse_u64 p))" "shrinks p (snd (parse_string p))" "shrinks p (skip_value p)"
  using parse_u64_shrinks consumes_shrinks [OF parse_string_consumes] skip_value_shrinks by auto

interpretation buffered: json_field buffered_field
  by unfold_locales (simp add: buffered_field_def case_prod_beta Let_def leaf_shrinks)

interpretation event: json_field event_field
  by unfold_locales (simp add: event_field_def case_prod_beta Let_def leaf_shrinks)

lemma array_field_returns:
  assumes "returns consumes p res"
  shows "returns shrinks p (case res of None \<Rightarrow> None | Some (Inl bs) \<Rightarrow> Some (Inl (f bs))
    | Some (Inr (bs, q)) \<Rightarrow> Some (Inr (f bs, q)))"
  using assms by (cases rule: returns_cases) (auto intro: consumes_shrinks)

interpretation checkpoint: json_field checkpoint_field
proof
  fix p key a
  show "returns shrinks p (checkpoint_field key a p)"
    using array_field_returns [OF buffered.obj.parse_array_returns,
        where f = "\<lambda>bs. a\<lparr>cp_buffer := bs\<rparr>"]
    by (simp add: checkpoint_field_def case_prod_beta Let_def leaf_shrinks)
qed

interpretation replay: json_field replay_field
proof
  fix p key a
  show "returns shrinks p (replay_field key a p)"
    using array_field_returns [OF event.obj.parse_array_returns,
        where f = "\<lambda>es. a\<lparr>rp_events := es\<rparr>"]
    by (simp add: replay_field_def case_prod_beta Let_def leaf_shrinks)
qed

lemma read_result_returns: "returns R p res \<Longrightarrow> \<exists>r. read_result res = Some r"
  by (erule returns_cases) (auto simp: read_result_def)

lemma from_json_returns:
  "\<exists>r. from_json_checkpoint s = Some r" "\<exists>r. from_json_replay s = Some r"
  unfolding from_json_checkpoint_def from_json_replay_def
  by (rule read_result_returns, rule checkpoint.parse_object_returns)
     (rule read_result_returns, rule replay.parse_object_returns)

section \<open>Round trips\<close>

lemma json_items_eq:
  assumes "\<And>b s. item b s = s @ text_of b"
  shows "json_items item 0 bs s = s @ items_text text_of bs"
proof -
  have tail: "json_items item (Suc i) (b # bs) s = s @ CHR '','' # items_text text_of (b # bs)" for i b bs s
  proof (induction bs arbitrary: i b s)
    case (Cons c bs)
    show ?case using Cons.IH [of "Suc i" c "s @ CHR '','' # text_of b"] by (simp add: assms)
  qed (simp add: assms)
  show ?thesis
  proof (cases "(text_of, bs)" rule: items_text.cases)
    case (3 f b c cs)
    then show ?thesis using tail [of 0 c cs "s @ text_of b"] by (simp add: assms)
  qed (simp_all add: assms)
qed

lemma plain_keys [simp]:
  "plain_key ''seq''" "plain_key ''payload''" "plain_key ''hash''" "plain_key ''t''"
  "plain_key ''r''" "plain_key ''R''" "plain_key ''from''" "plain_key ''events''"
  "plain_key ''version''" "plain_key ''committed_upto''" "plain_key ''event_count''"
  "plain_key ''history_hash''" "plain_key ''buffer''"
  by (simp_all add: plain_key_def escaped_char_def)

definition buffered_text :: "buffered_response \<Rightarrow> string" where
  "buffered_text b = CHR ''{'' # quote ''seq'' @ CHR '':'' # to_string (br_seq b) @ CHR '','' #
     quote ''payload'' @ CHR '':'' # escaped (br_payload b) @ CHR '','' #
     quote ''hash'' @ CHR '':'' # to_string (br_hash b) @ [CHR ''}'']"

lemma json_buffered_eq: "json_buffered b s = s @ buffered_text b"
  by (simp add: json_buffered_def buffered_text_def append_escaped_eq)

lemma parse_buffered:
  "parse_object buffered_field default_buffered (reading (buffered_text b @ rest)) =
   Some (Inr (b, reading rest))"
proof -
  have "object_loop buffered_field default_buffered
      (reading (quote ''seq'' @ CHR '':'' # to_string (br_seq b) @ CHR '','' #
        quote ''payload'' @ CHR '':'' # escaped (br_payload b) @ CHR '','' #
        quote ''hash'' @ CHR '':'' # to_string (br_hash b) @ CHR ''}'' # rest)) =
    Some (Inr (b, reading (CHR ''}'' # rest)))"
    by (subst object_member, simp, simp add: buffered_field_def)
       (subst object_member, simp, simp add: buffered_field_def,
        subst object_last, simp, simp add: buffered_field_def, simp add: default_buffered_def)
  then show ?thesis by (simp add: buffered_text_def parse_object_members)
qed


interpretation buffered_codec: json_codec "parse_object buffered_field default_buffered" buffered_text "\<lambda>_. True"
  by unfold_locales (simp_all add: parse_buffered, simp add: buffered_text_def)

text \<open>A replayed request is written without payload and hash.\<close>

definition event_valid :: "replay_event \<Rightarrow> bool" where
  "event_valid e \<longleftrightarrow> (re_is_response e \<or> re_payload e = [] \<and> re_hash e = 0)"

definition event_text :: "replay_event \<Rightarrow> string" where
  "event_text e = CHR ''{'' # quote ''t'' @ CHR '':'' # quote (if re_is_response e then ''r'' else ''R'') @
     CHR '','' # quote ''seq'' @ CHR '':'' # to_string (re_seq e) @
     (if re_is_response e
      then CHR '','' # quote ''payload'' @ CHR '':'' # escaped (re_payload e) @ CHR '','' #
           quote ''hash'' @ CHR '':'' # to_string (re_hash e) @ [CHR ''}'']
      else [CHR ''}''])"

lemma json_event_eq: "json_event e s = s @ event_text e"
  by (simp add: json_event_def event_text_def append_escaped_eq)

lemma parse_event:
  assumes "event_valid e"
  shows "parse_object event_field default_event (reading (event_text e @ rest)) =
    Some (Inr (e, reading rest))"
proof (cases "re_is_response e")
  case True
  have "object_loop event_field default_event
      (reading (quote ''t'' @ CHR '':'' # quote ''r'' @ CHR '','' #
        quote ''seq'' @ CHR '':'' # to_string (re_seq e) @ CHR '','' #
        quote ''payload'' @ CHR '':'' # escaped (re_payload e) @ CHR '','' #
        quote ''hash'' @ CHR '':'' # to_string (re_hash e) @ CHR ''}'' # rest)) =
    Some (Inr (e, reading (CHR ''}'' # rest)))"
    using True
    by (subst object_member, simp, simp add: event_field_def)
       (subst object_member, simp, simp add: event_field_def,
        subst object_member, simp, simp add: event_field_def,
        subst object_last, simp, simp add: event_field_def, simp add: default_event_def)
  then show ?thesis using True by (simp add: event_text_def parse_object_members)
next
  case False
  have "object_loop event_field default_event
      (reading (quote ''t'' @ CHR '':'' # quote ''R'' @ CHR '','' #
        quote ''seq'' @ CHR '':'' # to_string (re_seq e) @ CHR ''}'' # rest)) =
    Some (Inr (e, reading (CHR ''}'' # rest)))"
    using False assms
    by (subst object_member, simp, simp add: event_field_def)
       (subst object_last, simp, simp add: event_field_def, simp add: default_event_def event_valid_def)
  then show ?thesis using False by (simp add: event_text_def parse_object_members)
qed

interpretation event_codec: json_codec "parse_object event_field default_event" event_text event_valid
  by unfold_locales (simp_all add: parse_event, simp add: event_text_def)

lemma checkpoint_read_back:
  "from_json_checkpoint (checkpoint_to_json cp @ junk) = Some (True, cp)"
proof -
  have printed: "checkpoint_to_json cp @ junk =
      CHR ''{'' # quote ''version'' @ CHR '':'' # CHR ''1'' # CHR '','' #
      quote ''committed_upto'' @ CHR '':'' # to_string (cp_committed_upto cp) @ CHR '','' #
      quote ''event_count'' @ CHR '':'' # to_string (cp_event_count cp) @ CHR '','' #
      quote ''history_hash'' @ CHR '':'' # to_string (cp_history_hash cp) @ CHR '','' #
      quote ''buffer'' @ CHR '':'' # CHR ''['' # items_text buffered_text (cp_buffer cp) @
      CHR '']'' # CHR ''}'' # junk"
    by (simp add: checkpoint_to_json_def json_items_eq [OF json_buffered_eq])
  have one: "skip_value (reading (CHR ''1'' # CHR '','' # rest)) = reading (CHR '','' # rest)" for rest
    by (simp add: skip_value_def ws_def is_ws_def)
  have "parse_object checkpoint_field default_checkpoint (reading (checkpoint_to_json cp @ junk)) =
    Some (Inr (cp, reading junk))"
    unfolding printed
    by (rule parse_object_members)
       (subst object_member, simp, simp add: checkpoint_field_def one,
        subst object_member, simp, simp add: checkpoint_field_def,
        subst object_member, simp, simp add: checkpoint_field_def,
        subst object_member, simp, simp add: checkpoint_field_def,
        subst object_last, simp,
        simp add: checkpoint_field_def default_checkpoint_def buffered_codec.parse_array_items,
        simp add: default_checkpoint_def)
  then show ?thesis by (simp add: from_json_checkpoint_def read_result_def)
qed

lemma replay_read_back:
  assumes "\<forall>e \<in> set (rp_events rp). event_valid e"
  shows "from_json_replay (replay_to_json rp @ junk) = Some (True, rp)"
proof -
  have printed: "replay_to_json rp @ junk =
      CHR ''{'' # quote ''from'' @ CHR '':'' # to_string (rp_from rp) @ CHR '','' #
      quote ''events'' @ CHR '':'' # CHR ''['' # items_text event_text (rp_events rp) @
      CHR '']'' # CHR ''}'' # junk"
    by (simp add: replay_to_json_def json_items_eq [OF json_event_eq])
  have "parse_object replay_field default_replay (reading (replay_to_json rp @ junk)) =
    Some (Inr (rp, reading junk))"
    unfolding printed
    by (rule parse_object_members)
       (subst object_member, simp, simp add: replay_field_def,
        subst object_last, simp,
        simp add: replay_field_def default_replay_def event_codec.parse_array_items [OF assms],
        simp add: default_replay_def)
  then show ?thesis by (simp add: from_json_replay_def read_result_def)
qed

end
