(* ===== verification/Failover_Properties.thy ===== *)
theory Failover_Properties
  imports Demo_Run Failover_Json
begin

text \<open>
  Properties of checkpoints, replays and their JSON forms, and three weaknesses of the
  failover path, each stated as what the code does.
\<close>

section \<open>Lemmas\<close>

text \<open>The number of events a replay leaves a server with.\<close>

lemma ingest_fold_history:
  "srv_history (fold ingest_event es s) = fold history_push (map event_of es) (srv_history s)"
proof (induction es arbitrary: s)
  case (Cons e es)
  have "srv_history (ingest_event e s) = history_push (event_of e) (srv_history s)"
    by (simp add: ingest_event_def Let_def history_append_eq event_of_def case_prod_beta)
  then show ?case using Cons by simp
qed simp

lemma ingest_event_committed:
  "srv_committed_upto s \<le> srv_committed_upto (ingest_event e s)"
  "\<not> re_is_response e \<Longrightarrow> re_seq e \<le> srv_committed_upto (ingest_event e s)"
  by (auto simp: ingest_event_def Let_def case_prod_beta)

lemma ingest_fold_committed:
  "srv_committed_upto s \<le> srv_committed_upto (fold ingest_event es s) \<and>
   (\<forall>e \<in> set es. \<not> re_is_response e \<longrightarrow> re_seq e \<le> srv_committed_upto (fold ingest_event es s))"
proof (induction es arbitrary: s)
  case (Cons e es)
  let ?t = "fold ingest_event es (ingest_event e s)"
  have "srv_committed_upto (ingest_event e s) \<le> srv_committed_upto ?t" using Cons.IH by blast
  then have "srv_committed_upto s \<le> srv_committed_upto ?t"
    "\<not> re_is_response e \<Longrightarrow> re_seq e \<le> srv_committed_upto ?t"
    using ingest_event_committed(1) [of s e] ingest_event_committed(2) [of e s] order_trans by blast+
  then show ?case using Cons.IH [of "ingest_event e s"] by simp
qed simp


text \<open>The buffer a restored server checkpoints again.\<close>

lemma put_fresh_list:
  assumes "distinct (map f xs)" and "f ` set xs \<inter> fst ` set m = {}"
  shows "fold (\<lambda>x. um_put (f x) (g x)) xs m = m @ map (\<lambda>x. (f x, g x)) xs"
  using assms
proof (induction xs arbitrary: m)
  case (Cons x xs)
  have put: "k \<notin> fst ` set m \<Longrightarrow> um_put k v m = m @ [(k, v)]" for k v
    by (induction m) auto
  have "um_put (f x) (g x) m = m @ [(f x, g x)]" using Cons.prems(2) by (intro put) auto
  then show ?case using Cons by auto
qed simp

lemma restored_buffer:
  assumes "distinct (map br_seq (cp_buffer cp))"
  shows "cp_buffer (server_checkpoint (server_restore cp sh w)) = cp_buffer cp"
proof -
  let ?s = "server_restore cp sh w"
  have "srv_resp_buffer ?s = map (\<lambda>b. (br_seq b, br_payload b)) (cp_buffer cp)"
    unfolding server_restore_fields using put_fresh_list [OF assms, of "[]" br_payload] by simp
  moreover have "um_find (srv_req_hash ?s) (br_seq b) = Some (br_hash b)" if "b \<in> set (cp_buffer cp)" for b
    using that assms unfolding server_restore_find(2) [OF assms]
    by (auto simp: map_of_eq_Some_iff comp_def image_iff)
  ultimately show ?thesis by (simp add: server_checkpoint_def map_idI)
qed

section \<open>Checkpoints\<close>

text \<open>A restarted server has the state its checkpoint describes: checkpointing it at once gives the
  same data again, as a multiset of buffered responses, whatever order the buffer was
  written in.\<close>

lemma restart_keeps_checkpoint:
  assumes "distinct (map br_seq (cp_buffer cp))" and "mset bs = mset (cp_buffer cp)"
    and "cp' = server_checkpoint (server_restore (cp\<lparr>cp_buffer := bs\<rparr>) set_hash w)"
  shows "cp_committed_upto cp' = cp_committed_upto cp \<and> cp_event_count cp' = cp_event_count cp \<and>
    cp_history_hash cp' = cp_history_hash cp \<and> mset (cp_buffer cp') = mset (cp_buffer cp)"
proof -
  have "distinct (map br_seq bs)"
    using assms(1,2) mset_eq_imp_distinct_iff [of "map br_seq bs" "map br_seq (cp_buffer cp)"] by simp
  then have "cp_buffer cp' = bs"
    using restored_buffer [of "cp\<lparr>cp_buffer := bs\<rparr>" set_hash w] assms(3) by simp
  then show ?thesis
    using assms(2,3) by (simp add: server_checkpoint_def server_restore_fields history_resume_def event_count_def)
qed



section \<open>The JSON forms\<close>

text \<open>C22: reading a checkpoint file gives back the checkpoint that was written, for every id, every
  hash and every payload, control characters, quotes and bytes above 127 included, and
  whatever follows it in the file.\<close>

theorem checkpoint_json_roundtrip:
  "from_json_checkpoint (checkpoint_to_json cp @ junk) = Some (True, cp)"
  by (rule checkpoint_read_back)

text \<open>A replay built by a client arrives at the server as it was built.\<close>

lemma replay_json_roundtrip:
  "from_json_replay (replay_to_json (build_replay n c) @ junk) = Some (True, build_replay n c)"
proof (rule replay_read_back)
  show "\<forall>e \<in> set (rp_events (build_replay n c)). event_valid e"
    by (auto simp: build_replay_def replay_event_of_def event_valid_def Let_def split: option.split)
qed

text \<open>Both readers return on every input, well-formed or not.\<close>

lemma json_readers_return:
  "(\<exists>r. from_json_checkpoint s = Some r) \<and> (\<exists>r. from_json_replay s = Some r)"
  using from_json_returns by blast

section \<open>Weaknesses of the failover path\<close>

text \<open>C38: a replay that leaves out more than the server holds is not detected: all its events are
  appended to the shorter history, and the high-water mark jumps over requests the server
  has never seen, which it then treats as committed.\<close>

theorem stale_replay_not_detected:
  assumes "event_count (srv_history s) < rp_from rp"
  shows "srv_history (ingest_replay rp s) =
      fold history_push (map event_of (rp_events rp)) (srv_history s) \<and>
    (\<forall>e \<in> set (rp_events rp). \<not> re_is_response e \<longrightarrow>
      re_seq e \<le> srv_committed_upto (ingest_replay rp s))"
proof
  have i: "ingest_replay rp s = fold ingest_event (rp_events rp) s"
    using assms by (simp add: ingest_replay_def Let_def)
  then show "srv_history (ingest_replay rp s) =
      fold history_push (map event_of (rp_events rp)) (srv_history s)"
    by (simp add: ingest_fold_history)
  show "\<forall>e \<in> set (rp_events rp). \<not> re_is_response e \<longrightarrow>
      re_seq e \<le> srv_committed_upto (ingest_replay rp s)"
    using ingest_fold_committed [of s "rp_events rp"] by (simp add: i)
qed

theorem stale_replay_not_detected_witness:
  "h_events (srv_history (ingest_replay
     \<lparr>rp_from = 1, rp_events = [\<lparr>re_is_response = False, re_seq = 2, re_payload = [], re_hash = 0\<rparr>]\<rparr>
     (server_new True (0 :: nat)))) = [Rq 2]"
proof -
  let ?rp = "\<lparr>rp_from = 1, rp_events = [\<lparr>re_is_response = False, re_seq = 2, re_payload = [], re_hash = 0\<rparr>]\<rparr>"
  have "event_count (srv_history (server_new True (0 :: nat))) < rp_from ?rp"
    by (simp add: event_count_def server_new_def history_new_def)
  from stale_replay_not_detected [OF this] show ?thesis
    by (simp add: event_of_def server_new_def history_new_def)
qed

text \<open>C39: a request that a replay declared committed and unanswered is forgotten by the next
  checkpoint: after a second restart its retransmission is answered with an empty no-op,
  so the application never processes it.\<close>

theorem owed_answer_lost_by_second_crash:
  assumes "req_seq r \<in> srv_awaiting s" and "req_seq r \<notin> um_keys (srv_resp_buffer s)"
    and "um_wf (srv_resp_buffer s)"
    and "req_seq r \<le> srv_committed_upto s" and "\<not> needs_recover r s"
  shows "\<exists>x v. on_request app r (server_restore (server_checkpoint s) set_hash w) = ([x], v) \<and>
    rsp_no_op x \<and> rsp_payload x = [] \<and> srv_world v = w"
proof -
  let ?v = "server_restore (server_checkpoint s) set_hash w"
  have d: "distinct (map br_seq (cp_buffer (server_checkpoint s)))"
    using assms(3) by (simp add: server_checkpoint_def um_wf_def comp_def case_prod_beta)
  have com: "srv_committed_upto ?v = srv_committed_upto s" "srv_awaiting ?v = {}" "srv_world ?v = w"
    by (simp_all add: server_restore_fields server_checkpoint_def)
  have "um_find (srv_resp_buffer ?v) (req_seq r) = None"
    unfolding server_restore_find(1) [OF d]
    using assms(2) by (auto simp: map_of_eq_None_iff server_checkpoint_def dom_map_of_conv_image_fst)
  moreover have "um_wf (srv_resp_buffer ?v)"
    unfolding server_restore_fields by (intro umap.wf_put_list) simp
  ultimately have "um_find (srv_resp_buffer (release_acked r ?v)) (req_seq r) = None"
    by (simp add: release_acked_find)
  moreover have "\<not> needs_recover r ?v" using assms(5) com(1) needs_recover_cong [of ?v s r] by simp
  ultimately show ?thesis using assms(4) com on_request_no_op [of r ?v app] by simp
qed

theorem owed_answer_lost_by_second_crash_witness:
  "\<exists>x v. on_request demo_app (default_request\<lparr>req_seq := 1, req_payload := ''a''\<rparr>)
      (server_restore (server_checkpoint owing) True 0) = ([x], v) \<and> rsp_no_op x \<and> rsp_payload x = []"
proof -
  let ?r = "default_request\<lparr>req_seq := 1, req_payload := ''a''\<rparr>"
  have "req_seq ?r \<in> srv_awaiting owing" "req_seq ?r \<notin> um_keys (srv_resp_buffer owing)"
    "um_wf (srv_resp_buffer owing)" "req_seq ?r \<le> srv_committed_upto owing" "\<not> needs_recover ?r owing"
    by (simp_all add: owing_def server_new_def needs_recover_def)
  from owed_answer_lost_by_second_crash [OF this, of demo_app True 0] show ?thesis by blast
qed

text \<open>C40: a server that restarted behind cannot be brought back by retransmissions alone: if the only
  request the client still waits for is not the next one and acknowledges nothing the server
  lacks, every copy of it is parked, and no copy is ever answered or asks for a recovery.\<close>

theorem retransmission_alone_stalls:
  assumes "\<not> needs_recover r s" and "req_seq r > srv_committed_upto s"
    and "req_seq r \<noteq> srv_committed_upto s + 1"
    and "um_find (srv_pending_reqs s) (srv_committed_upto s + 1) = None"
  shows "fst (on_request app r (((\<lambda>t. snd (on_request app r t)) ^^ n) s)) = []"
proof -
  let ?P = "\<lambda>t. srv_committed_upto t = srv_committed_upto s \<and>
    um_find (srv_pending_reqs t) (srv_committed_upto s + 1) = None"
  have turn: "fst (on_request app r t) = [] \<and> ?P (snd (on_request app r t))" if "?P t" for t
  proof -
    have "\<not> needs_recover r t" "\<not> req_seq r \<le> srv_committed_upto t"
      using that assms(1,2) needs_recover_cong [of t s r] by (simp_all add: not_le)
    then show ?thesis
      using that assms(3)
      by (simp add: on_request_new commit_loop_unfold [of app] stage_def um_simps)
  qed
  have "?P (((\<lambda>t. snd (on_request app r t)) ^^ n) s)"
    by (induction n) (use assms(4) turn in auto)
  then show ?thesis using turn by blast
qed

theorem retransmission_alone_stalls_witness:
  "fst (on_request demo_app (c2s two_requests ! 0)
     (((\<lambda>t. snd (on_request demo_app (c2s two_requests ! 0) t)) ^^ 5) (sv crashed))) = []"
proof (rule retransmission_alone_stalls)
  show "\<not> needs_recover (c2s two_requests ! 0) (sv crashed)"
    "srv_committed_upto (sv crashed) < req_seq (c2s two_requests ! 0)"
    "req_seq (c2s two_requests ! 0) \<noteq> srv_committed_upto (sv crashed) + 1"
    "um_find (srv_pending_reqs (sv crashed)) (srv_committed_upto (sv crashed) + 1) = None"
    by (simp_all add: needs_recover_def crashed_value requests_value word_less_nat_alt)
qed

end
