(* ===== verification/Http_Headers.thy ===== *)
theory Http_Headers
  imports Color_Message
begin

text \<open>
  The Color headers as text: how the client writes a request into header lines
  (\<open>header_lines\<close> in \<open>src/client/color_http_client.cc\<close>), how the interceptor reads
  header values (\<open>parse_csv\<close> and \<open>parse_u64\<close> in \<open>src/server/color_interceptor.cc\<close>),
  and how the libcurl callback splits the response header lines (\<open>write_header\<close> in
  \<open>src/client/curl_transport.cc\<close>). A \<open>std::map\<close> of headers is an association list.
\<close>

section \<open>Request headers\<close>

text \<open>The loop that joins the acknowledged ids with commas.\<close>

fun ack_items :: "nat \<Rightarrow> seq list \<Rightarrow> string \<Rightarrow> string" where
  "ack_items i [] acks = acks"
| "ack_items i (a # as) acks =
     ack_items (Suc i) as ((if i \<noteq> 0 then acks @ '','' else acks) @ to_string a)"

definition header_lines :: "request \<Rightarrow> string list" where
  "header_lines r =
     (let h = [''Color-Seq: '' @ to_string (req_seq r)];
          h = h @ [''Color-Ack-Base: '' @ to_string (req_ack_base r)];
          acks = ack_items 0 (req_ack_new r) [];
          h = h @ [''Color-Ack-New: '' @ acks];
          h = (case req_hash r of Some x \<Rightarrow> h @ [''Color-Hash: '' @ to_string x] | None \<Rightarrow> h)
      in h @ [''Content-Type: application/json''])"

text \<open>The argument of the loop is the part of the header value from index \<open>i\<close> on.\<close>

function csv_loop :: "string \<Rightarrow> seq list \<Rightarrow> seq list" where
  "csv_loop s out =
     (if s = [] then out
      else (let field = takeWhile (\<lambda>c. c \<noteq> CHR '','') s;
                out = (if field \<noteq> [] then out @ [strtoull field] else out)
            in csv_loop (drop (Suc (length field)) s) out))"
  by pat_completeness auto
termination by (relation "measure (\<lambda>(s, out). length s)") (auto simp: neq_Nil_conv)

declare csv_loop.simps [simp del]

definition parse_csv :: "string \<Rightarrow> seq list" where
  "parse_csv s = csv_loop s []"

definition header_u64 :: "string \<Rightarrow> seq \<Rightarrow> seq" where
  "header_u64 s dflt = (if s = [] then dflt else strtoull s)"

section \<open>Response headers\<close>

definition tolower :: "char \<Rightarrow> char" where
  "tolower c = (if 65 \<le> (of_char c :: nat) \<and> (of_char c :: nat) \<le> 90 then char_of ((of_char c :: nat) + 32) else c)"

text \<open>\<open>trim\<close>: line ends and blanks at the end, blanks at the start.\<close>

definition trim :: "string \<Rightarrow> string" where
  "trim s =
     (let s = rev (dropWhile (\<lambda>c. c = CHR 0x0D \<or> c = CHR 0x0A \<or> c = CHR '' '') (rev s))
      in dropWhile (\<lambda>c. c = CHR '' '') s)"

definition write_header :: "string \<Rightarrow> (string, string) umap \<Rightarrow> (string, string) umap" where
  "write_header line headers =
     (if CHR '':'' \<in> set line
      then (let key = takeWhile (\<lambda>c. c \<noteq> CHR '':'') line;
                val = tl (dropWhile (\<lambda>c. c \<noteq> CHR '':'') line);
                key = map tolower key
            in um_put (trim key) (trim val) headers)
      else headers)"

section \<open>Reading back a list of ids\<close>

lemma ack_items_eq:
  "ack_items (Suc i) as s = s @ concat (map (\<lambda>a. CHR '','' # to_string a) as)"
  by (induction as arbitrary: i s) simp_all

lemma to_string_no_comma: "takeWhile (\<lambda>c. c \<noteq> CHR '','') (to_string a @ rest) =
    to_string a @ takeWhile (\<lambda>c. c \<noteq> CHR '','') rest"
proof (rule takeWhile_append2)
  fix c assume "c \<in> set (to_string a)"
  then have "is_digit c" using to_string_digits by (auto simp: list_all_iff)
  then show "c \<noteq> CHR '',''" by (auto simp: is_digit_def)
qed

lemma csv_loop_items:
  "csv_loop (to_string a @ concat (map (\<lambda>a. CHR '','' # to_string a) as)) out = out @ a # as"
proof (induction as arbitrary: a out)
  case Nil
  have "takeWhile (\<lambda>c. c \<noteq> CHR '','') (to_string a) = to_string a"
    using to_string_no_comma [of a "[]"] by simp
  then show ?case
    by (subst csv_loop.simps)
       (simp add: Let_def csv_loop.simps [of "[]"] strtoull_to_string del: takeWhile_eq_all_conv)
next
  case (Cons b bs)
  have "takeWhile (\<lambda>c. c \<noteq> CHR '','') (to_string a @ CHR '','' # rest) = to_string a" for rest
    using to_string_no_comma [of a "CHR '','' # rest"] by simp
  then show ?case
    using Cons.IH [of b "out @ [a]"] by (subst csv_loop.simps) (simp add: Let_def strtoull_to_string)
qed

lemma parse_csv_acks: "parse_csv (ack_items 0 as []) = as"
  using csv_loop_items [of "hd as" "tl as" "[]"]
  by (cases as) (simp_all add: parse_csv_def csv_loop.simps [of "[]"] ack_items_eq)

lemma header_u64_to_string [simp]: "header_u64 (to_string w) d = w"
  by (simp add: header_u64_def strtoull_to_string)

section \<open>Header lines and header values\<close>

text \<open>
  The value a peer sees for a header, given the lines that were sent: what follows
  \<open>Name: \<close> in the line with that name, and the empty string if there is none. A line
  whose value is empty may be left out on the way, which makes no difference.
\<close>

definition line_value :: "string list \<Rightarrow> string \<Rightarrow> string" where
  "line_value lines name =
     (case List.find (\<lambda>l. take (length name + 2) l = name @ '': '') lines of
        Some l \<Rightarrow> drop (length name + 2) l | None \<Rightarrow> [])"

lemma header_lines_values:
  "line_value (header_lines r) ''Color-Seq'' = to_string (req_seq r)"
  "line_value (header_lines r) ''Color-Ack-Base'' = to_string (req_ack_base r)"
  "line_value (header_lines r) ''Color-Ack-New'' = ack_items 0 (req_ack_new r) []"
  "line_value (header_lines r) ''Color-Hash'' =
     (case req_hash r of Some h \<Rightarrow> to_string h | None \<Rightarrow> [])"
  "line_value (header_lines r) ''Color-Replay'' = []"
  by (cases "req_hash r"; simp add: line_value_def header_lines_def Let_def)+

text \<open>The response headers a client finds, given the lines the callback was called with.\<close>

definition response_line :: "string \<times> string \<Rightarrow> string" where
  "response_line nv = fst nv @ '': '' @ snd nv @ [CHR 0x0D, CHR 0x0A]"

definition header_key :: "string \<Rightarrow> string option" where
  "header_key line =
     (if CHR '':'' \<in> set line then Some (trim (map tolower (takeWhile (\<lambda>c. c \<noteq> CHR '':'') line))) else None)"

definition header_val :: "string \<Rightarrow> string" where
  "header_val line = trim (tl (dropWhile (\<lambda>c. c \<noteq> CHR '':'') line))"

lemma write_header_find:
  "um_find (write_header l m) k = (if header_key l = Some k then Some (header_val l) else um_find m k)"
  by (simp add: write_header_def header_key_def header_val_def umap.find_put)

text \<open>The last line with a key decides, whatever other lines there are.\<close>

lemma write_headers_find:
  "um_find (fold write_header ls m) k =
     (case filter (\<lambda>l. header_key l = Some k) ls of
        [] \<Rightarrow> um_find m k | l # rest \<Rightarrow> Some (header_val (last (l # rest))))"
  by (induction ls arbitrary: m) (auto simp: write_header_find split: list.split)

text \<open>A value that neither starts nor ends with a blank or a line end.\<close>

definition blank :: "char \<Rightarrow> bool" where
  "blank c \<longleftrightarrow> c = CHR 0x0D \<or> c = CHR 0x0A \<or> c = CHR '' ''"

definition trimmed :: "string \<Rightarrow> bool" where
  "trimmed s \<longleftrightarrow> (s = [] \<or> \<not> blank (hd s) \<and> \<not> blank (last s))"

lemma trim_value:
  assumes "trimmed s"
  shows "trim (CHR '' '' # s @ [CHR 0x0D, CHR 0x0A]) = s" and "trim s = s"
proof (atomize (full), cases s rule: rev_cases)
  case Nil
  then show "trim (CHR '' '' # s @ [CHR 0x0D, CHR 0x0A]) = s \<and> trim s = s" by (simp add: trim_def)
next
  case (snoc cs c)
  then have "\<not> blank c" "dropWhile (\<lambda>c. c = CHR '' '') (cs @ [c]) = cs @ [c]"
    using assms by (cases cs; auto simp: trimmed_def blank_def)+
  then show "trim (CHR '' '' # s @ [CHR 0x0D, CHR 0x0A]) = s \<and> trim s = s"
    by (simp add: trim_def snoc blank_def)
qed

lemma trimmed_to_string [simp]: "trimmed (to_string w)"
proof -
  have "\<not> blank c" if "c \<in> set (to_string w)" for c
    using that to_string_digits [of w] by (auto simp: list_all_iff is_digit_def blank_def)
  then show ?thesis by (simp add: trimmed_def)
qed

lemma response_line_key:
  assumes "CHR '':'' \<notin> set n" and "trimmed (map tolower n)"
  shows "header_key (response_line (n, v)) = Some (map tolower n)"
    and "trimmed v \<Longrightarrow> header_val (response_line (n, v)) = v"
proof -
  have "takeWhile (\<lambda>c. c \<noteq> CHR '':'') (n @ CHR '':'' # rest) = n"
    "dropWhile (\<lambda>c. c \<noteq> CHR '':'') (n @ CHR '':'' # rest) = CHR '':'' # rest" for rest
    using assms(1) by (induction n) auto
  then show "header_key (response_line (n, v)) = Some (map tolower n)"
    and "trimmed v \<Longrightarrow> header_val (response_line (n, v)) = v"
    using assms(2) by (simp_all add: header_key_def header_val_def response_line_def trim_value)
qed

text \<open>
  The lines a client sees for the headers a server set: one line per header, and other
  lines (the status line, the date, the length), none of which has a Color name.
\<close>

definition color_keys :: "string list" where
  "color_keys = [''color-seq'', ''color-hash'', ''color-no-op'', ''color-recover'']"

definition answered_with :: "(string, string) umap \<Rightarrow> string list \<Rightarrow> bool" where
  "answered_with hs ls \<longleftrightarrow>
     (\<forall>k \<in> set color_keys. filter (\<lambda>l. header_key l = Some k) ls =
        map response_line (filter (\<lambda>nv. map tolower (fst nv) = k) hs))"

lemma answered_with_find:
  assumes "answered_with hs ls" and "k \<in> set color_keys"
  shows "filter (\<lambda>nv. map tolower (fst nv) = k) hs = [] \<Longrightarrow> um_find (fold write_header ls []) k = None"
    and "filter (\<lambda>nv. map tolower (fst nv) = k) hs = [(n, v)] \<Longrightarrow> CHR '':'' \<notin> set n \<Longrightarrow>
      trimmed k \<Longrightarrow> trimmed v \<Longrightarrow> um_find (fold write_header ls []) k = Some v"
proof -
  note f = assms(1) [unfolded answered_with_def, rule_format, OF assms(2)]
  show "filter (\<lambda>nv. map tolower (fst nv) = k) hs = [] \<Longrightarrow> um_find (fold write_header ls []) k = None"
    by (simp add: write_headers_find f)
  assume one: "filter (\<lambda>nv. map tolower (fst nv) = k) hs = [(n, v)]"
    and n: "CHR '':'' \<notin> set n" and t: "trimmed k" "trimmed v"
  have "(n, v) \<in> set (filter (\<lambda>nv. map tolower (fst nv) = k) hs)" by (simp add: one)
  then have "map tolower n = k" by simp
  then show "um_find (fold write_header ls []) k = Some v"
    using response_line_key(2) [of n v] n t by (simp add: write_headers_find f one)
qed

end
