(* ===== verification/Curl_Transport.thy ===== *)
theory Curl_Transport
  imports Complex_Main Http_Headers
begin

unbundle bit_operations_syntax

text \<open>
  The HTTP client transport with failure injection, \<open>src/client/curl_transport.h\<close> and
  \<open>curl_transport.cc\<close>.

  libcurl and the random generator are not part of the repository. They are the parameter
  \<open>L\<close>: how the state of the calling thread's generator, made from a seed when the thread
  first needs it, gives the next real, whether a handle can be made, and
  what one transfer of given header lines and body with a given timeout does: whether it succeeded, the pieces the two
  callbacks were called with, the status code, and the new state of the world beyond. Nothing
  is assumed about it.
\<close>

record http_result =
  res_delivered :: bool
  res_status :: int
  res_headers :: "(string, string) umap"
  res_body :: string

definition default_result :: http_result where
  "default_result = \<lparr>res_delivered = False, res_status = 0, res_headers = [], res_body = []\<rparr>"

datatype injected = kNone | kDropRequest | kDropResponse

record transfer =
  tr_ok :: bool
  tr_header_pieces :: "string list"
  tr_body_pieces :: "string list"
  tr_code :: int

record 'n curl =
  curl_uniform :: "64 word \<Rightarrow> 'n \<Rightarrow> real \<times> 'n"
  curl_init :: "'n \<Rightarrow> bool \<times> 'n"
  curl_perform :: "int \<Rightarrow> string \<Rightarrow> string list \<Rightarrow> string \<Rightarrow> 'n \<Rightarrow> transfer \<times> 'n"

record transport =
  tp_drop_request :: real
  tp_drop_response :: real
  tp_seed :: "64 word"
  tp_timeout_ms :: int

section \<open>Operations\<close>

text \<open>The default of \<open>timeout_ms\<close> is 2000.\<close>

definition transport_new :: "real \<Rightarrow> real \<Rightarrow> 64 word \<Rightarrow> int \<Rightarrow> transport" where
  "transport_new p_drop_request p_drop_response seed timeout_ms =
     \<lparr>tp_drop_request = p_drop_request, tp_drop_response = p_drop_response, tp_seed = seed,
      tp_timeout_ms = timeout_ms\<rparr>"

text \<open>
  The seed of the generator of one thread; \<open>counter\<close> is how many threads have asked for a
  generator before, so the first call of \<open>thread_rng\<close> in a thread makes this seed and
  counts it.
\<close>

definition thread_seed :: "64 word \<Rightarrow> 64 word \<Rightarrow> 64 word" where
  "thread_seed seed counter = seed XOR (0x9e3779b97f4a7c15 * (counter + 1))"

definition write_body :: "string \<Rightarrow> string \<Rightarrow> string" where
  "write_body piece out = out @ piece"

definition roll :: "'n curl \<Rightarrow> transport \<Rightarrow> 'n \<Rightarrow> injected \<times> 'n" where
  "roll L t n =
     (let (u, n) = curl_uniform L (tp_seed t) n
      in if u < tp_drop_request t then (kDropRequest, n)
         else (let (u, n) = curl_uniform L (tp_seed t) n
               in if u < tp_drop_response t then (kDropResponse, n) else (kNone, n)))"

definition post ::
    "'n curl \<Rightarrow> transport \<Rightarrow> string \<Rightarrow> string list \<Rightarrow> string \<Rightarrow> 'n \<Rightarrow> (http_result \<times> injected) \<times> 'n" where
  "post L t url lines body n =
     (let res = default_result;
          (ij, n) = roll L t n
      in if ij = kDropRequest then ((res, ij), n)
         else
           (let (h, n) = curl_init L n
            in if \<not> h then ((res, ij), n)
               else
                 (let slist = lines @ [''Expect:''];
                      (tr, n) = curl_perform L (tp_timeout_ms t) url slist body n;
                      res = res\<lparr>res_body := fold write_body (tr_body_pieces tr) (res_body res),
                                res_headers := fold write_header (tr_header_pieces tr) (res_headers res)\<rparr>;
                      res = (if tr_ok tr then res\<lparr>res_status := tr_code tr\<rparr> else res)
                  in if \<not> tr_ok tr then ((res, ij), n)
                     else if ij = kDropResponse
                     then ((res\<lparr>res_body := [], res_headers := [], res_status := 0\<rparr>, ij), n)
                     else ((res\<lparr>res_delivered := True\<rparr>, ij), n))))"

section \<open>What an attempt tells the client\<close>

lemma write_bodies: "fold write_body ps s = s @ concat ps"
  by (induction ps arbitrary: s) (simp_all add: write_body_def)

text \<open>
  A delivered result is the outcome of one successful transfer of exactly the given lines
  and body, with no drop injected; everything else is reported as not delivered.
\<close>

lemma post_delivered:
  assumes "post L t url lines body n = ((res, ij), n')"
  shows "res_delivered res \<longleftrightarrow>
    ij = kNone \<and> (\<exists>m tr. curl_perform L (tp_timeout_ms t) url (lines @ [''Expect:'']) body m = (tr, n') \<and> tr_ok tr \<and>
      res = \<lparr>res_delivered = True, res_status = tr_code tr,
             res_headers = fold write_header (tr_header_pieces tr) [],
             res_body = concat (tr_body_pieces tr)\<rparr>)"
proof -
  obtain j m where r: "roll L t n = (j, m)" by (cases "roll L t n")
  obtain h k where h: "curl_init L m = (h, k)" by (cases "curl_init L m")
  obtain tr e where p: "curl_perform L (tp_timeout_ms t) url (lines @ [''Expect:'']) body k = (tr, e)"
    by (cases "curl_perform L (tp_timeout_ms t) url (lines @ [''Expect:'']) body k")
  show ?thesis
    using assms p
    by (cases j) (auto simp: post_def Let_def r h default_result_def write_bodies split: if_splits)
qed

text \<open>
  Threads inject independently: their generators have different seeds, because the
  multiplier is odd.
\<close>

lemma golden_invertible: "(0x9e3779b97f4a7c15 :: 64 word) * 17428512612931826493 = 1"
  by simp

lemma thread_seed_inj:
  assumes "thread_seed seed j = thread_seed seed k"
  shows "j = k"
proof -
  let ?g = "0x9e3779b97f4a7c15 :: 64 word" and ?h = "17428512612931826493 :: 64 word"
  have "seed XOR (seed XOR (?g * (j + 1))) = seed XOR (seed XOR (?g * (k + 1)))"
    using assms by (simp add: thread_seed_def)
  then have "?g * (j + 1) = ?g * (k + 1)" by (simp add: xor.assoc [symmetric])
  then have "?h * (?g * (j + 1)) = ?h * (?g * (k + 1))" by (rule arg_cong)
  then have "?h * ?g * (j + 1) = ?h * ?g * (k + 1)" by (simp only: mult.assoc)
  moreover have "?h * ?g = 1" by (rule trans [OF mult.commute golden_invertible])
  ultimately have "j + 1 = k + 1" by (simp only: mult_1)
  then show ?thesis by simp
qed

end
