(* ===== verification/Http_Client.thy ===== *)
theory Http_Client
  imports Curl_Transport Color_Client Failover_Json
begin

text \<open>
  The client library over HTTP, \<open>src/client/color_http_client.h\<close> and
  \<open>color_http_client.cc\<close>: one sender drives the client core through blocking POSTs.

  The transport is the parameter \<open>P\<close>, a function of the URL, the header lines, the body
  and the world beyond; the code passes \<open>CurlTransport::post\<close>, the definition \<open>post\<close> of
  \<open>Curl_Transport\<close>. The two loops of the code run until the other side answers, so they
  are partial functions; \<open>None\<close> means that they do not return. The callbacks are a flag
  and the list of their calls. What other senders do while one of them waits is the subject
  of \<open>Http_System\<close>; its steps are the pieces \<open>after_post\<close> and \<open>replay_post\<close>.
\<close>

record attempt_info =
  ai_seq :: seq
  ai_injected :: injected
  ai_delivered :: bool
  ai_attempt :: int

record 'n http_client =
  hc_url :: string
  hc_on_attempt :: bool
  hc_attempts :: "attempt_info list"
  hc_on_recover :: bool
  hc_recovers :: "(size_t \<times> size_t) list"
  hc_core :: client
  hc_net :: 'n

type_synonym 'n poster = "string \<Rightarrow> string list \<Rightarrow> string \<Rightarrow> 'n \<Rightarrow> (http_result \<times> injected) \<times> 'n"

section \<open>Operations\<close>

definition http_client_new :: "string \<Rightarrow> bool \<Rightarrow> bool \<Rightarrow> 'n \<Rightarrow> 'n http_client" where
  "http_client_new url deliver set_hash n =
     \<lparr>hc_url = url, hc_on_attempt = False, hc_attempts = [], hc_on_recover = False,
      hc_recovers = [], hc_core = client_new deliver set_hash, hc_net = n\<rparr>"

definition http_on_attempt :: "'n http_client \<Rightarrow> 'n http_client" where
  "http_on_attempt c = c\<lparr>hc_on_attempt := True\<rparr>"

definition http_on_recover :: "'n http_client \<Rightarrow> 'n http_client" where
  "http_on_recover c = c\<lparr>hc_on_recover := True\<rparr>"

definition http_on_hash_mismatch :: "'n http_client \<Rightarrow> 'n http_client" where
  "http_on_hash_mismatch c = c\<lparr>hc_core := client_on_hash_mismatch (hc_core c)\<rparr>"

text \<open>The history position in a \<open>Color-Recover\<close> value: what follows the first \<open>=\<close>, if any.\<close>

definition recover_position :: "string \<Rightarrow> size_t" where
  "recover_position value =
     (let v = takeWhile (\<lambda>c. c \<noteq> CHR 0x00) value
      in if CHR ''='' \<in> set v then strtoull (tl (dropWhile (\<lambda>c. c \<noteq> CHR ''='') v)) else strtoull v)"

definition received_response :: "request \<Rightarrow> http_result \<Rightarrow> response" where
  "received_response req res =
     (let resp = default_response;
          resp = resp\<lparr>rsp_seq := req_seq req\<rparr>;
          resp = (case um_find (res_headers res) ''color-seq'' of
                    Some v \<Rightarrow> resp\<lparr>rsp_seq := strtoull v\<rparr> | None \<Rightarrow> resp);
          resp = (case um_find (res_headers res) ''color-hash'' of
                    Some v \<Rightarrow> resp\<lparr>rsp_hash := Some (strtoull v)\<rparr> | None \<Rightarrow> resp);
          resp = resp\<lparr>rsp_no_op := (um_find (res_headers res) ''color-no-op'' \<noteq> None)\<rparr>
      in resp\<lparr>rsp_payload := res_body res\<rparr>)"

text \<open>What \<open>send\<close> does with the result of a POST: recover first, take the response, or try again.\<close>

datatype send_action = Recover_First size_t | Take response | Retry

definition after_post :: "request \<Rightarrow> http_result \<Rightarrow> send_action" where
  "after_post req res =
     (case (if res_delivered res \<and> res_status res = 503
            then um_find (res_headers res) ''color-recover'' else None) of
        Some v \<Rightarrow> Recover_First (recover_position v)
      | None \<Rightarrow> if res_delivered res then Take (received_response req res) else Retry)"

definition replay_lines :: "size_t \<Rightarrow> string list" where
  "replay_lines from_n = [''Color-Replay: '' @ to_string from_n, ''Content-Type: application/json'']"

text \<open>The replay request: the number of its events, its header lines and its body.\<close>

definition replay_post :: "size_t \<Rightarrow> client \<Rightarrow> size_t \<times> string list \<times> string" where
  "replay_post from_n core =
     (let rp = build_replay from_n core
      in (of_nat (length (rp_events rp)),
          replay_lines from_n,
          replay_to_json rp))"

partial_function (option) replay_loop ::
    "'n poster \<Rightarrow> string \<Rightarrow> string list \<Rightarrow> string \<Rightarrow> 'n \<Rightarrow> 'n option" where
  "replay_loop P url lines body n =
     (let ((res, ij), n) = P url lines body n
      in if res_delivered res \<and> res_status res = 200 then Some n
         else replay_loop P url lines body n)"

definition http_recover :: "'n poster \<Rightarrow> size_t \<Rightarrow> 'n http_client \<Rightarrow> 'n http_client option" where
  "http_recover P from_n c =
     (let (nevents, lines, body) = replay_post from_n (hc_core c)
      in case replay_loop P (hc_url c) lines body (hc_net c) of
           None \<Rightarrow> None
         | Some n \<Rightarrow>
             (let c = c\<lparr>hc_net := n\<rparr>
              in Some (if hc_on_recover c
                       then c\<lparr>hc_recovers := hc_recovers c @ [(from_n, nevents)]\<rparr> else c)))"

text \<open>The call of \<open>on_attempt_\<close> after an attempt that needed no recovery.\<close>

definition note_attempt ::
    "request \<Rightarrow> injected \<Rightarrow> http_result \<Rightarrow> int \<Rightarrow> 'n http_client \<Rightarrow> 'n http_client" where
  "note_attempt req ij res attempt c =
     (if hc_on_attempt c
      then c\<lparr>hc_attempts := hc_attempts c @
               [\<lparr>ai_seq = req_seq req, ai_injected = ij, ai_delivered = res_delivered res,
                 ai_attempt = attempt\<rparr>]\<rparr>
      else c)"

definition take_response :: "response \<Rightarrow> 'n http_client \<Rightarrow> 'n http_client option" where
  "take_response resp c =
     (case on_response resp (hc_core c) of
        None \<Rightarrow> None
      | Some (fresh, core) \<Rightarrow> Some (c\<lparr>hc_core := core\<rparr>))"

partial_function (option) send_loop ::
    "'n poster \<Rightarrow> request \<Rightarrow> string list \<Rightarrow> int \<Rightarrow> 'n http_client \<Rightarrow> 'n http_client option" where
  "send_loop P req lines attempt c =
     (case P (hc_url c) lines (req_payload req) (hc_net c) of ((res, ij), n) \<Rightarrow>
        case after_post req res of
          Recover_First from_n \<Rightarrow>
            (case http_recover P from_n (c\<lparr>hc_net := n\<rparr>) of
               None \<Rightarrow> None
             | Some c \<Rightarrow> send_loop P req lines (attempt + 1) c)
        | Take resp \<Rightarrow> take_response resp (note_attempt req ij res attempt (c\<lparr>hc_net := n\<rparr>))
        | Retry \<Rightarrow>
            send_loop P req lines (attempt + 1) (note_attempt req ij res attempt (c\<lparr>hc_net := n\<rparr>)))"

definition http_send :: "'n poster \<Rightarrow> string \<Rightarrow> 'n http_client \<Rightarrow> 'n http_client option" where
  "http_send P payload c =
     (let (req, core) = generate_request payload (hc_core c);
          c = c\<lparr>hc_core := core\<rparr>;
          lines = header_lines req
      in send_loop P req lines 1 c)"

section \<open>When the loops return\<close>

text \<open>
  A transport that settles: a number attached to the world bounds how many more attempts
  may fail or be answered by a recovery signal. It never grows, and an attempt that does not
  end its loop makes it smaller.
\<close>

definition settles :: "'n poster \<Rightarrow> ('n \<Rightarrow> nat) \<Rightarrow> bool" where
  "settles P budget \<longleftrightarrow>
     (\<forall>url lines body n res ij n'. P url lines body n = ((res, ij), n') \<longrightarrow>
        budget n' \<le> budget n \<and>
        (\<not> (res_delivered res \<and> res_status res = 200) \<longrightarrow> budget n' < budget n))"

lemma settlesD:
  assumes "settles P budget" and "P url lines body n = ((res, ij), n')"
  shows "budget n' \<le> budget n"
    and "\<not> (res_delivered res \<and> res_status res = 200) \<Longrightarrow> budget n' < budget n"
  using assms unfolding settles_def by blast+

lemma replay_loop_returns:
  assumes "settles P budget"
  shows "\<exists>n'. replay_loop P url lines body n = Some n' \<and> budget n' \<le> budget n"
proof (induction "budget n" arbitrary: n rule: less_induct)
  case less
  obtain res ij m where p: "P url lines body n = ((res, ij), m)" by (metis prod.exhaust)
  note S = settlesD [OF assms p]
  show ?case
  proof (cases "res_delivered res \<and> res_status res = 200")
    case True
    then show ?thesis using S(1) by (subst replay_loop.simps) (simp add: p)
  next
    case False
    from less [OF S(2) [OF False]] obtain n' where
      "replay_loop P url lines body m = Some n'" "budget n' \<le> budget m" by blast
    then show ?thesis using False S(1) by (subst replay_loop.simps) (auto simp: p)
  qed
qed

lemma http_recover_returns:
  assumes "settles P budget"
  shows "\<exists>c'. http_recover P k c = Some c' \<and> budget (hc_net c') \<le> budget (hc_net c) \<and>
    hc_core c' = hc_core c \<and> hc_url c' = hc_url c"
proof -
  obtain nev lines body where r: "replay_post k (hc_core c) = (nev, lines, body)" by (metis prod.exhaust)
  from replay_loop_returns [OF assms, of "hc_url c" lines body "hc_net c"]
  show ?thesis by (auto simp: http_recover_def r Let_def)
qed

lemma on_response_returns:
  assumes "finite (cli_received c)" and "card (cli_received c) + 1 < 2 ^ 64"
  shows "\<exists>b c'. on_response x c = Some (b, c')"
proof -
  have "card (insert (rsp_seq x) (cli_received c)) < 2 ^ 64"
    using assms card_insert_le_m1 by (simp add: card_insert_if)
  then have "insert (rsp_seq x) (cli_received c) \<noteq> UNIV"
    by (auto simp: card_word dest: arg_cong [where f = card])
  then obtain q where "q \<notin> insert (rsp_seq x) (cli_received c)" by blast
  from advance_base_returns [OF this, of "cli_base c"]
  show ?thesis by (auto simp: on_response_def Let_def split: option.splits prod.splits)
qed

text \<open>The outcome of \<open>send\<close>: the core has taken the response of a delivered reply that the
  transport gave to one of its attempts.\<close>

lemma send_loop_returns:
  assumes "settles P budget" and "finite (cli_received (hc_core c))"
    and "card (cli_received (hc_core c)) + 1 < 2 ^ 64"
  shows "\<exists>n ij n' res b c'. send_loop P req lines k c = Some c' \<and>
    P (hc_url c) lines (req_payload req) n = ((res, ij), n') \<and> after_post req res = Take (received_response req res) \<and>
    on_response (received_response req res) (hc_core c) = Some (b, hc_core c')"
  using assms(2,3)
proof (induction "budget (hc_net c)" arbitrary: c k rule: less_induct)
  case less
  obtain res ij m where p: "P (hc_url c) lines (req_payload req) (hc_net c) = ((res, ij), m)"
    by (metis prod.exhaust)
  note S = settlesD [OF assms(1) p]
  let ?c = "c\<lparr>hc_net := m\<rparr>"
  let ?d = "note_attempt req ij res k ?c"
  have d: "hc_net ?d = m" "hc_core ?d = hc_core c" "hc_url ?d = hc_url c" by (simp_all add: note_attempt_def)
  show ?case
  proof (cases "after_post req res")
    case (Recover_First n)
    then have "budget m < budget (hc_net c)"
      using S(2) by (auto simp: after_post_def split: if_splits option.splits)
    moreover obtain e where e: "http_recover P n ?c = Some e" "budget (hc_net e) \<le> budget m" "hc_core e = hc_core c" "hc_url e = hc_url c"
      using http_recover_returns [OF assms(1), of n ?c] by auto
    ultimately have "budget (hc_net e) < budget (hc_net c)" by simp
    from less.hyps [OF this, of "k + 1"] show ?thesis
      using e(3,4) less.prems by (subst send_loop.simps) (simp add: p Recover_First e)
  next
    case (Take x)
    then have x: "x = received_response req res"
      by (auto simp: after_post_def split: if_splits option.splits)
    obtain b e where e: "on_response x (hc_core ?d) = Some (b, e)"
      using on_response_returns [OF less.prems, of x] d by auto
    then have "send_loop P req lines k c = Some (?d\<lparr>hc_core := e\<rparr>)"
      by (subst send_loop.simps) (simp add: p Take take_response_def)
    then show ?thesis using e x Take d p by (metis http_client.select_convs(6) http_client.surjective http_client.update_convs(6))
  next
    case Retry
    then have "budget (hc_net ?d) < budget (hc_net c)"
      using S(2) d by (auto simp: after_post_def split: if_splits option.splits)
    from less.hyps [OF this, of "k + 1"] show ?thesis
      using less.prems d by (subst send_loop.simps) (simp add: p Retry)
  qed
qed

end
