(* ===== verification/Interceptor.thy ===== *)
theory Interceptor
  imports Http_Headers Color_Server Failover_Json
begin

text \<open>
  The server side of Color over HTTP, \<open>src/server/color_interceptor.h\<close> and
  \<open>color_interceptor.cc\<close>.

  The HTTP server library is not part of the repository. What the interceptor uses of a
  request object is the record \<open>http_request\<close>: the value of each request header and the
  result of \<open>ReadRequestBytes\<close> (a block, or a null pointer, and a size). The objects
  themselves are numbers, and what happens to them is a list of actions: replied to, with a
  status, headers and a body, or aborted. The mutex makes the handlers atomic, so each is one
  function. Files are a map from path names to contents, changed by a list of file operations
  that a crash may cut anywhere.

  A result \<open>None\<close> means that a JSON reader does not return, which \<open>Failover_Json\<close> excludes.
\<close>

record http_request =
  hr_header :: "string \<Rightarrow> string"
  hr_bytes :: "string option \<times> int"

datatype http_status = OK | SERVICE_UNAV

record http_reply =
  hp_headers :: "(string, string) umap"
  hp_body :: string

datatype action = Replied nat http_status http_reply | Aborted nat

type_synonym files = "string \<Rightarrow> string option"

datatype file_op = Truncate string | Append string string | Rename string string

record 'w interceptor =
  ic_core :: "'w server"
  ic_set_hash :: bool
  ic_checkpoint_path :: string
  ic_checkpoint_every :: size_t
  ic_commits_since :: size_t
  ic_restored :: bool
  ic_on_committed :: bool
  ic_committed :: "(seq \<times> string) list"
  ic_pending :: "(seq, nat) umap"

section \<open>Files\<close>

fun run_op :: "file_op \<Rightarrow> files \<Rightarrow> files" where
  "run_op (Truncate p) fs = fs(p \<mapsto> [])"
| "run_op (Append p s) fs = fs(p \<mapsto> (case fs p of Some t \<Rightarrow> t | None \<Rightarrow> []) @ s)"
| "run_op (Rename a b) fs = (case fs a of Some s \<Rightarrow> fs(a := None, b \<mapsto> s) | None \<Rightarrow> fs)"

text \<open>The states a crash can leave the files in: between two operations, or amid an append.\<close>

fun crash_states :: "file_op list \<Rightarrow> files \<Rightarrow> files set" where
  "crash_states [] fs = {fs}"
| "crash_states (op # ops) fs =
     insert fs ((case op of Append p s \<Rightarrow> {run_op (Append p (take n s)) fs |n. True} | _ \<Rightarrow> {}) \<union>
       crash_states ops (run_op op fs))"

section \<open>Operations\<close>

definition load_checkpoint :: "string \<Rightarrow> files \<Rightarrow> checkpoint option option" where
  "load_checkpoint path fs =
     (if path = [] then Some None
      else case fs path of
             None \<Rightarrow> Some None
           | Some s \<Rightarrow>
               (case from_json_checkpoint s of
                  None \<Rightarrow> None
                | Some (ok, cp) \<Rightarrow> Some (if ok then Some cp else None)))"

definition interceptor_new ::
    "bool \<Rightarrow> string \<Rightarrow> size_t \<Rightarrow> 'w \<Rightarrow> files \<Rightarrow> 'w interceptor option" where
  "interceptor_new set_hash path every w fs =
     (case load_checkpoint path fs of
        None \<Rightarrow> None
      | Some loaded \<Rightarrow>
          Some \<lparr>ic_core = (case loaded of Some cp \<Rightarrow> server_restore cp set_hash w
                                         | None \<Rightarrow> server_new set_hash w),
                ic_set_hash = set_hash, ic_checkpoint_path = path, ic_checkpoint_every = every,
                ic_commits_since = 0, ic_restored = (loaded \<noteq> None), ic_on_committed = False,
                ic_committed = [], ic_pending = []\<rparr>)"

definition ic_on_hash_mismatch :: "'w interceptor \<Rightarrow> 'w interceptor" where
  "ic_on_hash_mismatch i = i\<lparr>ic_core := server_on_hash_mismatch (ic_core i)\<rparr>"

definition on_committed :: "'w interceptor \<Rightarrow> 'w interceptor" where
  "on_committed i = i\<lparr>ic_on_committed := True\<rparr>"

definition ReadBody :: "http_request \<Rightarrow> string" where
  "ReadBody req =
     (case hr_bytes req of
        (Some block, n) \<Rightarrow> (if n > 0 then take (nat n) block else [])
      | (None, n) \<Rightarrow> [])"

definition Parse :: "http_request \<Rightarrow> request" where
  "Parse req =
     (let r = default_request;
          r = r\<lparr>req_seq := header_u64 (hr_header req ''Color-Seq'') 0\<rparr>;
          r = r\<lparr>req_ack_base := header_u64 (hr_header req ''Color-Ack-Base'') 1\<rparr>;
          r = r\<lparr>req_ack_new := parse_csv (hr_header req ''Color-Ack-New'')\<rparr>;
          h = hr_header req ''Color-Hash'';
          r = (if h \<noteq> [] then r\<lparr>req_hash := Some (header_u64 h 0)\<rparr> else r)
      in r\<lparr>req_payload := ReadBody req\<rparr>)"

definition Complete :: "bool \<Rightarrow> nat \<Rightarrow> response \<Rightarrow> action" where
  "Complete set_hash obj resp =
     (let hs = um_put ''Color-Seq'' (to_string (rsp_seq resp)) [];
          hs = (case rsp_hash resp of
                  Some h \<Rightarrow> (if set_hash then um_put ''Color-Hash'' (to_string h) hs else hs)
                | None \<Rightarrow> hs);
          hs = (if rsp_no_op resp then um_put ''Color-No-Op'' ''1'' hs else hs);
          hs = um_put ''Content-Type'' ''application/json'' hs
      in Replied obj OK \<lparr>hp_headers = hs, hp_body = rsp_payload resp\<rparr>)"

definition OnReplay :: "nat \<Rightarrow> http_request \<Rightarrow> 'w interceptor \<Rightarrow> (action list \<times> 'w interceptor) option" where
  "OnReplay obj req i =
     (case from_json_replay (ReadBody req) of
        None \<Rightarrow> None
      | Some (ok, rp) \<Rightarrow>
          Some ([Replied obj OK \<lparr>hp_headers = um_put ''Content-Type'' ''application/json'' [], hp_body = []\<rparr>],
                i\<lparr>ic_core := ingest_replay rp (ic_core i)\<rparr>))"

text \<open>
  \<open>WriteCheckpoint\<close>. The output stream is not checked: \<open>room\<close> says how much of the text
  reaches the file (\<open>None\<close>: the temporary file cannot be opened), and the rename
  follows in any case.
\<close>

definition WriteCheckpoint :: "nat option \<Rightarrow> 'w interceptor \<Rightarrow> file_op list" where
  "WriteCheckpoint room i =
     (let json = checkpoint_to_json (server_checkpoint (ic_core i));
          tmp = ic_checkpoint_path i @ ''.tmp''
      in (case room of Some n \<Rightarrow> [Truncate tmp, Append tmp (take n json)] | None \<Rightarrow> []) @
         [Rename tmp (ic_checkpoint_path i)])"

definition MaybeCheckpoint ::
    "nat option \<Rightarrow> size_t \<Rightarrow> 'w interceptor \<Rightarrow> file_op list \<times> 'w interceptor" where
  "MaybeCheckpoint room committed i =
     (if ic_checkpoint_path i = [] \<or> ic_checkpoint_every i = 0 then ([], i)
      else
        (let i = i\<lparr>ic_commits_since := ic_commits_since i + committed\<rparr>
         in if ic_commits_since i \<ge> ic_checkpoint_every i
            then (WriteCheckpoint room i, i\<lparr>ic_commits_since := 0\<rparr>)
            else ([], i)))"

text \<open>The body of the loop over the responses: the actions, the counter and the state so far.\<close>

definition complete_one ::
    "response \<Rightarrow> action list \<times> size_t \<times> 'w interceptor \<Rightarrow> action list \<times> size_t \<times> 'w interceptor" where
  "complete_one resp acc =
     (case acc of (acts, committed, i) \<Rightarrow>
        case um_find (ic_pending i) (rsp_seq resp) of
          None \<Rightarrow> (acts, committed, i)
        | Some obj \<Rightarrow>
            (let acts = acts @ [Complete (ic_set_hash i) obj resp];
                 i = i\<lparr>ic_pending := um_erase (rsp_seq resp) (ic_pending i)\<rparr>
             in if \<not> rsp_no_op resp
                then (acts, committed + 1,
                      if ic_on_committed i
                      then i\<lparr>ic_committed := ic_committed i @ [(rsp_seq resp, rsp_payload resp)]\<rparr> else i)
                else (acts, committed, i)))"

text \<open>The part of \<open>OnRequest\<close> under the lock, for a request that is not a replay.\<close>

definition on_color_request ::
    "'w app \<Rightarrow> nat option \<Rightarrow> nat \<Rightarrow> request \<Rightarrow> 'w interceptor \<Rightarrow>
     action list \<times> file_op list \<times> 'w interceptor" where
  "on_color_request app room obj creq i =
     (let aborts = (case um_find (ic_pending i) (req_seq creq) of Some old \<Rightarrow> [Aborted old] | None \<Rightarrow> []);
          i = i\<lparr>ic_pending := um_put (req_seq creq) obj (ic_pending i)\<rparr>;
          (responses, core) = on_request app creq (ic_core i);
          i = i\<lparr>ic_core := core\<rparr>
      in if length responses = 1 \<and> rsp_recover (responses ! 0)
         then (let i = i\<lparr>ic_pending := um_erase (req_seq creq) (ic_pending i)\<rparr>;
                   hs = um_put ''Color-Recover''
                          (''from='' @ to_string (rsp_recover_from (responses ! 0))) []
               in (aborts @ [Replied obj SERVICE_UNAV \<lparr>hp_headers = hs, hp_body = []\<rparr>], [], i))
         else (let (acts, committed, i) = fold complete_one responses (aborts, 0, i);
                   (ops, i) = MaybeCheckpoint room committed i
               in (acts, ops, i)))"

definition OnRequest ::
    "'w app \<Rightarrow> nat option \<Rightarrow> nat \<Rightarrow> http_request \<Rightarrow> 'w interceptor \<Rightarrow>
     (action list \<times> file_op list \<times> 'w interceptor) option" where
  "OnRequest app room obj req i =
     (if hr_header req ''Color-Replay'' \<noteq> []
      then (case OnReplay obj req i of None \<Rightarrow> None | Some (acts, i) \<Rightarrow> Some (acts, [], i))
      else Some (on_color_request app room obj (Parse req) i))"

section \<open>What the handlers do to the core\<close>

lemma complete_one_core [simp]:
  "ic_core (snd (snd (complete_one x acc))) = ic_core (snd (snd acc))"
  "ic_set_hash (snd (snd (complete_one x acc))) = ic_set_hash (snd (snd acc))"
  "ic_checkpoint_path (snd (snd (complete_one x acc))) = ic_checkpoint_path (snd (snd acc))"
  "ic_checkpoint_every (snd (snd (complete_one x acc))) = ic_checkpoint_every (snd (snd acc))"
  by (auto simp: complete_one_def Let_def case_prod_beta split: option.split)

lemma complete_list_core [simp]:
  "ic_core (snd (snd (fold complete_one xs acc))) = ic_core (snd (snd acc))"
  "ic_set_hash (snd (snd (fold complete_one xs acc))) = ic_set_hash (snd (snd acc))"
  "ic_checkpoint_path (snd (snd (fold complete_one xs acc))) = ic_checkpoint_path (snd (snd acc))"
  "ic_checkpoint_every (snd (snd (fold complete_one xs acc))) = ic_checkpoint_every (snd (snd acc))"
  by (induction xs arbitrary: acc) simp_all

lemma MaybeCheckpoint_parts [simp]:
  "ic_core (snd (MaybeCheckpoint room k i)) = ic_core i"
  "ic_set_hash (snd (MaybeCheckpoint room k i)) = ic_set_hash i"
  "ic_pending (snd (MaybeCheckpoint room k i)) = ic_pending i"
  "ic_checkpoint_path (snd (MaybeCheckpoint room k i)) = ic_checkpoint_path i"
  "ic_checkpoint_every (snd (MaybeCheckpoint room k i)) = ic_checkpoint_every i"
  by (simp_all add: MaybeCheckpoint_def Let_def)

text \<open>The two outcomes of a request: a recovery signal, or a list of completed responses.\<close>

definition superseded :: "seq \<Rightarrow> 'w interceptor \<Rightarrow> action list" where
  "superseded q i = (case um_find (ic_pending i) q of Some old \<Rightarrow> [Aborted old] | None \<Rightarrow> [])"

definition handed_over :: "'w app \<Rightarrow> nat \<Rightarrow> request \<Rightarrow> 'w interceptor \<Rightarrow> 'w interceptor" where
  "handed_over app obj r i =
     i\<lparr>ic_pending := um_put (req_seq r) obj (ic_pending i), ic_core := snd (on_request app r (ic_core i))\<rparr>"

definition completed ::
    "'w app \<Rightarrow> nat \<Rightarrow> request \<Rightarrow> 'w interceptor \<Rightarrow> action list \<times> size_t \<times> 'w interceptor" where
  "completed app obj r i =
     fold complete_one (fst (on_request app r (ic_core i))) (superseded (req_seq r) i, 0, handed_over app obj r i)"

lemma on_color_request_eq:
  "on_color_request app room obj r i =
     (if is_recover (fst (on_request app r (ic_core i)))
      then (superseded (req_seq r) i @
              [Replied obj SERVICE_UNAV
                 \<lparr>hp_headers = [(''Color-Recover'',
                      ''from='' @ to_string (rsp_recover_from (fst (on_request app r (ic_core i)) ! 0)))],
                  hp_body = []\<rparr>],
            [], (handed_over app obj r i)\<lparr>ic_pending :=
                  um_erase (req_seq r) (ic_pending (handed_over app obj r i))\<rparr>)
      else (let C = completed app obj r i; M = MaybeCheckpoint room (fst (snd C)) (snd (snd C))
            in (fst C, fst M, snd M)))"
  unfolding on_color_request_def superseded_def [symmetric]
  by (simp add: Let_def case_prod_beta completed_def handed_over_def is_recover_def)

lemma handed_over_parts [simp]:
  "ic_core (handed_over app obj r i) = snd (on_request app r (ic_core i))"
  "ic_set_hash (handed_over app obj r i) = ic_set_hash i"
  "ic_checkpoint_path (handed_over app obj r i) = ic_checkpoint_path i"
  "ic_checkpoint_every (handed_over app obj r i) = ic_checkpoint_every i"
  "ic_pending (handed_over app obj r i) = um_put (req_seq r) obj (ic_pending i)"
  by (simp_all add: handed_over_def)

lemma on_color_request_core [simp]:
  "ic_core (snd (snd (on_color_request app room obj r i))) = snd (on_request app r (ic_core i))"
  "ic_set_hash (snd (snd (on_color_request app room obj r i))) = ic_set_hash i"
  "ic_checkpoint_path (snd (snd (on_color_request app room obj r i))) = ic_checkpoint_path i"
  by (simp_all add: on_color_request_eq Let_def completed_def)

text \<open>The responses completed are responses of the core, or a recovery signal of it.\<close>

lemma complete_list_actions:
  "set (fst (fold complete_one xs acc)) \<subseteq>
     set (fst acc) \<union> {Complete (ic_set_hash (snd (snd acc))) obj x |obj x. x \<in> set xs}"
proof (induction xs arbitrary: acc)
  case (Cons x xs)
  have "set (fst (complete_one x acc)) \<subseteq>
      set (fst acc) \<union> {Complete (ic_set_hash (snd (snd acc))) obj x |obj. True}"
    by (auto simp: complete_one_def Let_def case_prod_beta split: option.split)
  then show ?case using Cons.IH [of "complete_one x acc"] by simp blast
qed simp

lemma on_color_request_replies:
  assumes "Replied o' st hp \<in> set (fst (on_color_request app room obj r i))"
  shows "(\<not> is_recover (fst (on_request app r (ic_core i))) \<and>
      (\<exists>x \<in> set (fst (on_request app r (ic_core i))). Replied o' st hp = Complete (ic_set_hash i) o' x)) \<or>
    (is_recover (fst (on_request app r (ic_core i))) \<and> o' = obj \<and> st = SERVICE_UNAV \<and>
     hp_headers hp = [(''Color-Recover'',
       ''from='' @ to_string (rsp_recover_from (fst (on_request app r (ic_core i)) ! 0)))])"
proof (cases "is_recover (fst (on_request app r (ic_core i)))")
  case True
  then show ?thesis using assms
    by (auto simp: on_color_request_eq superseded_def split: option.splits)
next
  case False
  let ?out = "fst (on_request app r (ic_core i))"
  have "Replied o' st hp \<in> set (fst (completed app obj r i))"
    using assms False by (simp add: on_color_request_eq Let_def)
  then have "Replied o' st hp \<in> set (superseded (req_seq r) i) \<or>
      (\<exists>obj x. Replied o' st hp = Complete (ic_set_hash i) obj x \<and> x \<in> set ?out)"
    using complete_list_actions [of ?out "(superseded (req_seq r) i, 0, handed_over app obj r i)"]
    by (auto simp: completed_def)
  then obtain o2 x where x: "Replied o' st hp = Complete (ic_set_hash i) o2 x" "x \<in> set ?out"
    by (auto simp: superseded_def split: option.splits)
  then have "o' = o2" by (simp add: Complete_def Let_def)
  then show ?thesis using x False by blast
qed

section \<open>Requests on the wire\<close>

text \<open>
  What the HTTP stack in between is relied on: the server sees the value of each Color header
  that was sent, and the body that was sent.
\<close>

definition request_headers :: "string list" where
  "request_headers =
     [''Color-Seq'', ''Color-Ack-Base'', ''Color-Ack-New'', ''Color-Hash'', ''Color-Replay'']"

definition arrives :: "string list \<Rightarrow> string \<Rightarrow> http_request \<Rightarrow> bool" where
  "arrives lines body h \<longleftrightarrow>
     (\<forall>n \<in> set request_headers. hr_header h n = line_value lines n) \<and>
     snd (hr_bytes h) = int (length body) \<and> (body \<noteq> [] \<longrightarrow> fst (hr_bytes h) = Some body)"

lemma arrives_body: "arrives lines body h \<Longrightarrow> ReadBody h = body"
  by (cases "hr_bytes h"; cases "fst (hr_bytes h)"; cases "body = []")
     (auto simp: arrives_def ReadBody_def)

lemma Parse_header_lines:
  assumes "arrives (header_lines r) (req_payload r) h"
  shows "Parse h = r" and "hr_header h ''Color-Replay'' = []"
proof -
  note v = assms [unfolded arrives_def request_headers_def]
  have s: "hr_header h ''Color-Seq'' = to_string (req_seq r)"
    "hr_header h ''Color-Ack-Base'' = to_string (req_ack_base r)"
    "hr_header h ''Color-Ack-New'' = ack_items 0 (req_ack_new r) []"
    "hr_header h ''Color-Hash'' = (case req_hash r of Some h \<Rightarrow> to_string h | None \<Rightarrow> [])"
    using v by (simp_all add: header_lines_values)
  show "hr_header h ''Color-Replay'' = []" using v by (simp add: header_lines_values)
  have "Parse h = \<lparr>req_seq = req_seq r, req_ack_base = req_ack_base r, req_ack_new = req_ack_new r,
      req_hash = req_hash r, req_payload = req_payload r\<rparr>"
    by (cases "req_hash r")
       (simp_all add: Parse_def s default_request_def parse_csv_acks arrives_body [OF assms])
  then show "Parse h = r" by simp
qed

end
