(* ===== verification/Json_Truncation.thy ===== *)
theory Json_Truncation
  imports Failover_Json "HOL-Library.Sublist"
begin

text \<open>
  A JSON text that was cut short, by a crash in the middle of a write for instance, is
  rejected: no proper prefix of a written checkpoint or replay is read successfully.

  The proofs follow the parser through the printed text. A parser is \<open>stuck\<close> when it has
  found an error or has no input left; nothing that follows can make it succeed.
\<close>

definition stuck :: "parser \<Rightarrow> bool" where
  "stuck p \<longleftrightarrow> \<not> pr_ok p \<or> pr_in p = []"

definition fails :: "'a parse \<Rightarrow> bool" where
  "fails res \<longleftrightarrow> (case res of None \<Rightarrow> False | Some (Inl a) \<Rightarrow> True | Some (Inr (a, q)) \<Rightarrow> stuck q)"

lemma fails_simps [simp]:
  "\<not> fails None" "fails (Some (Inl a))" "fails (Some (Inr (a, q))) = stuck q"
  by (simp_all add: fails_def)

lemma fails_cases:
  assumes "fails res"
  obtains a where "res = Some (Inl a)" | a q where "res = Some (Inr (a, q))" "stuck q"
  using assms by (auto simp: fails_def split: option.splits sum.splits prod.splits)

text \<open>A function fails on every proper prefix of a text.\<close>

definition cut_fails :: "(parser \<Rightarrow> 'a parse) \<Rightarrow> string \<Rightarrow> bool" where
  "cut_fails f text_s \<longleftrightarrow> (\<forall>cs. strict_prefix cs text_s \<longrightarrow> fails (f (reading cs)))"

section \<open>Stuck parsers\<close>

lemma eat_stuck: "stuck p \<Longrightarrow> \<not> pr_ok (snd (eat c p))"
  by (auto simp: stuck_def eat_def ws_def Let_def split: list.split)

lemma peek_stuck: "stuck p \<Longrightarrow> stuck (snd (peek c p))"
  by (auto simp: stuck_def peek_def ws_def Let_def)

lemma stuck_not_ok [simp]: "\<not> pr_ok p \<Longrightarrow> stuck p"
  by (simp add: stuck_def)

lemma peek_empty [simp]: "peek c \<lparr>pr_in = [], pr_ok = b\<rparr> = (False, \<lparr>pr_in = [], pr_ok = b\<rparr>)"
  by (simp add: peek_def ws_def)

lemma eat_empty [simp]: "eat c \<lparr>pr_in = [], pr_ok = b\<rparr> = (False, \<lparr>pr_in = [], pr_ok = False\<rparr>)"
  by (simp add: eat_def ws_def)

lemma parse_string_empty [simp]:
  "parse_string \<lparr>pr_in = [], pr_ok = b\<rparr> = ([], \<lparr>pr_in = [], pr_ok = False\<rparr>)"
  by (simp add: parse_string_def)

lemma object_loop_stuck:
  assumes "stuck p"
  shows "fails (object_loop field a p)"
proof (cases "pr_ok p")
  case True
  then have p: "p = reading []" using assms by (simp add: stuck_def)
  show ?thesis unfolding p by (subst object_loop.simps) (simp add: Let_def)
next
  case False
  then have "\<not> pr_ok (snd (peek CHR ''}'' p))" by (simp add: peek_def ws_def Let_def)
  then show ?thesis by (subst object_loop.simps) (simp add: Let_def case_prod_beta)
qed

lemma after_value_stuck:
  assumes "stuck p"
  shows "stuck (if \<not> fst (peek c p) then snd (eat d (snd (peek c p))) else snd (peek c p))"
  using peek_stuck [OF assms] eat_stuck by auto

section \<open>Objects\<close>

text \<open>A member whose key or value was cut.\<close>

lemma member_field_fails:
  assumes "plain_key key" and "fails (field key a (reading v))"
  shows "fails (object_loop field a (reading (quote key @ CHR '':'' # v)))"
  using assms(2)
proof (cases rule: fails_cases)
  case (1 b)
  then show ?thesis using assms(1) by (subst object_loop.simps) (simp add: Let_def)
next
  case (2 b q)
  then have "object_loop field a (reading (quote key @ CHR '':'' # v)) =
      object_loop field b (if \<not> fst (peek CHR ''}'' q) then snd (eat CHR '','' (snd (peek CHR ''}'' q)))
        else snd (peek CHR ''}'' q))"
    using assms(1) by (subst object_loop.simps) (simp add: Let_def case_prod_beta)
  then show ?thesis using object_loop_stuck [OF after_value_stuck [OF 2(2)]] by metis
qed

lemma string_body_open:
  assumes "list_all (\<lambda>c. c \<noteq> CHR 0x22 \<and> c \<noteq> CHR 0x5C) cs"
  shows "string_body cs acc = (acc @ cs, [])"
  using assms
proof (induction cs acc rule: string_body.induct)
  case (3 c e cs acc)
  then show ?case by simp
qed auto

lemma key_cut:
  assumes "list_all (\<lambda>c. c \<noteq> CHR 0x22 \<and> c \<noteq> CHR 0x5C) key" and "strict_prefix cs (quote key)"
  shows "fails (object_loop field a (reading cs))"
proof (cases cs)
  case Nil
  then show ?thesis by (simp add: object_loop_stuck stuck_def)
next
  case (Cons c ds)
  then have c: "c = CHR 0x22" "prefix ds key"
    using assms(2) by (auto simp: quote_def strict_prefix_def)
  then have "list_all (\<lambda>c. c \<noteq> CHR 0x22 \<and> c \<noteq> CHR 0x5C) ds"
    using assms(1) by (auto simp: prefix_def)
  then have "parse_string (reading cs) = (ds, \<lparr>pr_in = [], pr_ok = False\<rparr>)"
    by (simp add: parse_string_def Cons c string_body_open)
  then show ?thesis
    by (subst object_loop.simps) (simp add: Cons c Let_def)
qed

lemma prefix_append_cases:
  assumes "strict_prefix cs (xs @ ys)"
  obtains "strict_prefix cs xs" | zs where "cs = xs @ zs" "strict_prefix zs ys"
proof (cases "strict_prefix cs xs")
  case False
  have "prefix cs xs \<or> (\<exists>zs. cs = xs @ zs \<and> prefix zs ys)"
    using assms by (simp add: strict_prefix_def prefix_append)
  then obtain zs where "cs = xs @ zs" "prefix zs ys"
    using False by (metis append_Nil2 prefix_bot.bot_least strict_prefixI)
  then show ?thesis using that(2) assms by (auto simp: strict_prefix_def)
qed (rule that(1))

definition simple_key :: "string \<Rightarrow> bool" where
  "simple_key key \<longleftrightarrow> plain_key key \<and> list_all (\<lambda>c. c \<noteq> CHR 0x22 \<and> c \<noteq> CHR 0x5C) key"

lemma member_cut:
  assumes key: "simple_key key" and cut: "cut_fails (field key a) v"
    and bare: "fails (field key a (reading v))"
    and tail_s: "\<And>cs. strict_prefix cs (sep # rest) \<Longrightarrow> cs \<noteq> [] \<Longrightarrow>
      fails (object_loop field a (reading (quote key @ CHR '':'' # v @ cs)))"
  shows "cut_fails (object_loop field a) (quote key @ CHR '':'' # v @ sep # rest)"
  unfolding cut_fails_def
proof (intro allI impI)
  fix cs assume "strict_prefix cs (quote key @ CHR '':'' # v @ sep # rest)"
  then show "fails (object_loop field a (reading cs))"
  proof (cases rule: prefix_append_cases)
    case 1
    have "list_all (\<lambda>c. c \<noteq> CHR 0x22 \<and> c \<noteq> CHR 0x5C) key" using key by (simp add: simple_key_def)
    from key_cut [OF this 1] show ?thesis .
  next
    case (2 zs)
    have k: "plain_key key" using key by (simp add: simple_key_def)
    show ?thesis
    proof (cases zs)
      case Nil
      have "parse_string (reading (quote key)) = (key, reading [])"
        using parse_string_quote [OF k, of "[]"] by simp
      moreover have "peek CHR ''}'' (reading (quote key)) = (False, reading (quote key))"
        using peek_quote [of "CHR ''}''" key "[]"] by simp
      ultimately show ?thesis using 2 Nil by (subst object_loop.simps) (simp add: Let_def)
    next
      case (Cons c ds)
      then have c: "c = CHR '':''" and "strict_prefix ds (v @ sep # rest)" using 2(2) by auto
      from this(2) show ?thesis
      proof (cases rule: prefix_append_cases)
        case 1
        then show ?thesis
          using member_field_fails [where field = field and a = a, OF k] cut 2(1) Cons c by (simp add: cut_fails_def)
      next
        case (2 es)
        then show ?thesis
          using member_field_fails [where field = field and a = a and v = v, OF k] bare tail_s [of es]
            \<open>cs = quote key @ zs\<close> Cons c
          by (cases es) simp_all
      qed
    qed
  qed
qed

text \<open>A member followed by another one, and the last member of an object.\<close>

lemma member_cut_comma:
  assumes "simple_key key" and "cut_fails (field key a) v" and "fails (field key a (reading v))"
    and "\<And>rest. field key a (reading (v @ CHR '','' # rest)) = Some (Inr (a', reading (CHR '','' # rest)))"
    and "cut_fails (object_loop field a') tail_s"
  shows "cut_fails (object_loop field a) (quote key @ CHR '':'' # v @ CHR '','' # tail_s)"
proof (rule member_cut [where field = field and key = key and a = a and v = v, OF assms(1-3)])
  fix cs assume "strict_prefix cs (CHR '','' # tail_s)" "cs \<noteq> []"
  then obtain ds where ds: "cs = CHR '','' # ds" "strict_prefix ds tail_s" by (cases cs) auto
  have "object_loop field a (reading (quote key @ CHR '':'' # v @ CHR '','' # ds)) =
      object_loop field a' (reading ds)"
    using assms(1,4) by (intro object_member) (simp_all add: simple_key_def)
  then show "fails (object_loop field a (reading (quote key @ CHR '':'' # v @ cs)))"
    using assms(5) ds by (simp add: cut_fails_def)
qed

lemma member_cut_last:
  assumes "simple_key key" and "cut_fails (field key a) v" and "fails (field key a (reading v))"
  shows "cut_fails (object_loop field a) (quote key @ CHR '':'' # v @ [CHR ''}''])"
  by (rule member_cut [where field = field and key = key and a = a and v = v, OF assms]) (auto simp: strict_prefix_def prefix_Cons)

lemma parse_object_cut:
  assumes "cut_fails (object_loop field a) (members @ [CHR ''}''])"
  shows "cut_fails (parse_object field a) (CHR ''{'' # members @ [CHR ''}''])"
    and "strict_prefix cs (CHR ''{'' # members @ [CHR ''}'']) \<Longrightarrow>
      \<exists>b q. parse_object field a (reading cs) = Some (Inl b) \<or>
            parse_object field a (reading cs) = Some (Inr (b, q)) \<and> \<not> pr_ok q"
proof -
  have *: "\<exists>b q. parse_object field a (reading cs) = Some (Inl b) \<or>
            parse_object field a (reading cs) = Some (Inr (b, q)) \<and> \<not> pr_ok q"
    if cs: "strict_prefix cs (CHR ''{'' # members @ [CHR ''}''])" for cs
  proof (cases cs)
    case Nil
    then show ?thesis by (simp add: parse_object_def)
  next
    case (Cons c ds)
    then have "c = CHR ''{''" "fails (object_loop field a (reading ds))"
      using cs assms by (auto simp: cut_fails_def)
    from this(2) show ?thesis
    proof (cases rule: fails_cases)
      case (1 b)
      then show ?thesis using Cons \<open>c = _\<close> by (simp add: parse_object_def)
    next
      case (2 b q)
      then show ?thesis
        using Cons \<open>c = _\<close> eat_stuck [of q "CHR ''}''"] by (simp add: parse_object_def)
    qed
  qed
  then show "strict_prefix cs (CHR ''{'' # members @ [CHR ''}'']) \<Longrightarrow>
      \<exists>b q. parse_object field a (reading cs) = Some (Inl b) \<or>
            parse_object field a (reading cs) = Some (Inr (b, q)) \<and> \<not> pr_ok q" .
  show "cut_fails (parse_object field a) (CHR ''{'' # members @ [CHR ''}''])"
    unfolding cut_fails_def
  proof (intro allI impI)
    fix cs assume "strict_prefix cs (CHR ''{'' # members @ [CHR ''}''])"
    from * [OF this] show "fails (parse_object field a (reading cs))" by auto
  qed
qed

section \<open>Arrays\<close>

locale json_cut = json_codec elem text_of valid
  for elem :: "parser \<Rightarrow> 'b parse" and text_of :: "'b \<Rightarrow> string" and valid :: "'b \<Rightarrow> bool" +
  assumes elem_cut: "valid x \<Longrightarrow> cut_fails elem (text_of x)"
    and elem_empty: "fails (elem (reading []))"
begin

lemma array_loop_not_ok: "\<not> pr_ok p \<Longrightarrow> fails (array_loop elem ys p)"
  by (subst array_loop.simps) (simp add: Let_def case_prod_beta peek_def ws_def)

text \<open>An element that fails makes the loop fail.\<close>

lemma array_loop_elem_fails:
  assumes "fails (elem (reading cs))" and "cs = [] \<or> hd cs = CHR ''{''"
  shows "fails (array_loop elem ys (reading cs))"
proof -
  have p: "peek CHR '']'' (reading cs) = (False, reading cs)"
    using assms(2) by (cases cs) simp_all
  from assms(1) show ?thesis
  proof (cases rule: fails_cases)
    case (1 x)
    then show ?thesis by (subst array_loop.simps) (simp add: p)
  next
    case (2 x q)
    let ?q = "if \<not> fst (peek CHR '']'' q) then snd (eat CHR '','' (snd (peek CHR '']'' q))) else snd (peek CHR '']'' q)"
    have "array_loop elem ys (reading cs) = array_loop elem (ys @ [x]) ?q"
      using 2(1) by (subst array_loop.simps) (simp add: p Let_def case_prod_beta)
    moreover have "\<not> pr_ok ?q"
      using 2(2) eat_stuck [OF peek_stuck [OF 2(2)]] by (auto simp: stuck_def peek_def ws_def Let_def)
    ultimately show ?thesis using array_loop_not_ok by metis
  qed
qed

lemma text_cut_elem:
  assumes "valid x" and "strict_prefix cs (text_of x)"
  shows "fails (array_loop elem ys (reading cs))"
proof (rule array_loop_elem_fails)
  show "fails (elem (reading cs))" using elem_cut [OF assms(1)] assms(2) by (simp add: cut_fails_def)
  obtain ds where "text_of x = CHR ''{'' # ds" using text_object by blast
  then show "cs = [] \<or> hd cs = CHR ''{''"
    using assms(2) by (cases cs) (auto simp: strict_prefix_def)
qed

lemma array_loop_text:
  assumes "valid x" and "rest = [] \<or> hd rest = CHR '']''"
  shows "array_loop elem ys (reading (text_of x @ CHR '','' # ds)) = array_loop elem (ys @ [x]) (reading ds)"
    and "fails (array_loop elem ys (reading (text_of x)))"
proof -
  obtain cs where cs: "text_of x = CHR ''{'' # cs" using text_object by blast
  have e: "elem (reading (CHR ''{'' # cs @ r)) = Some (Inr (x, reading r))" for r
    using elem_text [OF assms(1), of r] by (simp add: cs)
  show "array_loop elem ys (reading (text_of x @ CHR '','' # ds)) = array_loop elem (ys @ [x]) (reading ds)"
    using e by (subst array_loop.simps) (simp add: cs)
  show "fails (array_loop elem ys (reading (text_of x)))"
    using e [of "[]"] by (intro array_loop_elem_fails) (simp_all add: cs stuck_def)
qed

lemma array_loop_cut:
  assumes "\<forall>x \<in> set xs. valid x"
  shows "cut_fails (array_loop elem ys) (items_text text_of xs @ [CHR '']''])"
  using assms
proof (induction xs arbitrary: ys rule: induct_list012)
  case 1
  show ?case
    using array_loop_elem_fails [OF elem_empty] by (auto simp: cut_fails_def strict_prefix_def prefix_Cons)
next
  case (2 x)
  show ?case
    unfolding cut_fails_def
  proof (intro allI impI)
    fix cs assume "strict_prefix cs (items_text text_of [x] @ [CHR '']''])"
    then have "strict_prefix cs (text_of x) \<or> cs = text_of x" by (auto simp: strict_prefix_def)
    then show "fails (array_loop elem ys (reading cs))"
      using text_cut_elem [of x] array_loop_text(2) [of x "[]"] 2 by auto
  qed
next
  case (3 x y zs)
  show ?case
    unfolding cut_fails_def
  proof (intro allI impI)
    fix cs assume "strict_prefix cs (items_text text_of (x # y # zs) @ [CHR '']''])"
    then have "strict_prefix cs (text_of x @ CHR '','' # items_text text_of (y # zs) @ [CHR '']''])" by simp
    then show "fails (array_loop elem ys (reading cs))"
    proof (cases rule: prefix_append_cases)
      case (2 ds)
      then show ?thesis
        using array_loop_text [of x "[]"] 3 by (cases ds) (auto simp: cut_fails_def)
    qed (use text_cut_elem 3 in auto)
  qed
qed

lemma parse_array_cut:
  assumes "\<forall>x \<in> set xs. valid x"
  shows "cut_fails (parse_array elem []) (CHR ''['' # items_text text_of xs @ [CHR '']''])"
  unfolding cut_fails_def
proof (intro allI impI)
  fix cs assume cs: "strict_prefix cs (CHR ''['' # items_text text_of xs @ [CHR '']''])"
  show "fails (parse_array elem [] (reading cs))"
  proof (cases cs)
    case Nil
    then show ?thesis by (simp add: parse_array_def)
  next
    case (Cons c ds)
    then have c: "c = CHR ''[''" "fails (array_loop elem [] (reading ds))"
      using cs array_loop_cut [OF assms, of "[]"] by (auto simp: cut_fails_def)
    from c(2) show ?thesis
      by (cases rule: fails_cases) (use Cons c eat_stuck in \<open>simp_all add: parse_array_def\<close>)
  qed
qed

end

section \<open>Values\<close>

lemma u64_cut:
  assumes "prefix cs (to_string w)"
  shows "pr_in (snd (parse_u64 (reading cs))) = []"
proof -
  have d: "\<forall>c \<in> set cs. is_digit c"
    using assms to_string_digits [of w] by (auto simp: prefix_def list_all_iff)
  then have "dropWhile is_ws cs = cs"
    by (cases cs) (auto simp: is_digit_def is_ws_def)
  moreover have "dropWhile number_char cs = []" using d by (auto simp: number_char_def)
  ultimately show ?thesis by (simp add: parse_u64_def ws_def)
qed

lemma hex_digit_plain: "k < 16 \<Longrightarrow> hex_digits ! k \<noteq> CHR 0x22 \<and> hex_digits ! k \<noteq> CHR 0x5C"
proof -
  have "\<forall>k \<in> set [0..<16]. hex_digits ! k \<noteq> CHR 0x22 \<and> hex_digits ! k \<noteq> CHR 0x5C" by code_simp
  then show "k < 16 \<Longrightarrow> hex_digits ! k \<noteq> CHR 0x22 \<and> hex_digits ! k \<noteq> CHR 0x5C" by auto
qed

lemma string_body_char_cut:
  assumes "prefix cs (escaped_char c)"
  shows "snd (string_body cs acc) = []"
proof -
  have h: "hex_digits ! (k mod 16) \<noteq> CHR 0x22 \<and> hex_digits ! (k mod 16) \<noteq> CHR 0x5C" for k
    by (rule hex_digit_plain) simp
  have "(of_char c :: nat) < 32 \<Longrightarrow> hex_digits ! (of_char c div 16) \<noteq> CHR 0x22"
    using hex_digit_plain [of "of_char c div 16"] by simp
  then show ?thesis
    using assms h
    by (auto simp: escaped_char_def prefix_Cons escape_def Let_def split: if_splits)
qed

lemma string_body_cut:
  assumes "prefix cs (concat (map escaped_char s))"
  shows "snd (string_body cs acc) = []"
  using assms
proof (induction s arbitrary: cs acc)
  case (Cons c s)
  then have "prefix cs (escaped_char c) \<or>
      (\<exists>ds. cs = escaped_char c @ ds \<and> prefix ds (concat (map escaped_char s)))"
    by (simp add: prefix_append)
  then show ?case
  proof
    assume "\<exists>ds. cs = escaped_char c @ ds \<and> prefix ds (concat (map escaped_char s))"
    then obtain ds where ds: "cs = escaped_char c @ ds" "prefix ds (concat (map escaped_char s))" by blast
    show ?thesis
    proof (cases "ds = []")
      case True
      then show ?thesis using ds string_body_char_cut [of cs c] by simp
    next
      case False
      then show ?thesis using ds Cons.IH [of ds] by (simp add: string_body_escaped_char)
    qed
  qed (rule string_body_char_cut)
qed simp

lemma string_cut:
  assumes "strict_prefix cs (escaped s)"
  shows "\<not> pr_ok (snd (parse_string (reading cs)))"
proof (cases cs)
  case (Cons c ds)
  then have c: "c = CHR 0x22" "prefix ds (concat (map escaped_char s))"
    using assms by (auto simp: escaped_def quote_def strict_prefix_def)
  then show ?thesis
    using string_body_cut [OF c(2), of "[]"]
    by (simp add: Cons parse_string_def Let_def case_prod_beta)
qed simp

section \<open>The two formats\<close>

lemma simple_keys [simp]:
  "simple_key ''seq''" "simple_key ''payload''" "simple_key ''hash''" "simple_key ''t''"
  "simple_key ''from''" "simple_key ''events''" "simple_key ''version''"
  "simple_key ''committed_upto''" "simple_key ''event_count''"
  "simple_key ''history_hash''" "simple_key ''buffer''"
  by (simp_all add: simple_key_def)

text \<open>The values of the fields: a number, a string, an array.\<close>

lemma u64_field_cut:
  assumes "\<And>cs. f (reading cs) = Some (Inr (g (fst (parse_u64 (reading cs))), snd (parse_u64 (reading cs))))"
  shows "cut_fails f (to_string w)" and "fails (f (reading (to_string w)))"
  using u64_cut [of _ w] by (auto simp: cut_fails_def assms stuck_def strict_prefix_def)

lemma string_field_cut:
  assumes "\<And>cs. f (reading cs) = Some (Inr (g (fst (parse_string (reading cs))), snd (parse_string (reading cs))))"
  shows "cut_fails f (escaped s)" and "fails (f (reading (escaped s)))"
proof -
  show "cut_fails f (escaped s)" using string_cut [of _ s] by (simp add: cut_fails_def assms)
  have "parse_string (reading (escaped s)) = (s, reading [])"
    using parse_string_escaped [of s "[]"] by simp
  then show "fails (f (reading (escaped s)))" by (simp add: assms stuck_def)
qed

lemma buffered_cut: "cut_fails (parse_object buffered_field default_buffered) (buffered_text b)"
proof -
  let ?f = buffered_field
  have seq: "cut_fails (?f ''seq'' a) (to_string w)" "fails (?f ''seq'' a (reading (to_string w)))"
    "?f ''seq'' a (reading (to_string w @ CHR '','' # rest)) = Some (Inr (a\<lparr>br_seq := w\<rparr>, reading (CHR '','' # rest)))"
    for a w rest
    by (rule u64_field_cut [where g = "\<lambda>v. a\<lparr>br_seq := v\<rparr>"], simp add: buffered_field_def case_prod_beta)
       (rule u64_field_cut [where g = "\<lambda>v. a\<lparr>br_seq := v\<rparr>"], simp_all add: buffered_field_def case_prod_beta)
  have hash: "cut_fails (?f ''hash'' a) (to_string w)" "fails (?f ''hash'' a (reading (to_string w)))" for a w
    by (rule u64_field_cut [where g = "\<lambda>v. a\<lparr>br_hash := v\<rparr>"], simp add: buffered_field_def case_prod_beta)+
  have pay: "cut_fails (?f ''payload'' a) (escaped x)" "fails (?f ''payload'' a (reading (escaped x)))"
    "?f ''payload'' a (reading (escaped x @ CHR '','' # rest)) = Some (Inr (a\<lparr>br_payload := x\<rparr>, reading (CHR '','' # rest)))"
    for a x rest
    by (rule string_field_cut [where g = "\<lambda>v. a\<lparr>br_payload := v\<rparr>"], simp add: buffered_field_def case_prod_beta)
       (rule string_field_cut [where g = "\<lambda>v. a\<lparr>br_payload := v\<rparr>"], simp_all add: buffered_field_def case_prod_beta)
  have "cut_fails (object_loop ?f default_buffered)
      (quote ''seq'' @ CHR '':'' # to_string (br_seq b) @ CHR '','' #
        quote ''payload'' @ CHR '':'' # escaped (br_payload b) @ CHR '','' #
        quote ''hash'' @ CHR '':'' # to_string (br_hash b) @ [CHR ''}''])"
    by (rule member_cut_comma [where field = ?f], simp, rule seq(1), rule seq(2), rule seq(3),
        rule member_cut_comma [where field = ?f], simp, rule pay(1), rule pay(2), rule pay(3),
        rule member_cut_last [where field = ?f], simp, rule hash(1), rule hash(2))
  then show ?thesis
    using parse_object_cut(1) [where members = "quote ''seq'' @ CHR '':'' # to_string (br_seq b) @ CHR '','' #
        quote ''payload'' @ CHR '':'' # escaped (br_payload b) @ CHR '','' #
        quote ''hash'' @ CHR '':'' # to_string (br_hash b)"]
    by (simp add: buffered_text_def)
qed

interpretation buffered_cuts: json_cut "parse_object buffered_field default_buffered" buffered_text "\<lambda>_. True"
  by unfold_locales (simp_all add: buffered_cut, simp add: parse_object_def)

lemma event_cut: "cut_fails (parse_object event_field default_event) (event_text e)"
proof -
  let ?f = event_field
  have seq: "cut_fails (?f ''seq'' a) (to_string w)" "fails (?f ''seq'' a (reading (to_string w)))"
    "?f ''seq'' a (reading (to_string w @ CHR '','' # rest)) = Some (Inr (a\<lparr>re_seq := w\<rparr>, reading (CHR '','' # rest)))"
    for a w rest
    by (rule u64_field_cut [where g = "\<lambda>v. a\<lparr>re_seq := v\<rparr>"], simp add: event_field_def case_prod_beta)
       (rule u64_field_cut [where g = "\<lambda>v. a\<lparr>re_seq := v\<rparr>"], simp_all add: event_field_def case_prod_beta)
  have hash: "cut_fails (?f ''hash'' a) (to_string w)" "fails (?f ''hash'' a (reading (to_string w)))" for a w
    by (rule u64_field_cut [where g = "\<lambda>v. a\<lparr>re_hash := v\<rparr>"], simp add: event_field_def case_prod_beta)+
  have pay: "cut_fails (?f ''payload'' a) (escaped x)" "fails (?f ''payload'' a (reading (escaped x)))"
    "?f ''payload'' a (reading (escaped x @ CHR '','' # rest)) = Some (Inr (a\<lparr>re_payload := x\<rparr>, reading (CHR '','' # rest)))"
    for a x rest
    by (rule string_field_cut [where g = "\<lambda>v. a\<lparr>re_payload := v\<rparr>"], simp add: event_field_def case_prod_beta)
       (rule string_field_cut [where g = "\<lambda>v. a\<lparr>re_payload := v\<rparr>"], simp_all add: event_field_def case_prod_beta)
  have kind: "cut_fails (?f ''t'' a) (quote x)" "fails (?f ''t'' a (reading (quote x)))"
    "?f ''t'' a (reading (quote x @ CHR '','' # rest)) =
      Some (Inr (a\<lparr>re_is_response := (x = ''r'')\<rparr>, reading (CHR '','' # rest)))"
    if "plain_key x" for a x rest
    unfolding quote_plain [OF that]
    by (rule string_field_cut [where g = "\<lambda>v. a\<lparr>re_is_response := (v = ''r'')\<rparr>"], simp add: event_field_def case_prod_beta)
       (rule string_field_cut [where g = "\<lambda>v. a\<lparr>re_is_response := (v = ''r'')\<rparr>"],
        simp_all add: event_field_def case_prod_beta)
  let ?t = "if re_is_response e then ''r'' else ''R''"
  have t: "plain_key ?t" by simp
  let ?m = "if re_is_response e
    then quote ''t'' @ CHR '':'' # quote ?t @ CHR '','' # quote ''seq'' @ CHR '':'' # to_string (re_seq e) @ CHR '','' #
      quote ''payload'' @ CHR '':'' # escaped (re_payload e) @ CHR '','' # quote ''hash'' @ CHR '':'' # to_string (re_hash e)
    else quote ''t'' @ CHR '':'' # quote ?t @ CHR '','' # quote ''seq'' @ CHR '':'' # to_string (re_seq e)"
  have "cut_fails (object_loop ?f default_event)
      (quote ''t'' @ CHR '':'' # quote ?t @ CHR '','' # quote ''seq'' @ CHR '':'' # to_string (re_seq e) @ [CHR ''}''])"
    by (rule member_cut_comma [where field = ?f], simp, rule kind(1) [OF t], rule kind(2) [OF t], rule kind(3) [OF t],
        rule member_cut_last [where field = ?f], simp, rule seq(1), rule seq(2))
  moreover have "cut_fails (object_loop ?f default_event)
      (quote ''t'' @ CHR '':'' # quote ?t @ CHR '','' # quote ''seq'' @ CHR '':'' # to_string (re_seq e) @ CHR '','' #
        quote ''payload'' @ CHR '':'' # escaped (re_payload e) @ CHR '','' #
        quote ''hash'' @ CHR '':'' # to_string (re_hash e) @ [CHR ''}''])"
    by (rule member_cut_comma [where field = ?f], simp, rule kind(1) [OF t], rule kind(2) [OF t], rule kind(3) [OF t],
        rule member_cut_comma [where field = ?f], simp, rule seq(1), rule seq(2), rule seq(3),
        rule member_cut_comma [where field = ?f], simp, rule pay(1), rule pay(2), rule pay(3),
        rule member_cut_last [where field = ?f], simp, rule hash(1), rule hash(2))
  ultimately have "cut_fails (object_loop ?f default_event) (?m @ [CHR ''}''])"
    by (cases "re_is_response e") simp_all
  from parse_object_cut(1) [OF this] show ?thesis
    by (cases "re_is_response e") (simp_all add: event_text_def)
qed

interpretation event_cuts: json_cut "parse_object event_field default_event" event_text event_valid
  by unfold_locales (simp_all add: event_cut, simp add: parse_object_def)

text \<open>An array member of an object.\<close>

lemma array_field_cut:
  assumes "\<And>cs. f (reading cs) = (case parse_array elem [] (reading cs) of None \<Rightarrow> None
      | Some (Inl bs) \<Rightarrow> Some (Inl (g bs)) | Some (Inr (bs, p)) \<Rightarrow> Some (Inr (g bs, p)))"
    and "cut_fails (parse_array elem []) v" and "parse_array elem [] (reading v) = Some (Inr (x, reading []))"
  shows "cut_fails f v" and "fails (f (reading v))"
proof -
  show "fails (f (reading v))" using assms(1,3) by (simp add: stuck_def)
  show "cut_fails f v"
    unfolding cut_fails_def
  proof (intro allI impI)
    fix cs assume "strict_prefix cs v"
    then have "fails (parse_array elem [] (reading cs))" using assms(2) by (simp add: cut_fails_def)
    then show "fails (f (reading cs))" by (cases rule: fails_cases) (simp_all add: assms(1))
  qed
qed

lemma read_cut:
  assumes "cut_fails (object_loop field a) (members @ [CHR ''}''])"
    and "strict_prefix cs (CHR ''{'' # members @ [CHR ''}''])"
  shows "\<exists>out. read_result (parse_object field a (reading cs)) = Some (False, out)"
  using parse_object_cut(2) [OF assms] by (auto simp: read_result_def)

lemma checkpoint_cut:
  assumes "strict_prefix cs (checkpoint_to_json cp)"
  shows "\<exists>out. from_json_checkpoint cs = Some (False, out)"
proof -
  let ?f = checkpoint_field
  let ?items = "CHR ''['' # items_text buffered_text (cp_buffer cp) @ [CHR '']'']"
  let ?m = "quote ''version'' @ CHR '':'' # ''1'' @ CHR '','' #
      quote ''committed_upto'' @ CHR '':'' # to_string (cp_committed_upto cp) @ CHR '','' #
      quote ''event_count'' @ CHR '':'' # to_string (cp_event_count cp) @ CHR '','' #
      quote ''history_hash'' @ CHR '':'' # to_string (cp_history_hash cp) @ CHR '','' #
      quote ''buffer'' @ CHR '':'' # ?items"
  have printed: "checkpoint_to_json cp = CHR ''{'' # ?m @ [CHR ''}'']"
    by (simp add: checkpoint_to_json_def json_items_eq [OF json_buffered_eq])
  have ver: "cut_fails (?f ''version'' a) ''1''" "fails (?f ''version'' a (reading ''1''))"
    "?f ''version'' a (reading (''1'' @ CHR '','' # rest)) = Some (Inr (a, reading (CHR '','' # rest)))" for a rest
    by (auto simp: cut_fails_def strict_prefix_def prefix_Cons checkpoint_field_def skip_value_def ws_def is_ws_def stuck_def)
  have num: "cut_fails (?f k a) (to_string w)" "fails (?f k a (reading (to_string w)))"
    if "k \<in> {''committed_upto'', ''event_count'', ''history_hash''}" for k a w
  proof -
    let ?g = "\<lambda>v. if k = ''committed_upto'' then a\<lparr>cp_committed_upto := v\<rparr>
      else if k = ''event_count'' then a\<lparr>cp_event_count := v\<rparr> else a\<lparr>cp_history_hash := v\<rparr>"
    have "?f k a (reading cs) = Some (Inr (?g (fst (parse_u64 (reading cs))), snd (parse_u64 (reading cs))))" for cs
      using that by (auto simp: checkpoint_field_def case_prod_beta)
    from u64_field_cut [where g = ?g and f = "?f k a" and w = w, OF this]
    show "cut_fails (?f k a) (to_string w)" "fails (?f k a (reading (to_string w)))" by blast+
  qed
  have read: "?f ''committed_upto'' a (reading (to_string w @ CHR '','' # rest)) =
      Some (Inr (a\<lparr>cp_committed_upto := w\<rparr>, reading (CHR '','' # rest)))"
    "?f ''event_count'' a (reading (to_string w @ CHR '','' # rest)) =
      Some (Inr (a\<lparr>cp_event_count := w\<rparr>, reading (CHR '','' # rest)))"
    "?f ''history_hash'' a (reading (to_string w @ CHR '','' # rest)) =
      Some (Inr (a\<lparr>cp_history_hash := w\<rparr>, reading (CHR '','' # rest)))" for a w rest
    by (simp_all add: checkpoint_field_def)
  let ?c = "default_checkpoint\<lparr>cp_committed_upto := cp_committed_upto cp, cp_event_count := cp_event_count cp,
    cp_history_hash := cp_history_hash cp\<rparr>"
  have whole: "parse_array (parse_object buffered_field default_buffered) [] (reading ?items) =
      Some (Inr (cp_buffer cp, reading []))"
    using buffered_codec.parse_array_items [of "cp_buffer cp" "[]"] by simp
  have field: "?f ''buffer'' ?c (reading cs) = (case parse_array (parse_object buffered_field default_buffered) [] (reading cs) of
      None \<Rightarrow> None | Some (Inl bs) \<Rightarrow> Some (Inl (?c\<lparr>cp_buffer := bs\<rparr>))
    | Some (Inr (bs, p)) \<Rightarrow> Some (Inr (?c\<lparr>cp_buffer := bs\<rparr>, p)))" for cs
    by (simp add: checkpoint_field_def default_checkpoint_def split: option.split sum.split)
  have all_valid: "\<forall>b \<in> set (cp_buffer cp). True" by simp
  note buf = array_field_cut [where g = "\<lambda>bs. ?c\<lparr>cp_buffer := bs\<rparr>" and f = "?f ''buffer'' ?c" and v = ?items,
      OF field buffered_cuts.parse_array_cut [OF all_valid] whole]
  have last_one: "cut_fails (object_loop ?f ?c) (quote ''buffer'' @ CHR '':'' # ?items @ [CHR ''}''])"
    by (rule member_cut_last [where field = ?f and v = ?items], simp, fact buf(1), fact buf(2))
  have "cut_fails (object_loop ?f default_checkpoint)
      (quote ''version'' @ CHR '':'' # ''1'' @ CHR '','' #
       quote ''committed_upto'' @ CHR '':'' # to_string (cp_committed_upto cp) @ CHR '','' #
       quote ''event_count'' @ CHR '':'' # to_string (cp_event_count cp) @ CHR '','' #
       quote ''history_hash'' @ CHR '':'' # to_string (cp_history_hash cp) @ CHR '','' #
       quote ''buffer'' @ CHR '':'' # ?items @ [CHR ''}''])"
    by (rule member_cut_comma [where field = ?f and v = "''1''"], simp, rule ver(1), rule ver(2), rule ver(3),
        rule member_cut_comma [where field = ?f], simp, rule num(1), simp, rule num(2), simp, rule read(1),
        rule member_cut_comma [where field = ?f], simp, rule num(1), simp, rule num(2), simp, rule read(2),
        rule member_cut_comma [where field = ?f], simp, rule num(1), simp, rule num(2), simp, rule read(3),
        rule last_one)
  then have "cut_fails (object_loop ?f default_checkpoint) (?m @ [CHR ''}''])" by simp
  from read_cut [OF this] show ?thesis using assms by (simp add: from_json_checkpoint_def printed)
qed

lemma replay_cut:
  assumes "strict_prefix cs (replay_to_json rp)" and "\<forall>e \<in> set (rp_events rp). event_valid e"
  shows "\<exists>out. from_json_replay cs = Some (False, out)"
proof -
  let ?f = replay_field and ?c = "default_replay\<lparr>rp_from := rp_from rp\<rparr>"
  let ?items = "CHR ''['' # items_text event_text (rp_events rp) @ [CHR '']'']"
  let ?m = "quote ''from'' @ CHR '':'' # to_string (rp_from rp) @ CHR '','' # quote ''events'' @ CHR '':'' # ?items"
  have printed: "replay_to_json rp = CHR ''{'' # ?m @ [CHR ''}'']"
    by (simp add: replay_to_json_def json_items_eq [OF json_event_eq])
  have num: "cut_fails (?f ''from'' a) (to_string w)" "fails (?f ''from'' a (reading (to_string w)))"
    "?f ''from'' a (reading (to_string w @ CHR '','' # rest)) = Some (Inr (a\<lparr>rp_from := w\<rparr>, reading (CHR '','' # rest)))"
    for a w rest
    by (rule u64_field_cut [where g = "\<lambda>v. a\<lparr>rp_from := v\<rparr>"], simp add: replay_field_def case_prod_beta)
       (rule u64_field_cut [where g = "\<lambda>v. a\<lparr>rp_from := v\<rparr>"], simp_all add: replay_field_def case_prod_beta)
  have whole: "parse_array (parse_object event_field default_event) [] (reading ?items) =
      Some (Inr (rp_events rp, reading []))"
    using event_codec.parse_array_items [OF assms(2), of "[]"] by simp
  have field: "?f ''events'' ?c (reading cs) = (case parse_array (parse_object event_field default_event) [] (reading cs) of
      None \<Rightarrow> None | Some (Inl es) \<Rightarrow> Some (Inl (?c\<lparr>rp_events := es\<rparr>))
    | Some (Inr (es, p)) \<Rightarrow> Some (Inr (?c\<lparr>rp_events := es\<rparr>, p)))" for cs
    by (simp add: replay_field_def default_replay_def split: option.split sum.split)
  note buf = array_field_cut [where g = "\<lambda>es. ?c\<lparr>rp_events := es\<rparr>" and f = "?f ''events'' ?c" and v = ?items,
      OF field event_cuts.parse_array_cut [OF assms(2)] whole]
  have "cut_fails (object_loop ?f default_replay)
      (quote ''from'' @ CHR '':'' # to_string (rp_from rp) @ CHR '','' #
       quote ''events'' @ CHR '':'' # ?items @ [CHR ''}''])"
    by (rule member_cut_comma [where field = ?f], simp, rule num(1), rule num(2), rule num(3),
        rule member_cut_last [where field = ?f and v = ?items], simp, fact buf(1), fact buf(2))
  then have "cut_fails (object_loop ?f default_replay) (?m @ [CHR ''}''])" by simp
  from read_cut [OF this] show ?thesis using assms(1) by (simp add: from_json_replay_def printed)
qed

end
