(* ===== verification/Interceptor_Invariant.thy ===== *)
theory Interceptor_Invariant
  imports Interceptor Server_Invariant Json_Truncation
begin

text \<open>
  Invariants of the interceptor: what becomes of the HTTP request objects it is handed, which
  objects it holds, and what its checkpoint file contains at every moment.
\<close>

section \<open>Request objects\<close>

definition closes :: "nat \<Rightarrow> action \<Rightarrow> bool" where
  "closes obj a \<longleftrightarrow> (case a of Replied x st hp \<Rightarrow> x = obj | Aborted x \<Rightarrow> x = obj)"

abbreviation closings :: "nat \<Rightarrow> action list \<Rightarrow> nat" where
  "closings obj acts \<equiv> length (filter (closes obj) acts)"

definition held :: "'w interceptor \<Rightarrow> nat set" where
  "held i = ran (um_find (ic_pending i))"

definition holds_well :: "'w interceptor \<Rightarrow> bool" where
  "holds_well i \<longleftrightarrow> inj_on (um_find (ic_pending i)) (um_keys (ic_pending i))"

lemma closes_simps [simp]:
  "closes obj (Replied x st hp) \<longleftrightarrow> x = obj" "closes obj (Aborted x) \<longleftrightarrow> x = obj"
  "closes obj (Complete sh x resp) \<longleftrightarrow> x = obj"
  by (simp_all add: closes_def Complete_def Let_def)

text \<open>Completing one held object takes it out of the table, and closes it once.\<close>

lemma ran_erase:
  assumes "inj_on m (dom m)" and "m q = Some x"
  shows "ran (m(q := None)) = ran m - {x}" and "inj_on (m(q := None)) (dom (m(q := None)))"
proof -
  have one: "k = q" if "m k = Some x" for k
    using that assms(2) by (intro inj_onD [OF assms(1)]) auto
  show "ran (m(q := None)) = ran m - {x}"
  proof (intro equalityI subsetI)
    fix y assume "y \<in> ran (m(q := None))"
    then obtain k where "k \<noteq> q" "m k = Some y" by (auto simp: ran_def split: if_splits)
    then show "y \<in> ran m - {x}" using one by (auto simp: ran_def)
  next
    fix y assume "y \<in> ran m - {x}"
    then obtain k where "m k = Some y" "y \<noteq> x" by (auto simp: ran_def)
    then have "(m(q := None)) k = Some y" using assms(2) by auto
    then show "y \<in> ran (m(q := None))" by (rule ranI)
  qed
  show "inj_on (m(q := None)) (dom (m(q := None)))" using assms(1) by (auto simp: inj_on_def)
qed

lemma ran_put:
  assumes "inj_on m (dom m)" and "x \<notin> ran m"
  shows "ran (m(q \<mapsto> x)) = insert x (ran (m(q := None)))" and "inj_on (m(q \<mapsto> x)) (dom (m(q \<mapsto> x)))"
proof -
  show "ran (m(q \<mapsto> x)) = insert x (ran (m(q := None)))" by (auto simp: ran_def)
  show "inj_on (m(q \<mapsto> x)) (dom (m(q \<mapsto> x)))"
    using assms by (auto simp: inj_on_def ran_def)
qed

lemma complete_one_objects:
  assumes "holds_well (snd (snd acc))"
  shows "holds_well (snd (snd (complete_one x acc)))"
    and "closings obj (fst (complete_one x acc)) + of_bool (obj \<in> held (snd (snd (complete_one x acc)))) =
      closings obj (fst acc) + of_bool (obj \<in> held (snd (snd acc)))"
    and "um_keys (ic_pending (snd (snd (complete_one x acc)))) = um_keys (ic_pending (snd (snd acc))) - {rsp_seq x}"
proof -
  obtain acts k i where acc: "acc = (acts, k, i)" by (cases acc)
  let ?P = "holds_well (snd (snd (complete_one x acc))) \<and>
    closings obj (fst (complete_one x acc)) + of_bool (obj \<in> held (snd (snd (complete_one x acc)))) =
      closings obj (fst acc) + of_bool (obj \<in> held (snd (snd acc))) \<and>
    um_keys (ic_pending (snd (snd (complete_one x acc)))) = um_keys (ic_pending (snd (snd acc))) - {rsp_seq x}"
  have "?P"
  proof (cases "um_find (ic_pending i) (rsp_seq x)")
    case None
    then show ?thesis using assms by (auto simp: complete_one_def acc)
  next
    case (Some y)
    have i: "inj_on (um_find (ic_pending i)) (um_keys (ic_pending i))"
      using assms by (simp add: acc holds_well_def)
    have p: "um_find (ic_pending (snd (snd (complete_one x (acts, k, i))))) = (um_find (ic_pending i))(rsp_seq x := None)"
      "fst (complete_one x (acts, k, i)) = acts @ [Complete (ic_set_hash i) y x]"
      using Some by (simp_all add: complete_one_def Let_def umap.find_erase)
    have "y \<in> held i" using Some by (auto simp: held_def ran_def)
    then have "closings obj (fst (complete_one x acc)) + of_bool (obj \<in> held (snd (snd (complete_one x acc)))) =
        closings obj (fst acc) + of_bool (obj \<in> held (snd (snd acc)))"
      by (auto simp: held_def p acc ran_erase(1) [OF i Some])
    then show ?thesis
      using ran_erase(2) [OF i Some] by (simp add: holds_well_def p acc dom_fun_upd del: fun_upd_apply)
  qed
  then show "holds_well (snd (snd (complete_one x acc)))"
    and "closings obj (fst (complete_one x acc)) + of_bool (obj \<in> held (snd (snd (complete_one x acc)))) =
      closings obj (fst acc) + of_bool (obj \<in> held (snd (snd acc)))"
    and "um_keys (ic_pending (snd (snd (complete_one x acc)))) = um_keys (ic_pending (snd (snd acc))) - {rsp_seq x}"
    by blast+
qed

lemma complete_list_objects:
  assumes "holds_well (snd (snd acc))"
  shows "holds_well (snd (snd (fold complete_one xs acc))) \<and>
    closings obj (fst (fold complete_one xs acc)) + of_bool (obj \<in> held (snd (snd (fold complete_one xs acc)))) =
      closings obj (fst acc) + of_bool (obj \<in> held (snd (snd acc))) \<and>
    um_keys (ic_pending (snd (snd (fold complete_one xs acc)))) =
      um_keys (ic_pending (snd (snd acc))) - rsp_seq ` set xs"
  using assms
proof (induction xs arbitrary: acc)
  case (Cons x xs)
  note one = complete_one_objects [OF Cons.prems]
  from Cons.IH [OF one(1)] show ?case using one(2) [of obj] one(3) by auto
qed simp

text \<open>
  The conservation law of the request handler: an object held before, and the new one, are
  either held afterwards or closed by exactly one action.
\<close>

lemma on_color_request_objects:
  assumes "holds_well i" and "new \<notin> held i"
  shows "holds_well (snd (snd (on_color_request app room new r i)))"
    and "closings obj (fst (on_color_request app room new r i)) +
        of_bool (obj \<in> held (snd (snd (on_color_request app room new r i)))) =
      of_bool (obj \<in> insert new (held i))"
proof -
  let ?m = "um_find (ic_pending i)" and ?h = "handed_over app new r i"
  have inj: "inj_on ?m (dom ?m)" "new \<notin> ran ?m" using assms by (auto simp: holds_well_def held_def)
  note put = ran_put [OF inj, of "req_seq r"]
  have h: "holds_well ?h" "held ?h = insert new (ran (?m(req_seq r := None)))"
    using put by (simp_all add: holds_well_def held_def umap.find_put)
  have gone: "closings obj (superseded (req_seq r) i) + of_bool (obj \<in> ran (?m(req_seq r := None))) =
      of_bool (obj \<in> held i)" "new \<notin> ran (?m(req_seq r := None))"
  proof -
    have "closings obj (superseded (req_seq r) i) + of_bool (obj \<in> ran (?m(req_seq r := None))) =
        of_bool (obj \<in> held i) \<and> new \<notin> ran (?m(req_seq r := None))"
    proof (cases "?m (req_seq r)")
      case None
      then show ?thesis using inj(2) by (simp add: superseded_def held_def fun_upd_idem)
    next
      case (Some x)
      then have "x \<in> ran ?m" by (auto simp: ran_def)
      then show ?thesis
        using ran_erase(1) [OF inj(1) Some] inj(2) Some by (auto simp: superseded_def held_def)
    qed
    then show "closings obj (superseded (req_seq r) i) + of_bool (obj \<in> ran (?m(req_seq r := None))) =
        of_bool (obj \<in> held i)" "new \<notin> ran (?m(req_seq r := None))" by blast+
  qed
  have "holds_well (snd (snd (on_color_request app room new r i))) \<and>
    closings obj (fst (on_color_request app room new r i)) +
        of_bool (obj \<in> held (snd (snd (on_color_request app room new r i)))) =
      of_bool (obj \<in> insert new (held i))"
  proof (cases "is_recover (fst (on_request app r (ic_core i)))")
    case True
    let ?e = "?h\<lparr>ic_pending := um_erase (req_seq r) (ic_pending ?h)\<rparr>"
    have "holds_well ?e" "held ?e = ran (?m(req_seq r := None))"
      using inj(1) by (auto simp: holds_well_def held_def umap.find_put umap.find_erase inj_on_def)
    then show ?thesis using True gone inj(2) by (auto simp: on_color_request_eq held_def)
  next
    case False
    have "closings obj (fst (completed app new r i)) + of_bool (obj \<in> held (snd (snd (completed app new r i)))) =
        closings obj (superseded (req_seq r) i) + of_bool (obj \<in> held ?h)"
      "holds_well (snd (snd (completed app new r i)))"
      using complete_list_objects [of "(superseded (req_seq r) i, 0, ?h)" "fst (on_request app r (ic_core i))" obj] h(1) by (auto simp: completed_def)
    then show ?thesis
      using False gone h(2) inj(2) by (auto simp: on_color_request_eq Let_def held_def holds_well_def)
  qed
  then show "holds_well (snd (snd (on_color_request app room new r i)))"
    and "closings obj (fst (on_color_request app room new r i)) +
        of_bool (obj \<in> held (snd (snd (on_color_request app room new r i)))) =
      of_bool (obj \<in> insert new (held i))" by blast+
qed

lemma OnRequest_objects:
  assumes "holds_well i" and "new \<notin> held i" and "OnRequest app room new req i = Some (acts, ops, i')"
  shows "holds_well i'" and "closings obj acts + of_bool (obj \<in> held i') = of_bool (obj \<in> insert new (held i))"
proof -
  have "holds_well i' \<and> closings obj acts + of_bool (obj \<in> held i') = of_bool (obj \<in> insert new (held i))"
  proof (cases "hr_header req ''Color-Replay'' = []")
    case True
    then have "on_color_request app room new (Parse req) i = (acts, ops, i')"
      using assms(3) by (simp add: OnRequest_def)
    then show ?thesis using on_color_request_objects [OF assms(1,2)] by (metis fst_conv snd_conv)
  next
    case False
    then show ?thesis
      using assms by (auto simp: OnRequest_def OnReplay_def holds_well_def held_def split: option.splits prod.splits)
  qed
  then show "holds_well i'" and "closings obj acts + of_bool (obj \<in> held i') = of_bool (obj \<in> insert new (held i))"
    by blast+
qed

text \<open>Every held object waits for a request that the core has staged.\<close>

definition holds_staged :: "'w interceptor \<Rightarrow> bool" where
  "holds_staged i \<longleftrightarrow> well_keyed (ic_core i) \<and>
     um_keys (ic_pending i) \<subseteq> um_keys (srv_pending_reqs (ic_core i))"

lemma ingest_replay_pending [simp]: "srv_pending_reqs (ingest_replay rp s) = srv_pending_reqs s"
proof -
  have "srv_pending_reqs (ingest_event e t) = srv_pending_reqs t" for e and t :: "'a server"
    by (simp add: ingest_event_def Let_def case_prod_beta)
  then have "srv_pending_reqs (fold ingest_event es t) = srv_pending_reqs t" for es and t :: "'a server"
    by (induction es arbitrary: t) simp_all
  then show ?thesis by (simp add: ingest_replay_def Let_def)
qed

lemma on_color_request_staged:
  assumes "holds_staged i" and "holds_well i" and "new \<notin> held i"
  shows "holds_staged (snd (snd (on_color_request app room new r i)))"
proof -
  let ?out = "fst (on_request app r (ic_core i))" and ?h = "handed_over app new r i"
  have st: "well_keyed (ic_core i)" "um_keys (ic_pending i) \<subseteq> um_keys (srv_pending_reqs (ic_core i))"
    using assms(1) by (auto simp: holds_staged_def)
  note k = on_request_keys [OF st(1)]
  have keys: "um_keys (ic_pending ?h) = insert (req_seq r) (um_keys (ic_pending i))"
    by (simp add: umap.find_put)
  have "holds_well ?h"
    using ran_put(2) [of "um_find (ic_pending i)" new "req_seq r"] assms(2,3)
    by (simp add: holds_well_def held_def umap.find_put)
  then have "um_keys (ic_pending (snd (snd (completed app new r i)))) =
      um_keys (ic_pending ?h) - rsp_seq ` set ?out"
    using complete_list_objects [of "(superseded (req_seq r) i, 0, ?h)" ?out] by (simp add: completed_def)
  moreover have "um_keys (ic_pending ?h) - rsp_seq ` set ?out \<subseteq>
      um_keys (srv_pending_reqs (snd (on_request app r (ic_core i))))"
  proof -
    have "um_keys (ic_pending ?h) \<subseteq> insert (req_seq r) (um_keys (srv_pending_reqs (ic_core i)))"
      unfolding keys using st(2) by (rule insert_mono)
    also have "\<dots> \<subseteq> um_keys (srv_pending_reqs (snd (on_request app r (ic_core i)))) \<union> rsp_seq ` set ?out"
      by (rule k(2))
    finally show ?thesis by (simp only: Diff_subset_conv Un_commute)
  qed
  ultimately have done_ok: "holds_staged (snd (snd (completed app new r i)))"
    using k(1) by (simp add: holds_staged_def completed_def)
  show ?thesis
  proof (cases "is_recover ?out")
    case True
    then have "on_request app r (ic_core i) = ([recover_response r (ic_core i)], ic_core i)"
      using is_recover_needs on_request_recover by blast
    then show ?thesis
      using True st by (auto simp: holds_staged_def on_color_request_eq umap.find_erase umap.find_put split: if_splits)
  next
    case False
    then show ?thesis using done_ok by (simp add: on_color_request_eq Let_def holds_staged_def)
  qed
qed

lemma OnRequest_staged:
  assumes "holds_staged i" and "holds_well i" and "new \<notin> held i"
    and "OnRequest app room new req i = Some (acts, ops, j)"
  shows "holds_staged j"
proof (cases "hr_header req ''Color-Replay'' = []")
  case True
  then have "on_color_request app room new (Parse req) i = (acts, ops, j)"
    using assms(4) by (simp add: OnRequest_def)
  then show ?thesis using on_color_request_staged [OF assms(1-3)] by (metis snd_conv)
next
  case False
  then obtain rp where "j = i\<lparr>ic_core := ingest_replay rp (ic_core i)\<rparr>"
    using assms(4) by (auto simp: OnRequest_def OnReplay_def split: option.splits prod.splits)
  then show ?thesis using assms(1) by (simp add: holds_staged_def well_keyed_def)
qed

section \<open>Runs of the interceptor alone\<close>

text \<open>Any sequence of requests, each with an object of its own, that one process handles.\<close>

inductive handler_run :: "'w app \<Rightarrow> 'w interceptor \<Rightarrow> nat set \<Rightarrow> action list \<Rightarrow> bool" for app :: "'w app" where
  start: "interceptor_new sh path every w fs = Some i \<Longrightarrow> handler_run app i {} []"
| set_mismatch: "handler_run app i used log \<Longrightarrow> handler_run app (ic_on_hash_mismatch i) used log"
| set_committed: "handler_run app i used log \<Longrightarrow> handler_run app (on_committed i) used log"
| handle: "handler_run app i used log \<Longrightarrow> obj \<notin> used \<Longrightarrow>
    OnRequest app room obj req i = Some (acts, ops, j) \<Longrightarrow> handler_run app j (insert obj used) (log @ acts)"

lemma restored_pending [simp]: "srv_pending_reqs (fold restore_response bs s) = srv_pending_reqs s"
  by (induction bs arbitrary: s) (simp_all add: restore_response_def)

lemma handler_start:
  assumes "interceptor_new sh path every w fs = Some i"
  shows "ic_pending i = []" and "srv_pending_reqs (ic_core i) = []"
  using assms
  by (auto simp: interceptor_new_def server_new_def server_restore_def Let_def restored_pending split: option.splits)

lemma handler_run_objects:
  assumes "handler_run app i used log"
  shows "holds_well i" and "holds_staged i" and "held i \<subseteq> used"
    and "closings obj log + of_bool (obj \<in> held i) = of_bool (obj \<in> used)"
proof -
  have "holds_well i \<and> holds_staged i \<and> held i \<subseteq> used \<and>
    (\<forall>obj. closings obj log + of_bool (obj \<in> held i) = of_bool (obj \<in> used))"
    using assms
  proof induction
    case (start sh path every w fs i)
    then show ?case
      using handler_start [OF start] by (simp add: holds_well_def holds_staged_def held_def well_keyed_def)
  next
    case (set_mismatch i used log)
    then show ?case
      by (simp add: holds_well_def holds_staged_def held_def ic_on_hash_mismatch_def
          server_on_hash_mismatch_def well_keyed_def)
  next
    case (set_committed i used log)
    then show ?case by (simp add: holds_well_def holds_staged_def held_def on_committed_def)
  next
    case (handle i used log obj room req acts ops j)
    have new: "obj \<notin> held i" using handle by blast
    note o = OnRequest_objects [OF _ new handle(3)]
    have "holds_staged j" by (rule OnRequest_staged [OF _ _ new handle(3)]) (use handle.IH in auto)
    moreover have "closings x (log @ acts) + of_bool (x \<in> held j) = of_bool (x \<in> insert obj used)" for x
    proof -
      have "closings x acts + of_bool (x \<in> held j) = of_bool (x \<in> insert obj (held i))"
        "closings x log + of_bool (x \<in> held i) = of_bool (x \<in> used)" "held i \<subseteq> used"
        using o(2) handle.IH by blast+
      then show ?thesis
        using handle(2) new by (cases "x \<in> held i"; cases "x \<in> used"; cases "x = obj") auto
    qed
    moreover have "held j \<subseteq> insert obj used"
    proof
      fix x assume "x \<in> held j"
      then show "x \<in> insert obj used"
        using o(2) [of x] handle.IH by (cases "x \<in> insert obj (held i)") auto
    qed
    ultimately show ?case using o(1) handle.IH by blast
  qed
  then show "holds_well i" and "holds_staged i" and "held i \<subseteq> used"
    and "closings obj log + of_bool (obj \<in> held i) = of_bool (obj \<in> used)" by blast+
qed

section \<open>The checkpoint file\<close>

text \<open>
  Whatever happens to the disk, the checkpoint file and its temporary copy hold a prefix of a
  checkpoint that was written; a proper prefix is not loaded.
\<close>

definition files_ok :: "checkpoint set \<Rightarrow> string \<Rightarrow> files \<Rightarrow> bool" where
  "files_ok S path fs \<longleftrightarrow>
     (\<forall>p \<in> {path, path @ ''.tmp''}. \<forall>c. fs p = Some c \<longrightarrow> (\<exists>cp \<in> S. prefix c (checkpoint_to_json cp)))"

lemma files_ok_mono: "files_ok S path fs \<Longrightarrow> S \<subseteq> T \<Longrightarrow> files_ok T path fs"
  unfolding files_ok_def by blast

lemma load_checkpoint_ok:
  assumes "files_ok S path fs"
  obtains "load_checkpoint path fs = Some None"
  | cp where "cp \<in> S" "load_checkpoint path fs = Some (Some cp)"
proof (cases "path = [] \<or> fs path = None")
  case True
  then show ?thesis using that(1) by (auto simp: load_checkpoint_def)
next
  case False
  then have not_empty: "path \<noteq> []" by simp
  from False obtain c cp where c: "fs path = Some c" and cp: "cp \<in> S" "prefix c (checkpoint_to_json cp)"
    using assms by (auto simp: files_ok_def)
  show ?thesis
  proof (cases "c = checkpoint_to_json cp")
    case True
    then show ?thesis
      using that(2) [OF cp(1)] not_empty c checkpoint_read_back [of cp "[]"] by (simp add: load_checkpoint_def)
  next
    case False
    then have "strict_prefix c (checkpoint_to_json cp)" using cp(2) by (simp add: strict_prefix_def)
    from checkpoint_cut [OF this] show ?thesis using that(1) not_empty c by (auto simp: load_checkpoint_def)
  qed
qed

lemma tmp_neq [simp]: "path @ ''.tmp'' \<noteq> path" "path \<noteq> path @ ''.tmp''"
  by simp_all

lemma write_files_ok:
  assumes "files_ok S path fs" and "server_checkpoint (ic_core i) \<in> S" and "path = ic_checkpoint_path i"
    and "fs' \<in> crash_states (WriteCheckpoint room i) fs"
  shows "files_ok S path fs'"
proof -
  let ?j = "checkpoint_to_json (server_checkpoint (ic_core i))"
  have j: "\<exists>cp \<in> S. prefix (take n ?j) (checkpoint_to_json cp)" for n
    using assms(2) take_is_prefix by blast
  have e: "\<exists>cp \<in> S. prefix [] (checkpoint_to_json cp)" using assms(2) by auto
  show ?thesis
  proof (cases room)
    case None
    then show ?thesis
      using assms(1,3,4) by (auto simp: WriteCheckpoint_def Let_def files_ok_def split: option.splits if_splits)
  next
    case (Some n)
    then show ?thesis
      using assms(1,3,4) j e
      by (auto simp: WriteCheckpoint_def Let_def files_ok_def take_take split: option.splits if_splits)
  qed
qed

lemma crash_states_last: "fold run_op ops fs \<in> crash_states ops fs"
  by (induction ops arbitrary: fs) simp_all

lemma crash_states_first: "fs \<in> crash_states ops fs"
  by (cases ops) simp_all

text \<open>The file operations of one handled request are none or those of one checkpoint.\<close>

lemma on_color_request_ops:
  "fst (snd (on_color_request app room obj r i)) = [] \<or>
   (\<exists>j. ic_core j = snd (on_request app r (ic_core i)) \<and> ic_checkpoint_path j = ic_checkpoint_path i \<and>
      fst (snd (on_color_request app room obj r i)) = WriteCheckpoint room j)"
proof (cases "is_recover (fst (on_request app r (ic_core i)))")
  case False
  let ?C = "completed app obj r i"
  have c: "ic_core (snd (snd ?C)) = snd (on_request app r (ic_core i))"
    "ic_checkpoint_path (snd (snd ?C)) = ic_checkpoint_path i" by (simp_all add: completed_def)
  have "fst (MaybeCheckpoint room k j) = [] \<or>
      fst (MaybeCheckpoint room k j) = WriteCheckpoint room (j\<lparr>ic_commits_since := ic_commits_since j + k\<rparr>)"
    for k and j :: "'a interceptor"
    by (simp add: MaybeCheckpoint_def Let_def)
  then show ?thesis
    using False c by (simp add: on_color_request_eq Let_def) (metis interceptor.select_convs(1,3) interceptor.surjective interceptor.update_convs(5))
qed (simp add: on_color_request_eq)

end
