(* ===== verification/Winding_Down.thy ===== *)
theory Winding_Down
  imports Main
begin

text \<open>
  Threads that come to an end: the interface between the programs whose threads work until
  nothing is left (the worker pool of the server and the sender threads of the demo client)
  and the two facts their correctness rests on. Steps keep an invariant, some thread can go
  on as long as not all have finished, and every step makes a natural number smaller.
\<close>

locale winding_down =
  fixes trans :: "'s \<Rightarrow> 's \<Rightarrow> bool"
    and inv :: "'s \<Rightarrow> bool"
    and finished :: "'s \<Rightarrow> bool"
    and weight :: "'s \<Rightarrow> nat"
  assumes keeps: "trans s t \<Longrightarrow> inv s \<Longrightarrow> inv t"
    and goes_on: "inv s \<Longrightarrow> \<not> finished s \<Longrightarrow> \<exists>t. trans s t"
    and lighter: "trans s t \<Longrightarrow> inv s \<Longrightarrow> weight t < weight s"
begin

lemma run_keeps: "trans\<^sup>*\<^sup>* s t \<Longrightarrow> inv s \<Longrightarrow> inv t"
  by (induction rule: rtranclp_induct) (auto intro: keeps)

lemma run_ends:
  assumes "inv s"
  shows "\<exists>t. trans\<^sup>*\<^sup>* s t \<and> finished t \<and> inv t"
  using assms
proof (induction "weight s" arbitrary: s rule: less_induct)
  case less
  show ?case
  proof (cases "finished s")
    case False
    then obtain t where t: "trans s t" using goes_on [OF less.prems] by blast
    from less.hyps [OF lighter [OF t less.prems] keeps [OF t less.prems]]
    show ?thesis using t by (blast intro: converse_rtranclp_into_rtranclp)
  qed (use less.prems in blast)
qed

text \<open>No schedule of the threads runs for ever.\<close>

lemma no_endless_run:
  assumes "inv (run 0)" and "\<And>k. trans (run k) (run (Suc k))"
  shows False
proof -
  have inv: "inv (run k)" for k by (induction k) (use assms keeps in auto)
  have "weight (run k) + k \<le> weight (run 0)" for k
  proof (induction k)
    case (Suc k)
    then show ?case using lighter [OF assms(2) inv, of k] by simp
  qed simp
  from this [of "Suc (weight (run 0))"] show False by simp
qed

end

text \<open>The total weight of the threads when one of them changes.\<close>

lemma total_weight_update:
  fixes f :: "'a \<Rightarrow> nat"
  assumes "i < length xs"
  shows "sum_list (map f (xs[i := x])) + f (xs ! i) = sum_list (map f xs) + f x"
  using assms
proof (induction xs arbitrary: i)
  case (Cons y ys)
  then show ?case by (cases i) auto
qed simp

end
