(* ===== verification/Demo_Programs.thy ===== *)
theory Demo_Programs
  imports Http_Client Interceptor_Invariant Checker Winding_Down
begin

text \<open>
  The two demo programs, \<open>demo/src/color_client_main.cc\<close> and \<open>color_server_main.cc\<close>:
  their command lines, the application of the server, and the sender threads of the client,
  which share a counter of message numbers.

  Printing is not modelled. \<open>std::stod\<close> is the parameter \<open>stod\<close>, with \<open>None\<close> for the
  exception it throws; \<open>Bad_Number\<close> is such an exception leaving \<open>main\<close>, \<open>No_Value\<close>
  an option at the end of the command line, which makes a string of a null pointer.
\<close>

datatype arg_error = Unknown_Option string | Bad_Number | No_Value

section \<open>Numbers of the command line\<close>

text \<open>The number \<open>std::strtol\<close> and \<open>std::strtoull\<close> find: \<open>None\<close> if there is no digit.\<close>

definition leading_number :: "string \<Rightarrow> int option" where
  "leading_number s =
     (let s = dropWhile is_space s;
          neg = (s \<noteq> [] \<and> hd s = CHR ''-'');
          s = (if s \<noteq> [] \<and> (hd s = CHR ''-'' \<or> hd s = CHR ''+'') then tl s else s);
          ds = takeWhile is_digit s;
          v = int (nat_of_digits ds)
      in if ds = [] then None else Some (if neg then - v else v))"

definition stoi :: "string \<Rightarrow> int option" where
  "stoi s =
     (case leading_number s of
        None \<Rightarrow> None
      | Some v \<Rightarrow> if - (2 ^ 31) \<le> v \<and> v < 2 ^ 31 then Some v else None)"

definition stoull :: "string \<Rightarrow> 64 word option" where
  "stoull s =
     (case leading_number s of
        None \<Rightarrow> None
      | Some v \<Rightarrow> if \<bar>v\<bar> < 2 ^ 64 then Some (strtoull s) else None)"

section \<open>The client program\<close>

record client_config =
  cc_url :: string
  cc_count :: int
  cc_interval_ms :: int
  cc_parallel :: int
  cc_drop :: real
  cc_drop_resp :: real
  cc_seed :: "64 word"
  cc_set_hash :: bool
  cc_quiet :: bool

definition default_client_config :: client_config where
  "default_client_config =
     \<lparr>cc_url = ''http://127.0.0.1:8080/color'', cc_count = 20, cc_interval_ms = 1000, cc_parallel = 1,
      cc_drop = 0.3, cc_drop_resp = 0.3, cc_seed = 1, cc_set_hash = False, cc_quiet = False\<rparr>"

fun inj_str :: "injected \<Rightarrow> string" where
  "inj_str kDropRequest = ''drop-request''"
| "inj_str kDropResponse = ''drop-response''"
| "inj_str kNone = ''ok''"

definition client_valued :: "string list" where
  "client_valued = [''--url'', ''--count'', ''--interval-ms'', ''--parallel'', ''--drop'', ''--drop-resp'', ''--seed'']"

definition set_client_option ::
    "(string \<Rightarrow> real option) \<Rightarrow> string \<Rightarrow> string \<Rightarrow> client_config \<Rightarrow> client_config option" where
  "set_client_option stod a v c =
     (if a = ''--url'' then Some (c\<lparr>cc_url := v\<rparr>)
      else if a = ''--count'' then map_option (\<lambda>n. c\<lparr>cc_count := n\<rparr>) (stoi v)
      else if a = ''--interval-ms'' then map_option (\<lambda>n. c\<lparr>cc_interval_ms := n\<rparr>) (stoi v)
      else if a = ''--parallel'' then map_option (\<lambda>n. c\<lparr>cc_parallel := n\<rparr>) (stoi v)
      else if a = ''--drop'' then map_option (\<lambda>x. c\<lparr>cc_drop := x\<rparr>) (stod v)
      else if a = ''--drop-resp'' then map_option (\<lambda>x. c\<lparr>cc_drop_resp := x\<rparr>) (stod v)
      else if a = ''--seed'' then map_option (\<lambda>n. c\<lparr>cc_seed := n\<rparr>) (stoull v)
      else Some c)"

fun client_args ::
    "(string \<Rightarrow> real option) \<Rightarrow> string list \<Rightarrow> client_config \<Rightarrow> arg_error + client_config" where
  "client_args stod [] c = Inr c"
| "client_args stod (a # args) c =
     (if a \<in> set client_valued
      then (case args of
              [] \<Rightarrow> Inl No_Value
            | v # args \<Rightarrow>
                (case set_client_option stod a v c of
                   None \<Rightarrow> Inl Bad_Number
                 | Some c \<Rightarrow> client_args stod args c))
      else if a = ''--hash'' then client_args stod args (c\<lparr>cc_set_hash := True\<rparr>)
      else if a = ''--quiet'' then client_args stod args (c\<lparr>cc_quiet := True\<rparr>)
      else Inl (Unknown_Option a))"

text \<open>The transport and the client that \<open>main\<close> makes, with its callbacks.\<close>

definition client_setup :: "client_config \<Rightarrow> 'n \<Rightarrow> transport \<times> 'n http_client" where
  "client_setup c n =
     (transport_new (cc_drop c) (cc_drop_resp c) (cc_seed c) 2000,
      http_on_recover (http_on_attempt (http_on_hash_mismatch
        (http_client_new (cc_url c) True (cc_set_hash c) n))))"

definition client_payload :: "int \<Rightarrow> string" where
  "client_payload ms = ''{\"cli_ts\":'' @ show_int ms @ ''}''"

text \<open>
  The sender threads. \<open>next_id\<close> is an atomic \<open>int\<close>, which wraps around; \<open>dc_sent\<close> lists
  the message numbers whose \<open>send\<close> was called, in order. \<open>client.send\<close> itself is the
  subject of \<open>Http_Client\<close> and \<open>Http_System\<close>.
\<close>

datatype sender_thread = Fetching | In_Send int | Left_Loop

record demo_client =
  dc_next_id :: "32 word"
  dc_threads :: "sender_thread list"
  dc_sent :: "int list"

definition demo_client_new :: "client_config \<Rightarrow> demo_client" where
  "demo_client_new c =
     \<lparr>dc_next_id = 0, dc_threads = replicate (nat (cc_parallel c)) Fetching, dc_sent = []\<rparr>"

definition fetch_id :: "client_config \<Rightarrow> nat \<Rightarrow> demo_client \<Rightarrow> demo_client option" where
  "fetch_id c t d =
     (if t < length (dc_threads d) \<and> dc_threads d ! t = Fetching
      then (let i = sint (dc_next_id d); d = d\<lparr>dc_next_id := dc_next_id d + 1\<rparr>
            in if i \<ge> cc_count c then Some (d\<lparr>dc_threads := (dc_threads d)[t := Left_Loop]\<rparr>)
               else Some (d\<lparr>dc_threads := (dc_threads d)[t := In_Send i], dc_sent := dc_sent d @ [i]\<rparr>))
      else None)"

definition send_returned :: "nat \<Rightarrow> demo_client \<Rightarrow> demo_client option" where
  "send_returned t d =
     (if t < length (dc_threads d) \<and> (\<exists>i. dc_threads d ! t = In_Send i)
      then Some (d\<lparr>dc_threads := (dc_threads d)[t := Fetching]\<rparr>) else None)"

inductive demo_step :: "client_config \<Rightarrow> demo_client \<Rightarrow> demo_client \<Rightarrow> bool" for c :: client_config where
  fetch: "fetch_id c t d = Some e \<Longrightarrow> demo_step c d e"
| send_returns: "send_returned t d = Some e \<Longrightarrow> demo_step c d e"

inductive_cases demo_step_cases: "demo_step c d e"

definition all_joined :: "demo_client \<Rightarrow> bool" where
  "all_joined d \<longleftrightarrow> list_all (\<lambda>x. x = Left_Loop) (dc_threads d)"

text \<open>The status \<open>main\<close> returns after the threads are joined.\<close>

definition client_status :: "client \<Rightarrow> int" where
  "client_status core = (if length (cli_mismatches core) = 0 then 0 else 1)"

section \<open>The server program\<close>

record server_config =
  sc_port :: int
  sc_threads :: int
  sc_uri :: string
  sc_set_hash :: bool
  sc_quiet :: bool
  sc_checkpoint :: string
  sc_checkpoint_every :: int

definition default_server_config :: server_config where
  "default_server_config =
     \<lparr>sc_port = 8080, sc_threads = 4, sc_uri = ''/color'', sc_set_hash = False, sc_quiet = False,
      sc_checkpoint = [], sc_checkpoint_every = 16\<rparr>"

definition server_valued :: "string list" where
  "server_valued = [''--port'', ''--threads'', ''--uri'', ''--checkpoint'', ''--checkpoint-every'']"

definition set_server_option :: "string \<Rightarrow> string \<Rightarrow> server_config \<Rightarrow> server_config option" where
  "set_server_option a v c =
     (if a = ''--port'' then map_option (\<lambda>n. c\<lparr>sc_port := n\<rparr>) (stoi v)
      else if a = ''--threads'' then map_option (\<lambda>n. c\<lparr>sc_threads := n\<rparr>) (stoi v)
      else if a = ''--uri'' then Some (c\<lparr>sc_uri := v\<rparr>)
      else if a = ''--checkpoint'' then Some (c\<lparr>sc_checkpoint := v\<rparr>)
      else if a = ''--checkpoint-every'' then map_option (\<lambda>n. c\<lparr>sc_checkpoint_every := n\<rparr>) (stoi v)
      else Some c)"

fun server_args :: "string list \<Rightarrow> server_config \<Rightarrow> arg_error + server_config" where
  "server_args [] c = Inr c"
| "server_args (a # args) c =
     (if a \<in> set server_valued
      then (case args of
              [] \<Rightarrow> Inl No_Value
            | v # args \<Rightarrow>
                (case set_server_option a v c of
                   None \<Rightarrow> Inl Bad_Number
                 | Some c \<Rightarrow> server_args args c))
      else if a = ''--hash'' then server_args args (c\<lparr>sc_set_hash := True\<rparr>)
      else if a = ''--quiet'' then server_args args (c\<lparr>sc_quiet := True\<rparr>)
      else Inl (Unknown_Option a))"

text \<open>The application; the world it reads is the clock, \<open>now_ms()\<close>.\<close>

definition echo_app :: "int app" where
  "echo_app now q payload H =
     (''{\"srv_ts\":'' @ show_int now @ '',\"seq\":'' @ to_string q @ ''}'', now)"

text \<open>
  \<open>main\<close> up to the point where it waits for requests. \<open>creates\<close> and \<open>accepts\<close> say whether
  the HTTP library makes a server for the port and whether that starts; \<open>Serving\<close> carries
  the state the server begins with, \<open>Terminated\<close> an error of the command line.
\<close>

datatype server_ending = Terminated arg_error | Exit_Status int | Serving "int interceptor"

definition server_main ::
    "(int \<Rightarrow> bool) \<Rightarrow> (int \<Rightarrow> bool) \<Rightarrow> int \<Rightarrow> files \<Rightarrow> string list \<Rightarrow> server_ending option" where
  "server_main creates accepts now fs args =
     (case server_args args default_server_config of
        Inl (Unknown_Option a) \<Rightarrow> Some (Exit_Status 2)
      | Inl e \<Rightarrow> Some (Terminated e)
      | Inr c \<Rightarrow>
          if \<not> creates (sc_port c) then Some (Exit_Status 1)
          else
            (case interceptor_new (sc_set_hash c) (sc_checkpoint c) (of_int (sc_checkpoint_every c)) now fs of
               None \<Rightarrow> None
             | Some i \<Rightarrow>
                 (let i = (if \<not> sc_quiet c then on_committed i else i);
                      i = ic_on_hash_mismatch i
                  in if \<not> accepts (sc_port c) then Some (Exit_Status 1) else Some (Serving i))))"

section \<open>Message numbers\<close>

fun fetches :: "sender_thread \<Rightarrow> nat" where
  "fetches Left_Loop = 1"
| "fetches _ = 0"

text \<open>
  The invariant of the threads while the counter has not wrapped around: the numbers given
  out are those below the counter or below the limit, in order.
\<close>

definition demo_inv :: "client_config \<Rightarrow> demo_client \<Rightarrow> bool" where
  "demo_inv c d \<longleftrightarrow>
     length (dc_threads d) = nat (cc_parallel c) \<and>
     (\<exists>k. k \<le> nat (cc_count c) \<and> dc_sent d = map int [0..<k] \<and>
        dc_next_id d = of_nat (k + sum_list (map fetches (dc_threads d))) \<and>
        (0 < sum_list (map fetches (dc_threads d)) \<longrightarrow> k = nat (cc_count c)))"

lemma fetches_le: "sum_list (map fetches ts) \<le> length ts"
proof (induction ts)
  case (Cons w ts)
  then show ?case by (cases w) auto
qed simp

lemma fetches_less:
  assumes "t < length ts" and "fetches (ts ! t) = 0"
  shows "sum_list (map fetches ts) < length ts"
  using total_weight_update [OF assms(1), of fetches Left_Loop] fetches_le [of "ts[t := Left_Loop]"] assms(2) by simp

lemma sint_small: "n < 2 ^ 31 \<Longrightarrow> sint (of_nat n :: 32 word) = int n"
  by (simp add: signed_of_nat signed_take_bit_int_eq_self)

lemma fetch_inv:
  assumes "fetch_id c t d = Some e" and "demo_inv c d" and "nat (cc_count c) + nat (cc_parallel c) \<le> 2 ^ 31"
  shows "demo_inv c e"
proof -
  let ?n = "sum_list (map fetches (dc_threads d))"
  obtain k where k: "k \<le> nat (cc_count c)" "dc_sent d = map int [0..<k]" "dc_next_id d = of_nat (k + ?n)"
      "0 < ?n \<longrightarrow> k = nat (cc_count c)" and len: "length (dc_threads d) = nat (cc_parallel c)"
    using assms(2) by (auto simp: demo_inv_def)
  have t: "t < length (dc_threads d)" "dc_threads d ! t = Fetching"
    using assms(1) by (auto simp: fetch_id_def split: if_splits)
  have "?n < length (dc_threads d)" using fetches_less [OF t(1)] t(2) by simp
  then have "k + ?n < 2 ^ 31" using k(1) assms(3) len by linarith
  from sint_small [OF this] have i: "sint (dc_next_id d) = int (k + ?n)" by (simp only: k(3))
  show ?thesis
  proof (cases "int (k + ?n) \<ge> cc_count c")
    case True
    then have e: "e = d\<lparr>dc_next_id := dc_next_id d + 1, dc_threads := (dc_threads d)[t := Left_Loop]\<rparr>"
      using assms(1) t i by (simp add: fetch_id_def Let_def)
    have "sum_list (map fetches (dc_threads e)) = Suc ?n" "k = nat (cc_count c)"
      using total_weight_update [OF t(1), of fetches Left_Loop] t(2) e True k(1,4) by auto
    then show ?thesis using e k len by (simp add: demo_inv_def)
  next
    case False
    then have e: "e = d\<lparr>dc_next_id := dc_next_id d + 1,
        dc_threads := (dc_threads d)[t := In_Send (int (k + ?n))], dc_sent := dc_sent d @ [int (k + ?n)]\<rparr>"
      using assms(1) t i by (simp add: fetch_id_def Let_def)
    have "\<not> k \<ge> nat (cc_count c)" using False by linarith
    then have z: "?n = 0" "k < nat (cc_count c)" using k(4) by linarith+
    have "sum_list (map fetches (dc_threads e)) = 0"
      using total_weight_update [OF t(1), of fetches "In_Send (int k)"] t(2) e z(1) by simp
    then show ?thesis using e k len z unfolding demo_inv_def
      by (intro conjI exI [of _ "Suc k"]) (simp_all del: sum_list_eq_0_iff)
  qed
qed

lemma send_returned_inv:
  assumes "send_returned t d = Some e" and "demo_inv c d"
  shows "demo_inv c e"
proof -
  obtain i where t: "t < length (dc_threads d)" "dc_threads d ! t = In_Send i"
      and e: "e = d\<lparr>dc_threads := (dc_threads d)[t := Fetching]\<rparr>"
    using assms(1) by (auto simp: send_returned_def split: if_splits)
  have "sum_list (map fetches (dc_threads e)) = sum_list (map fetches (dc_threads d))"
    using total_weight_update [OF t(1), of fetches Fetching] t(2) e by simp
  then show ?thesis using assms(2) e by (simp add: demo_inv_def del: sum_list_eq_0_iff)
qed

lemma demo_inv_new: "demo_inv c (demo_client_new c)"
proof -
  have "sum_list (map fetches (replicate n Fetching)) = 0" for n by (induction n) simp_all
  then show ?thesis by (simp add: demo_inv_def demo_client_new_def del: sum_list_eq_0_iff)
qed

text \<open>Every step brings the end nearer, and some thread can go on until all have left.\<close>

fun thread_weight :: "sender_thread \<Rightarrow> nat" where
  "thread_weight Fetching = 1"
| "thread_weight (In_Send i) = 2"
| "thread_weight Left_Loop = 0"

definition demo_left :: "client_config \<Rightarrow> demo_client \<Rightarrow> nat" where
  "demo_left c d =
     2 * (nat (cc_count c) - length (dc_sent d)) + sum_list (map thread_weight (dc_threads d))"

lemma demo_step_left:
  assumes "demo_step c d e" and "demo_inv c d" and "demo_inv c e"
  shows "demo_left c e < demo_left c d"
  using assms(1)
proof cases
  case (fetch t)
  then have t: "t < length (dc_threads d)" "dc_threads d ! t = Fetching"
    by (auto simp: fetch_id_def split: if_splits)
  have le: "length (dc_sent e) \<le> nat (cc_count c)" using assms(3) by (auto simp: demo_inv_def)
  show ?thesis
  proof (cases "sint (dc_next_id d) \<ge> cc_count c")
    case True
    then show ?thesis
      using fetch t total_weight_update [OF t(1), of thread_weight Left_Loop]
      by (auto simp: fetch_id_def Let_def demo_left_def)
  next
    case False
    then have "length (dc_sent e) = Suc (length (dc_sent d))" using fetch t by (auto simp: fetch_id_def Let_def)
    then show ?thesis
      using False fetch t le total_weight_update [OF t(1), of thread_weight "In_Send (sint (dc_next_id d))"]
      by (auto simp: fetch_id_def Let_def demo_left_def)
  qed
next
  case (send_returns t)
  then obtain i where t: "t < length (dc_threads d)" "dc_threads d ! t = In_Send i"
    by (auto simp: send_returned_def split: if_splits)
  then show ?thesis
    using send_returns total_weight_update [OF t(1), of thread_weight Fetching] by (auto simp: send_returned_def demo_left_def)
qed

lemma demo_not_stuck:
  assumes "\<not> all_joined d"
  shows "\<exists>e. demo_step c d e"
proof -
  obtain t where t: "t < length (dc_threads d)" "dc_threads d ! t \<noteq> Left_Loop"
    using assms by (auto simp: all_joined_def list_all_length)
  show ?thesis
  proof (cases "dc_threads d ! t")
    case Fetching
    then have "fetch_id c t d \<noteq> None" using t by (simp add: fetch_id_def Let_def)
    then show ?thesis by (blast intro: demo_step.fetch)
  next
    case (In_Send i)
    then obtain e where "send_returned t d = Some e" using t by (auto simp: send_returned_def)
    then show ?thesis by (blast intro: demo_step.send_returns)
  qed (use t in simp)
qed

lemma joined_fetches: "all_joined d \<Longrightarrow> sum_list (map fetches (dc_threads d)) = length (dc_threads d)"
proof -
  have "list_all (\<lambda>x. x = Left_Loop) ts \<Longrightarrow> sum_list (map fetches ts) = length ts" for ts
    by (induction ts) auto
  then show "all_joined d \<Longrightarrow> ?thesis" by (simp add: all_joined_def)
qed

lemma joined_sent_all:
  assumes "demo_inv c d" and "all_joined d" and "cc_parallel c > 0"
  shows "dc_sent d = map int [0..<nat (cc_count c)]"
  using assms joined_fetches [OF assms(2)] by (auto simp: demo_inv_def simp del: sum_list_eq_0_iff)

text \<open>Message numbers and threads together fit into an \<open>int\<close>.\<close>

definition numbers_fit :: "client_config \<Rightarrow> bool" where
  "numbers_fit c \<longleftrightarrow> nat (cc_count c) + nat (cc_parallel c) \<le> 2 ^ 31"

lemma demo_step_inv: "demo_step c d e \<Longrightarrow> demo_inv c d \<Longrightarrow> numbers_fit c \<Longrightarrow> demo_inv c e"
  unfolding numbers_fit_def by (erule demo_step_cases) (auto intro: fetch_inv send_returned_inv)

interpretation demo_end: winding_down "demo_step c" "\<lambda>d. demo_inv c d \<and> numbers_fit c" all_joined "demo_left c" for c
  by unfold_locales (auto intro: demo_step_inv demo_not_stuck demo_step_left)

end
