(* ===== verification/Http_System.thy ===== *)
theory Http_System
  imports Http_Client Interceptor_Invariant Conversation
begin

text \<open>
  The program as it is deployed: sender threads of one HTTP client (\<open>send\<close> and \<open>recover\<close>
  of \<open>color_http_client.cc\<close>), the interceptor in the server process, the checkpoint file,
  and HTTP in between. The steps are the sections of the code that run under one of the two
  mutexes, and the events of the network:

  \<^item> a sender generates a request, POSTs it, and gets a reply, which it takes, or answers
    with a replay first; a POST may fail at any time, and is then repeated;
  \<^item> the server handles a POST that reached it, which may complete other held requests and
    may write a checkpoint, on a disk that may be full;
  \<^item> the server process crashes, between two requests or in the middle of writing a
    checkpoint, and a new process starts from the file.

  A POST reaches the handler at most once, and nothing is assumed about which POSTs arrive and
  when; a repeated request is a new POST. One premise restricts the
  network, as in \<open>Conversation\<close>: a replay is not handed to a server that holds less of the
  history than the replay leaves out. The simulation shows that every state of this system is
  a state of the abstract protocol, so that the theorems about the protocol hold for it.
\<close>

datatype sender =
    Idle
  | Sending request
  | Waiting request nat
  | Replaying request "string list" string
  | Replay_Waiting request "string list" string nat

record 'w http_sys =
  hx_client :: client
  hx_threads :: "nat \<Rightarrow> sender"
  hx_ic :: "'w interceptor"
  hx_fs :: files
  hx_posts :: "(nat \<times> string list \<times> string) list"
  hx_log :: "action list"
  hx_next :: nat
  hx_replay_objs :: "nat set"
  hx_generated :: nat

text \<open>\<open>hx_replay_objs\<close> and \<open>hx_generated\<close> are history variables; no step reads them.\<close>

fun status_code :: "http_status \<Rightarrow> int" where
  "status_code OK = 200"
| "status_code SERVICE_UNAV = 503"

text \<open>The result a client gets for a reply, given the header lines that reached it.\<close>

definition reply_result :: "http_status \<Rightarrow> http_reply \<Rightarrow> string list \<Rightarrow> http_result" where
  "reply_result st hp ls =
     \<lparr>res_delivered = True, res_status = status_code st, res_headers = fold write_header ls [],
      res_body = hp_body hp\<rparr>"

definition http_start ::
    "bool \<Rightarrow> bool \<Rightarrow> bool \<Rightarrow> string \<Rightarrow> size_t \<Rightarrow> 'w \<Rightarrow> 'w http_sys option" where
  "http_start deliver set_hash srv_hash path every w =
     (case interceptor_new srv_hash path every w Map.empty of
        None \<Rightarrow> None
      | Some i \<Rightarrow>
          Some \<lparr>hx_client = client_on_hash_mismatch (client_new deliver set_hash),
                hx_threads = (\<lambda>_. Idle), hx_ic = ic_on_hash_mismatch (on_committed i), hx_fs = Map.empty,
                hx_posts = [], hx_log = [], hx_next = 0, hx_replay_objs = {}, hx_generated = 0\<rparr>)"

definition replay_fits :: "http_request \<Rightarrow> 'w interceptor \<Rightarrow> bool" where
  "replay_fits req i \<longleftrightarrow>
     (hr_header req ''Color-Replay'' \<noteq> [] \<longrightarrow>
       (\<forall>rp. from_json_replay (ReadBody req) = Some (True, rp) \<longrightarrow>
          rp_from rp \<le> event_count (srv_history (ic_core i))))"

definition add_post :: "string list \<Rightarrow> string \<Rightarrow> 'w http_sys \<Rightarrow> 'w http_sys" where
  "add_post lines body h =
     h\<lparr>hx_posts := (hx_next h, lines, body) # hx_posts h, hx_next := Suc (hx_next h)\<rparr>"

definition set_thread :: "nat \<Rightarrow> sender \<Rightarrow> 'w http_sys \<Rightarrow> 'w http_sys" where
  "set_thread t x h = h\<lparr>hx_threads := (hx_threads h)(t := x)\<rparr>"

inductive http_step :: "'w app \<Rightarrow> bool \<Rightarrow> string \<Rightarrow> 'w http_sys \<Rightarrow> 'w http_sys \<Rightarrow> bool"
  for app :: "'w app" and crashes :: bool and path :: string where
  begin_send: "hx_threads h t = Idle \<Longrightarrow> generate_request p (hx_client h) = (r, c) \<Longrightarrow>
    http_step app crashes path h
      (set_thread t (Sending r) (h\<lparr>hx_client := c, hx_generated := Suc (hx_generated h)\<rparr>))"
| post_request: "hx_threads h t = Sending r \<Longrightarrow>
    http_step app crashes path h
      (set_thread t (Waiting r (hx_next h)) (add_post (header_lines r) (req_payload r) h))"
| post_failed: "hx_threads h t = Waiting r obj \<Longrightarrow>
    http_step app crashes path h (set_thread t (Sending r) h)"
| take_reply: "hx_threads h t = Waiting r obj \<Longrightarrow> Replied obj st hp \<in> set (hx_log h) \<Longrightarrow>
    answered_with (hp_headers hp) ls \<Longrightarrow> after_post r (reply_result st hp ls) = Take x \<Longrightarrow>
    on_response x (hx_client h) = Some (b, c) \<Longrightarrow>
    http_step app crashes path h (set_thread t Idle (h\<lparr>hx_client := c\<rparr>))"
| begin_recover: "hx_threads h t = Waiting r obj \<Longrightarrow> Replied obj st hp \<in> set (hx_log h) \<Longrightarrow>
    answered_with (hp_headers hp) ls \<Longrightarrow> after_post r (reply_result st hp ls) = Recover_First n \<Longrightarrow>
    replay_post n (hx_client h) = (nev, lines, body) \<Longrightarrow>
    http_step app crashes path h (set_thread t (Replaying r lines body) h)"
| post_replay: "hx_threads h t = Replaying r lines body \<Longrightarrow>
    http_step app crashes path h
      (set_thread t (Replay_Waiting r lines body (hx_next h))
        (add_post lines body (h\<lparr>hx_replay_objs := insert (hx_next h) (hx_replay_objs h)\<rparr>)))"
| replay_failed: "hx_threads h t = Replay_Waiting r lines body obj \<Longrightarrow>
    http_step app crashes path h (set_thread t (Replaying r lines body) h)"
| replay_taken: "hx_threads h t = Replay_Waiting r lines body obj \<Longrightarrow>
    Replied obj OK hp \<in> set (hx_log h) \<Longrightarrow>
    http_step app crashes path h (set_thread t (Sending r) h)"
| serve: "(obj, lines, body) \<in> set (hx_posts h) \<Longrightarrow> arrives lines body req \<Longrightarrow>
    replay_fits req (hx_ic h) \<Longrightarrow> OnRequest app room obj req (hx_ic h) = Some (acts, ops, i) \<Longrightarrow>
    http_step app crashes path h
      (h\<lparr>hx_ic := i, hx_log := hx_log h @ acts, hx_fs := fold run_op ops (hx_fs h),
         hx_posts := remove1 (obj, lines, body) (hx_posts h)\<rparr>)"
| crash: "crashes \<Longrightarrow> interceptor_new srv_hash path every w (hx_fs h) = Some i \<Longrightarrow>
    http_step app crashes path h (h\<lparr>hx_ic := ic_on_hash_mismatch i\<rparr>)"
| crash_in_serve: "crashes \<Longrightarrow> (obj, lines, body) \<in> set (hx_posts h) \<Longrightarrow> arrives lines body req \<Longrightarrow>
    replay_fits req (hx_ic h) \<Longrightarrow> OnRequest app room obj req (hx_ic h) = Some (acts, ops, i) \<Longrightarrow>
    fs \<in> crash_states ops (hx_fs h) \<Longrightarrow> interceptor_new srv_hash path every w fs = Some j \<Longrightarrow>
    http_step app crashes path h
      (h\<lparr>hx_ic := ic_on_hash_mismatch j, hx_log := hx_log h @ take n acts, hx_fs := fs,
         hx_posts := remove1 (obj, lines, body) (hx_posts h)\<rparr>)"
| outside_world: "http_step app crashes path h
    (h\<lparr>hx_ic := (hx_ic h)\<lparr>ic_core := (ic_core (hx_ic h))\<lparr>srv_world := w\<rparr>\<rparr>\<rparr>)"

inductive_cases http_step_cases: "http_step app crashes path h h'"

inductive http_reachable :: "'w app \<Rightarrow> bool \<Rightarrow> string \<Rightarrow> 'w http_sys \<Rightarrow> bool"
  for app :: "'w app" and crashes :: bool and path :: string where
  start: "http_start d sh ssh path every w = Some h \<Longrightarrow> http_reachable app crashes path h"
| step: "http_reachable app crashes path h \<Longrightarrow> http_step app crashes path h h' \<Longrightarrow>
    http_reachable app crashes path h'"

section \<open>Messages survive HTTP\<close>

text \<open>The responses of the core that are not recovery signals.\<close>

definition plain_response :: "bool \<Rightarrow> response \<Rightarrow> bool" where
  "plain_response sh x \<longleftrightarrow>
     \<not> rsp_recover x \<and> rsp_recover_from x = 0 \<and> (\<not> sh \<longrightarrow> rsp_hash x = None)"

lemma make_response_plain: "plain_response (srv_set_hash s) (make_response q p no_op s)"
  by (simp add: plain_response_def make_response_def Let_def split: option.split)

lemma commit_next_plain:
  "srv_set_hash (snd (commit_next app r s)) = srv_set_hash s"
  "plain_response (srv_set_hash s) (fst (commit_next app r s))"
proof -
  show h: "srv_set_hash (snd (commit_next app r s)) = srv_set_hash s"
    by (simp add: commit_next_def commit_request_parts)
  have "\<exists>q p. fst (commit_next app r s) = make_response q p False (snd (commit_next app r s))"
    unfolding commit_next_def commit_request_parts(14) by blast
  then show "plain_response (srv_set_hash s) (fst (commit_next app r s))"
    using make_response_plain h by metis
qed

lemma on_request_plain:
  fixes s :: "'w server"
  shows "srv_set_hash (snd (on_request app req s)) = srv_set_hash s"
    and "\<not> is_recover (fst (on_request app req s)) \<Longrightarrow>
      x \<in> set (fst (on_request app req s)) \<Longrightarrow> plain_response (srv_set_hash s) x"
proof -
  have "srv_set_hash (snd (on_request app req s)) = srv_set_hash s \<and>
    (\<not> is_recover (fst (on_request app req s)) \<longrightarrow>
      (\<forall>x \<in> set (fst (on_request app req s)). plain_response (srv_set_hash s) x))"
  proof (cases req s rule: on_request_cases)
    case recover
    then show ?thesis by (simp add: on_request_recover recover_response_def is_recover_def)
  next
    case (resend p)
    then show ?thesis
      using make_response_plain [of "release_acked req s"] by (simp add: on_request_resend)
  next
    case awaiting
    then show ?thesis
      using make_response_plain [of "snd (answer_awaiting app req (release_acked req s))"]
      by (simp add: on_request_awaiting answer_awaiting_parts)
  next
    case no_op
    then show ?thesis
      using make_response_plain [of "release_acked req s"] by (simp add: on_request_no_op)
  next
    case new
    let ?t = "stage req (release_acked req s)"
    let ?P = "\<lambda>(t :: 'w server) (out :: response list). srv_set_hash t = srv_set_hash s \<and> (\<forall>x \<in> set out. plain_response (srv_set_hash s) x)"
    have "?P (snd (commit_loop app ?t [])) (fst (commit_loop app ?t [])) \<and>
      um_find (srv_pending_reqs (snd (commit_loop app ?t [])))
        (srv_committed_upto (snd (commit_loop app ?t [])) + 1) = None"
    proof (rule commit_loop_rule [where P = ?P])
      show "?P ?t []" by (simp add: stage_def)
      fix t out r assume P: "?P t out"
      then have "plain_response (srv_set_hash s) (fst (commit_next app r t))"
        using commit_next_plain(2) [of t app r] by simp
      then show "?P (snd (commit_next app r t)) (out @ [fst (commit_next app r t)])"
        using P commit_next_plain(1) [of app r t] by auto
    qed
    then show ?thesis using new by (simp add: on_request_new)
  qed
  then show "srv_set_hash (snd (on_request app req s)) = srv_set_hash s"
    and "\<not> is_recover (fst (on_request app req s)) \<Longrightarrow>
      x \<in> set (fst (on_request app req s)) \<Longrightarrow> plain_response (srv_set_hash s) x" by blast+
qed

text \<open>A completed response reaches the client as it was, and so does a recovery signal.\<close>

lemma color_key_facts [simp]:
  "trimmed ''color-seq''" "trimmed ''color-hash''" "trimmed ''color-no-op''" "trimmed ''color-recover''"
  "trimmed ''1''"
  by (simp_all add: trimmed_def blank_def)

lemma tolower_names [simp]:
  "map tolower ''Color-Seq'' = ''color-seq''" "map tolower ''Color-Hash'' = ''color-hash''"
  "map tolower ''Color-No-Op'' = ''color-no-op''" "map tolower ''Color-Recover'' = ''color-recover''"
  "map tolower ''Content-Type'' = ''content-type''"
  by code_simp+

definition reply_headers :: "bool \<Rightarrow> response \<Rightarrow> (string, string) umap" where
  "reply_headers sh x =
     (''Color-Seq'', to_string (rsp_seq x)) #
     (case rsp_hash x of Some h \<Rightarrow> (if sh then [(''Color-Hash'', to_string h)] else []) | None \<Rightarrow> []) @
     (if rsp_no_op x then [(''Color-No-Op'', ''1'')] else []) @
     [(''Content-Type'', ''application/json'')]"

lemma Complete_eq:
  "Complete sh obj x = Replied obj OK \<lparr>hp_headers = reply_headers sh x, hp_body = rsp_payload x\<rparr>"
  by (simp add: Complete_def reply_headers_def Let_def split: option.split)

lemma reply_headers_found:
  assumes "answered_with (reply_headers sh x) ls"
  shows "um_find (fold write_header ls []) ''color-seq'' = Some (to_string (rsp_seq x))"
    and "um_find (fold write_header ls []) ''color-hash'' =
      (if sh then map_option to_string (rsp_hash x) else None)"
    and "um_find (fold write_header ls []) ''color-no-op'' = (if rsp_no_op x then Some ''1'' else None)"
    and "um_find (fold write_header ls []) ''color-recover'' = None"
proof -
  note none = answered_with_find(1) [OF assms] and some = answered_with_find(2) [OF assms]
  have f: "filter (\<lambda>nv. map tolower (fst nv) = ''color-seq'') (reply_headers sh x) = [(''Color-Seq'', to_string (rsp_seq x))]"
    "filter (\<lambda>nv. map tolower (fst nv) = ''color-hash'') (reply_headers sh x) =
      (case rsp_hash x of Some h \<Rightarrow> (if sh then [(''Color-Hash'', to_string h)] else []) | None \<Rightarrow> [])"
    "filter (\<lambda>nv. map tolower (fst nv) = ''color-no-op'') (reply_headers sh x) =
      (if rsp_no_op x then [(''Color-No-Op'', ''1'')] else [])"
    "filter (\<lambda>nv. map tolower (fst nv) = ''color-recover'') (reply_headers sh x) = []"
    by (simp_all add: reply_headers_def del: list.map split: option.split)
  have k: "''color-seq'' \<in> set color_keys" "''color-hash'' \<in> set color_keys"
    "''color-no-op'' \<in> set color_keys" "''color-recover'' \<in> set color_keys"
    by (simp_all add: color_keys_def)
  show "um_find (fold write_header ls []) ''color-seq'' = Some (to_string (rsp_seq x))"
    by (rule some [OF k(1) f(1)]) simp_all
  show "um_find (fold write_header ls []) ''color-recover'' = None"
    by (rule none [OF k(4) f(4)])
  show "um_find (fold write_header ls []) ''color-no-op'' = (if rsp_no_op x then Some ''1'' else None)"
    using none [OF k(3)] some [OF k(3)] f(3) by simp
  show "um_find (fold write_header ls []) ''color-hash'' = (if sh then map_option to_string (rsp_hash x) else None)"
    using none [OF k(2)] some [OF k(2)] f(2) by (cases "rsp_hash x") simp_all
qed

lemma completed_response_received:
  assumes "Replied obj st hp = Complete sh obj' x" and "plain_response sh x"
    and "answered_with (hp_headers hp) ls"
  shows "after_post r (reply_result st hp ls) = Take x"
proof -
  have hp: "st = OK" "hp_headers hp = reply_headers sh x" "hp_body hp = rsp_payload x"
    using assms(1) by (auto simp: Complete_eq)
  note h = reply_headers_found [OF assms(3) [unfolded hp(2)]]
  have "received_response r (reply_result st hp ls) =
      \<lparr>rsp_seq = rsp_seq x, rsp_hash = rsp_hash x, rsp_payload = rsp_payload x, rsp_no_op = rsp_no_op x,
       rsp_recover = False, rsp_recover_from = 0\<rparr>"
    using assms(2)
    by (cases "rsp_hash x")
       (auto simp: received_response_def reply_result_def hp(3) h strtoull_to_string default_response_def plain_response_def)
  also have "\<dots> = x" using assms(2) by (simp add: plain_response_def)
  finally show ?thesis by (simp add: after_post_def reply_result_def hp(1))
qed

lemma recovery_signal_received:
  assumes "hp_headers hp = [(''Color-Recover'', ''from='' @ to_string n)]" and "answered_with (hp_headers hp) ls"
  shows "after_post r (reply_result SERVICE_UNAV hp ls) = Recover_First n"
proof -
  have "trimmed (''from='' @ to_string n)"
    using trimmed_to_string [of n] by (simp add: trimmed_def blank_def)
  moreover have "filter (\<lambda>nv. map tolower (fst nv) = ''color-recover'') (hp_headers hp) =
      [(''Color-Recover'', ''from='' @ to_string n)]"
    by (simp add: assms(1) del: list.map)
  ultimately have f: "um_find (fold write_header ls []) ''color-recover'' = Some (''from='' @ to_string n)"
    by (intro answered_with_find(2) [OF assms(2), where n = "''Color-Recover''"]) (simp_all add: color_keys_def)
  have "CHR 0x00 \<notin> set (to_string n)"
    using to_string_digits [of n] by (auto simp: list_all_iff is_digit_def)
  then have "takeWhile (\<lambda>c. c \<noteq> CHR 0x00) (''from='' @ to_string n) = ''from='' @ to_string n"
    by (auto simp: takeWhile_eq_all_conv)
  then have "recover_position (''from='' @ to_string n) = n"
    by (simp add: recover_position_def strtoull_to_string del: takeWhile_eq_all_conv)
  then show ?thesis by (simp add: after_post_def reply_result_def f)
qed

end
