(* ===== verification/Http_Refinement.thy ===== *)
theory Http_Refinement
  imports Http_System
begin

text \<open>
  The simulation of the deployed system by the abstract protocol of \<open>Conversation\<close>: every
  request in a thread or on its way is a request the abstract client sent, every reply in the
  log is a response, or a recovery signal, that the abstract server sent, every replay on its
  way is an abstract replay, and the files hold abstract checkpoints or proper prefixes of them.
\<close>

definition replay_text :: "'w sys \<Rightarrow> string list \<Rightarrow> string \<Rightarrow> bool" where
  "replay_text s lines body \<longleftrightarrow>
     (\<exists>rp \<in> set (replays s). (\<forall>e \<in> set (rp_events rp). event_valid e) \<and>
        lines = replay_lines (rp_from rp) \<and>
        body = replay_to_json rp)"

definition thread_ok :: "'w sys \<Rightarrow> nat \<Rightarrow> nat set \<Rightarrow> sender \<Rightarrow> bool" where
  "thread_ok s nxt R x \<longleftrightarrow>
     (case x of
        Idle \<Rightarrow> True
      | Sending r \<Rightarrow> r \<in> set (c2s s)
      | Waiting r obj \<Rightarrow> r \<in> set (c2s s) \<and> obj \<notin> R \<and> obj < nxt
      | Replaying r lines body \<Rightarrow> r \<in> set (c2s s) \<and> replay_text s lines body
      | Replay_Waiting r lines body obj \<Rightarrow> r \<in> set (c2s s) \<and> replay_text s lines body)"

definition post_ok :: "'w sys \<Rightarrow> nat \<Rightarrow> nat set \<Rightarrow> nat \<times> string list \<times> string \<Rightarrow> bool" where
  "post_ok s nxt R p \<longleftrightarrow>
     (case p of (obj, lines, body) \<Rightarrow> obj < nxt \<and>
        (if obj \<in> R then replay_text s lines body
         else \<exists>r \<in> set (c2s s). lines = header_lines r \<and> body = req_payload r))"

definition signal_headers :: "size_t \<Rightarrow> (string, string) umap" where
  "signal_headers n = [(''Color-Recover'', ''from='' @ to_string n)]"

definition reply_ok :: "'w sys \<Rightarrow> nat set \<Rightarrow> action \<Rightarrow> bool" where
  "reply_ok s R a \<longleftrightarrow>
     (case a of
        Replied obj st hp \<Rightarrow> obj \<notin> R \<longrightarrow>
          (\<exists>sh x. x \<in> set (s2c s) \<and> plain_response sh x \<and> a = Complete sh obj x) \<or>
          (\<exists>n \<in> set (signals s). st = SERVICE_UNAV \<and> hp_headers hp = signal_headers n)
      | Aborted obj \<Rightarrow> True)"

definition first_checkpoint :: checkpoint where
  "first_checkpoint = \<lparr>cp_committed_upto = 0, cp_event_count = 0, cp_history_hash = hash_seed, cp_buffer = []\<rparr>"

text \<open>The part of the relation that does not speak of the server process.\<close>

definition outside_ok :: "string \<Rightarrow> 'w http_sys \<Rightarrow> 'w sys \<Rightarrow> bool" where
  "outside_ok path h s \<longleftrightarrow>
     cl s = hx_client h \<and> length (issued s) = hx_generated h \<and> hx_replay_objs h \<subseteq> {..<hx_next h} \<and>
     (\<forall>t. thread_ok s (hx_next h) (hx_replay_objs h) (hx_threads h t)) \<and>
     (\<forall>p \<in> set (hx_posts h). post_ok s (hx_next h) (hx_replay_objs h) p) \<and>
     (\<forall>a \<in> set (hx_log h). reply_ok s (hx_replay_objs h) a) \<and>
     files_ok (set (saved s)) path (hx_fs h) \<and> first_checkpoint \<in> set (saved s)"

definition server_ok :: "string \<Rightarrow> 'w interceptor \<Rightarrow> 'w sys \<Rightarrow> bool" where
  "server_ok path i s \<longleftrightarrow>
     sv s = ic_core i \<and> ic_set_hash i = srv_set_hash (ic_core i) \<and> ic_checkpoint_path i = path"

definition simulates :: "string \<Rightarrow> 'w http_sys \<Rightarrow> 'w sys \<Rightarrow> bool" where
  "simulates path h s \<longleftrightarrow> outside_ok path h s \<and> server_ok path (hx_ic h) s"

section \<open>The relation only gains messages\<close>

definition grows :: "'w sys \<Rightarrow> 'w sys \<Rightarrow> bool" where
  "grows s t \<longleftrightarrow> set (c2s s) \<subseteq> set (c2s t) \<and> set (s2c s) \<subseteq> set (s2c t) \<and>
     set (signals s) \<subseteq> set (signals t) \<and> set (replays s) \<subseteq> set (replays t) \<and> set (saved s) \<subseteq> set (saved t)"

lemma replay_text_grows: "replay_text s lines body \<Longrightarrow> grows s t \<Longrightarrow> replay_text t lines body"
  unfolding replay_text_def grows_def by blast

lemma thread_ok_grows: "thread_ok s n R x \<Longrightarrow> grows s t \<Longrightarrow> thread_ok t n R x"
  by (auto simp: thread_ok_def split: sender.splits intro: replay_text_grows) (auto simp: grows_def)

lemma post_ok_grows: "post_ok s n R p \<Longrightarrow> grows s t \<Longrightarrow> post_ok t n R p"
  by (auto simp: post_ok_def split: if_splits prod.splits intro: replay_text_grows) (auto simp: grows_def)

lemma reply_ok_grows: "reply_ok s R a \<Longrightarrow> grows s t \<Longrightarrow> reply_ok t R a"
  by (fastforce simp: reply_ok_def grows_def split: action.splits)

lemma outside_ok_grows:
  assumes "outside_ok path h s" and "grows s t" and "cl t = cl s" and "issued t = issued s"
  shows "outside_ok path h t"
  using assms thread_ok_grows [OF _ assms(2)] post_ok_grows [OF _ assms(2)] reply_ok_grows [OF _ assms(2)]
    files_ok_mono [of "set (saved s)" path "hx_fs h" "set (saved t)"]
  unfolding outside_ok_def by (simp add: grows_def) blast

section \<open>The server process\<close>

lemma fresh_server: "server_restore first_checkpoint sh w = server_new sh w"
  by (simp add: server_restore_def first_checkpoint_def server_new_def history_resume_def history_new_def)

lemma restart_simulated:
  assumes "outside_ok path h s" and "crashes" and "interceptor_new sh path every w (hx_fs h) = Some j"
  shows "\<exists>t. (step app crashes)\<^sup>*\<^sup>* s t \<and> simulates path (h\<lparr>hx_ic := ic_on_hash_mismatch j\<rparr>) t"
proof -
  have files: "files_ok (set (saved s)) path (hx_fs h)" and first: "first_checkpoint \<in> set (saved s)"
    using assms(1) by (auto simp: outside_ok_def)
  obtain cp where cp: "cp \<in> set (saved s)" "ic_core j = server_restore cp sh w"
    and j: "ic_set_hash j = sh" "ic_checkpoint_path j = path"
    using files
  proof (cases rule: load_checkpoint_ok)
    case 1
    then show ?thesis using that [OF first] assms(3) by (auto simp: interceptor_new_def fresh_server)
  next
    case (2 cp)
    then show ?thesis using that [OF 2(1)] assms(3) by (auto simp: interceptor_new_def)
  qed
  let ?t = "s\<lparr>sv := server_on_hash_mismatch (server_restore (cp\<lparr>cp_buffer := cp_buffer cp\<rparr>) sh w)\<rparr>"
  have "step app crashes s ?t" using assms(2) cp(1) by (rule step.crash) simp
  moreover have "srv_set_hash (server_restore cp sh w) = sh" by (simp add: server_restore_fields)
  then have "server_ok path (ic_on_hash_mismatch j) ?t"
    using cp(2) j by (simp add: server_ok_def ic_on_hash_mismatch_def server_on_hash_mismatch_def)
  moreover have "outside_ok path h ?t" using assms(1) by (rule outside_ok_grows) (simp_all add: grows_def)
  ultimately show ?thesis
    by (intro exI [of _ ?t]) (simp add: simulates_def outside_ok_def)
qed

lemma served_simulates:
  assumes "outside_ok path h t" and "\<And>a. a \<in> set acts \<Longrightarrow> reply_ok t (hx_replay_objs h) a"
    and "files_ok (set (saved t)) path fs" and "server_ok path i t"
  shows "simulates path (h\<lparr>hx_ic := i, hx_log := hx_log h @ acts, hx_fs := fs\<rparr>) t"
  using assms by (auto simp: simulates_def outside_ok_def)

text \<open>Handling a POST, up to any state of the files it may leave.\<close>

lemma serve_request_simulated:
  assumes sim: "simulates path h s" and r: "r \<in> set (c2s s)"
    and run: "on_color_request app room obj r (hx_ic h) = (acts, ops, i)"
    and fs: "fs \<in> crash_states ops (hx_fs h)"
  shows "\<exists>t. (step app crashes)\<^sup>*\<^sup>* s t \<and>
    simulates path (h\<lparr>hx_ic := i, hx_log := hx_log h @ acts, hx_fs := fs\<rparr>) t"
proof -
  let ?out = "fst (on_request app r (sv s))" and ?core = "snd (on_request app r (sv s))"
  have out: "outside_ok path h s" and srv: "sv s = ic_core (hx_ic h)"
    "ic_set_hash (hx_ic h) = srv_set_hash (sv s)" "ic_checkpoint_path (hx_ic h) = path"
    using sim by (auto simp: simulates_def server_ok_def)
  define t where "t = (do_deliver_request app r s)\<lparr>saved := server_checkpoint ?core # saved s\<rparr>"
  have d: "sv (do_deliver_request app r s) = ?core" "saved (do_deliver_request app r s) = saved s"
    by (simp_all add: do_deliver_request_def case_prod_beta)
  have "step app crashes s (do_deliver_request app r s)" using r by (rule step.deliver_request)
  moreover have "step app crashes (do_deliver_request app r s) t"
    using step.take_checkpoint [of app crashes "do_deliver_request app r s"] by (simp add: t_def d)
  ultimately have steps: "(step app crashes)\<^sup>*\<^sup>* s t" by simp
  have g: "grows s t" "cl t = cl s" "issued t = issued s" "sv t = ?core" "set (saved t) = insert (server_checkpoint ?core) (set (saved s))"
    by (auto simp: t_def grows_def do_deliver_request_def case_prod_beta)
  have o: "outside_ok path h t" using out g(1-3) by (rule outside_ok_grows)
  have i: "ic_core i = ?core" "ic_set_hash i = ic_set_hash (hx_ic h)" "ic_checkpoint_path i = path"
    using run on_color_request_core [of app room obj r "hx_ic h"] srv by simp_all
  have iok: "server_ok path i t"
    using i srv g(4) on_request_plain(1) [of app r "sv s"] by (simp add: server_ok_def)
  have rok: "reply_ok t (hx_replay_objs h) a" if "a \<in> set acts" for a
  proof (cases a)
    case (Replied x st hp)
    have sent: "set ?out \<subseteq> set (s2c t)" if "\<not> is_recover ?out"
      using that by (auto simp: t_def do_deliver_request_def case_prod_beta)
    have sig: "rsp_recover_from (?out ! 0) \<in> set (signals t)" if "is_recover ?out"
      using that by (simp add: t_def do_deliver_request_def case_prod_beta)
    have "Replied x st hp \<in> set (fst (on_color_request app room obj r (hx_ic h)))"
      using that Replied run by simp
    from on_color_request_replies [OF this] show ?thesis
    proof
      assume *: "\<not> is_recover (fst (on_request app r (ic_core (hx_ic h)))) \<and>
        (\<exists>y \<in> set (fst (on_request app r (ic_core (hx_ic h)))). Replied x st hp = Complete (ic_set_hash (hx_ic h)) x y)"
      then obtain y where "y \<in> set ?out" "Replied x st hp = Complete (ic_set_hash (hx_ic h)) x y" by (auto simp: srv(1))
      moreover have "plain_response (ic_set_hash (hx_ic h)) y" "y \<in> set (s2c t)"
        using * calculation(1) on_request_plain(2) [of app r "sv s" y] sent by (auto simp: srv)
      ultimately show ?thesis unfolding Replied reply_ok_def action.case by blast
    qed (use sig in \<open>auto simp: Replied reply_ok_def srv signal_headers_def\<close>)
  qed (simp add: reply_ok_def)
  have fok: "files_ok (set (saved t)) path fs"
  proof (cases "ops = []")
    case True
    then show ?thesis using o fs by (simp add: outside_ok_def)
  next
    case False
    then obtain j where j: "ops = WriteCheckpoint room j" "ic_core j = ?core" "path = ic_checkpoint_path j"
      using on_color_request_ops [of app room obj r "hx_ic h"] run srv by auto
    have old: "files_ok (set (saved t)) path (hx_fs h)" using o unfolding outside_ok_def by blast
    have "server_checkpoint (ic_core j) \<in> set (saved t)" unfolding g(5) j(2) by (rule insertI1)
    from write_files_ok [OF old this j(3) fs [unfolded j(1)]] show ?thesis .
  qed
  show ?thesis using steps served_simulates [OF o rok fok iok] by blast
qed

lemma replay_lines_values:
  "line_value (replay_lines n) ''Color-Replay'' = to_string n"
  by (simp add: line_value_def replay_lines_def)

lemma ingest_replay_set_hash: "srv_set_hash (ingest_replay rp s) = srv_set_hash s"
proof -
  have one: "srv_set_hash (ingest_event e t) = srv_set_hash t" for e and t :: "'a server"
    by (simp add: ingest_event_def Let_def case_prod_beta)
  have "srv_set_hash (fold ingest_event es t) = srv_set_hash t" for es and t :: "'a server"
    by (induction es arbitrary: t) (simp_all add: one)
  then show ?thesis by (simp add: ingest_replay_def Let_def)
qed

lemma serve_replay_simulated:
  assumes sim: "simulates path h s" and rtext: "replay_text s lines body" and arr: "arrives lines body req"
    and fits: "replay_fits req (hx_ic h)" and obj: "obj \<in> hx_replay_objs h"
    and run: "OnRequest app room obj req (hx_ic h) = Some (acts, ops, i)"
    and fs: "fs \<in> crash_states ops (hx_fs h)"
  shows "\<exists>t. (step app crashes)\<^sup>*\<^sup>* s t \<and>
    simulates path (h\<lparr>hx_ic := i, hx_log := hx_log h @ acts, hx_fs := fs\<rparr>) t"
proof -
  obtain rp where rp: "rp \<in> set (replays s)" "\<forall>e \<in> set (rp_events rp). event_valid e"
    "lines = replay_lines (rp_from rp)" "body = replay_to_json rp"
    using rtext by (auto simp: replay_text_def)
  have "hr_header req ''Color-Replay'' = line_value lines ''Color-Replay''"
    using arr by (simp add: arrives_def request_headers_def)
  then have hd: "hr_header req ''Color-Replay'' \<noteq> []" using rp(3) by (simp add: replay_lines_values)
  have rd: "from_json_replay (ReadBody req) = Some (True, rp)"
    using replay_read_back [OF rp(2), of "[]"] arrives_body [OF arr] rp(4) by simp
  have res: "acts = [Replied obj OK \<lparr>hp_headers = [(''Content-Type'', ''application/json'')], hp_body = []\<rparr>]"
    "ops = []" "i = (hx_ic h)\<lparr>ic_core := ingest_replay rp (ic_core (hx_ic h))\<rparr>"
    using run hd rd by (auto simp: OnRequest_def OnReplay_def)
  have srv: "sv s = ic_core (hx_ic h)" using sim by (simp add: simulates_def server_ok_def)
  let ?t = "s\<lparr>sv := ingest_replay rp (sv s)\<rparr>"
  have "rp_from rp \<le> event_count (srv_history (sv s))"
    using fits hd rd unfolding replay_fits_def srv by blast
  with rp(1) have st: "step app crashes s ?t" by (rule step.deliver_replay)
  have "outside_ok path h s" using sim unfolding simulates_def by blast
  moreover have "grows s ?t" "cl ?t = cl s" "issued ?t = issued s" by (simp_all add: grows_def)
  ultimately have o: "outside_ok path h ?t" by (rule outside_ok_grows)
  have iok: "server_ok path i ?t"
    using sim res(3) ingest_replay_set_hash [of rp "sv s"] srv by (simp add: simulates_def server_ok_def)
  have rok: "reply_ok ?t (hx_replay_objs h) a" if "a \<in> set acts" for a
    using that res(1) obj by (simp add: reply_ok_def)
  have fok: "files_ok (set (saved ?t)) path fs" using o fs res(2) by (simp add: outside_ok_def)
  show ?thesis using st served_simulates [OF o rok fok iok] by blast
qed

lemma serve_simulated:
  assumes sim: "simulates path h s" and post: "(obj, lines, body) \<in> set (hx_posts h)"
    and arr: "arrives lines body req" and fits: "replay_fits req (hx_ic h)"
    and run: "OnRequest app room obj req (hx_ic h) = Some (acts, ops, i)"
    and fs: "fs \<in> crash_states ops (hx_fs h)"
  shows "\<exists>t. (step app crashes)\<^sup>*\<^sup>* s t \<and>
    simulates path (h\<lparr>hx_ic := i, hx_log := hx_log h @ acts, hx_fs := fs\<rparr>) t"
proof -
  have p: "post_ok s (hx_next h) (hx_replay_objs h) (obj, lines, body)"
    using sim post by (auto simp: simulates_def outside_ok_def)
  show ?thesis
  proof (cases "obj \<in> hx_replay_objs h")
    case True
    then have "replay_text s lines body" using p by (simp add: post_ok_def)
    from serve_replay_simulated [OF sim this arr fits True run fs] show ?thesis .
  next
    case False
    then obtain r where r: "r \<in> set (c2s s)" "arrives (header_lines r) (req_payload r) req"
      using p arr by (auto simp: post_ok_def)
    then have "on_color_request app room obj r (hx_ic h) = (acts, ops, i)"
      using run Parse_header_lines [OF r(2)] by (simp add: OnRequest_def)
    from serve_request_simulated [OF sim r(1) this fs] show ?thesis .
  qed
qed

section \<open>The client side\<close>

lemma built_replays_valid: "\<forall>e \<in> set (rp_events (build_replay n c)). event_valid e"
  by (auto simp: build_replay_def replay_event_of_def event_valid_def Let_def split: option.split)

lemma set_thread_ok:
  assumes "outside_ok path h s" and "thread_ok s (hx_next h) (hx_replay_objs h) x"
  shows "outside_ok path (set_thread t x h) s"
  using assms by (auto simp: outside_ok_def set_thread_def)

lemma thread_okD:
  assumes "outside_ok path h s"
  shows "thread_ok s (hx_next h) (hx_replay_objs h) (hx_threads h t)"
  using assms by (simp add: outside_ok_def)

lemma add_post_ok:
  assumes "outside_ok path h s"
    and "if hx_next h \<in> hx_replay_objs h then replay_text s lines body
         else \<exists>r \<in> set (c2s s). lines = header_lines r \<and> body = req_payload r"
  shows "outside_ok path (add_post lines body h) s"
proof -
  have "thread_ok s (Suc n) R x" if "thread_ok s n R x" for n R x
    using that by (auto simp: thread_ok_def split: sender.splits)
  moreover have "post_ok s (Suc n) R p" if "post_ok s n R p" for n R p
    using that by (auto simp: post_ok_def split: prod.splits)
  ultimately show ?thesis
    using assms by (auto simp: outside_ok_def add_post_def post_ok_def)
qed

lemma reply_taken:
  assumes "outside_ok path h s" and "hx_threads h t = Waiting r obj"
    and "Replied obj st hp \<in> set (hx_log h)" and "answered_with (hp_headers hp) ls"
  shows "(\<exists>x \<in> set (s2c s). after_post r (reply_result st hp ls) = Take x) \<or>
    (\<exists>n \<in> set (signals s). after_post r (reply_result st hp ls) = Recover_First n)"
proof -
  have "obj \<notin> hx_replay_objs h"
    using thread_okD [OF assms(1), of t] assms(2) by (simp add: thread_ok_def)
  moreover have "reply_ok s (hx_replay_objs h) (Replied obj st hp)"
    using assms(1,3) unfolding outside_ok_def by blast
  ultimately have "(\<exists>sh x. x \<in> set (s2c s) \<and> plain_response sh x \<and> Replied obj st hp = Complete sh obj x) \<or>
      (\<exists>n \<in> set (signals s). st = SERVICE_UNAV \<and> hp_headers hp = signal_headers n)"
    unfolding reply_ok_def action.case by blast
  then show ?thesis
  proof
    assume "\<exists>sh x. x \<in> set (s2c s) \<and> plain_response sh x \<and> Replied obj st hp = Complete sh obj x"
    then show ?thesis using completed_response_received [OF _ _ assms(4)] by blast
  next
    assume "\<exists>n \<in> set (signals s). st = SERVICE_UNAV \<and> hp_headers hp = signal_headers n"
    then show ?thesis
      using recovery_signal_received [OF _ assms(4)] unfolding signal_headers_def by blast
  qed
qed

lemma sending_thread: "thread_ok s n R (Sending r) \<longleftrightarrow> r \<in> set (c2s s)"
  by (simp add: thread_ok_def)

text \<open>Steps of the client side that send or receive.\<close>

lemma generate_simulated:
  assumes sim: "outside_ok path h s" and gen: "generate_request p (hx_client h) = (r, c)"
  shows "outside_ok path (set_thread t (Sending r) (h\<lparr>hx_client := c, hx_generated := Suc (hx_generated h)\<rparr>))
    (do_generate p s)"
proof -
  have c: "cl s = hx_client h" "length (issued s) = hx_generated h" using sim unfolding outside_ok_def by blast+
  have d: "cl (do_generate p s) = c" "issued (do_generate p s) = issued s @ [r]" "r \<in> set (c2s (do_generate p s))"
    "grows s (do_generate p s)" "saved (do_generate p s) = saved s"
    using gen c(1) by (auto simp: do_generate_def grows_def)
  show ?thesis
    using sim d(1-3,5) c(2) thread_ok_grows [OF _ d(4)] post_ok_grows [OF _ d(4)] reply_ok_grows [OF _ d(4)]
    unfolding outside_ok_def set_thread_def by (simp add: sending_thread)
qed

lemma response_simulated:
  assumes "outside_ok path h s"
  shows "outside_ok path (set_thread t Idle (h\<lparr>hx_client := c\<rparr>)) (s\<lparr>cl := c\<rparr>)"
proof -
  have g: "grows s (s\<lparr>cl := c\<rparr>)" by (simp add: grows_def)
  show ?thesis
    using assms thread_ok_grows [OF _ g] post_ok_grows [OF _ g] reply_ok_grows [OF _ g]
    unfolding outside_ok_def set_thread_def by (simp add: thread_ok_def)
qed

lemma replay_simulated:
  assumes "outside_ok path h s" and "r \<in> set (c2s s)" and "replay_post n (hx_client h) = (nev, lines, body)"
  shows "outside_ok path (set_thread t (Replaying r lines body) h) (s\<lparr>replays := build_replay n (cl s) # replays s\<rparr>)"
proof -
  let ?s = "s\<lparr>replays := build_replay n (cl s) # replays s\<rparr>"
  have "cl s = hx_client h" using assms(1) unfolding outside_ok_def by blast
  then have "replay_text ?s lines body"
    using assms(3) built_replays_valid [of n "hx_client h"]
    by (auto simp: replay_text_def replay_post_def Let_def build_replay_def)
  then have "thread_ok ?s (hx_next h) (hx_replay_objs h) (Replaying r lines body)"
    using assms(2) by (simp add: thread_ok_def)
  moreover have "outside_ok path h ?s" using assms(1) by (rule outside_ok_grows) (auto simp: grows_def)
  ultimately show ?thesis using set_thread_ok by blast
qed

lemma posted_simulated:
  assumes "outside_ok path h s" and "hx_threads h t = Sending r"
  shows "outside_ok path (set_thread t (Waiting r (hx_next h)) (add_post (header_lines r) (req_payload r) h)) s"
proof (rule set_thread_ok)
  have r: "r \<in> set (c2s s)" using thread_okD [OF assms(1), of t] assms(2) by (simp add: sending_thread)
  have n: "hx_next h \<notin> hx_replay_objs h" using assms(1) unfolding outside_ok_def by blast
  show "outside_ok path (add_post (header_lines r) (req_payload r) h) s"
    using assms(1) by (rule add_post_ok) (use r n in auto)
  show "thread_ok s (hx_next (add_post (header_lines r) (req_payload r) h))
      (hx_replay_objs (add_post (header_lines r) (req_payload r) h)) (Waiting r (hx_next h))"
    using r n by (simp add: thread_ok_def add_post_def)
qed

lemma replay_object_ok:
  assumes "outside_ok path h s"
  shows "outside_ok path (h\<lparr>hx_replay_objs := insert (hx_next h) (hx_replay_objs h), hx_next := Suc (hx_next h)\<rparr>) s"
proof -
  let ?R = "insert (hx_next h) (hx_replay_objs h)"
  have "thread_ok s (Suc (hx_next h)) ?R x" if "thread_ok s (hx_next h) (hx_replay_objs h) x" for x
    using that by (auto simp: thread_ok_def split: sender.splits)
  moreover have "post_ok s (Suc (hx_next h)) ?R p" if "post_ok s (hx_next h) (hx_replay_objs h) p" for p
    using that by (auto simp: post_ok_def split: prod.splits if_splits)
  moreover have "reply_ok s ?R a" if "reply_ok s (hx_replay_objs h) a" for a
    using that unfolding reply_ok_def by (cases a) auto
  ultimately show ?thesis using assms unfolding outside_ok_def by auto
qed

lemma replay_posted_simulated:
  assumes "outside_ok path h s" and "hx_threads h t = Replaying r lines body"
  shows "outside_ok path (set_thread t (Replay_Waiting r lines body (hx_next h))
    (add_post lines body (h\<lparr>hx_replay_objs := insert (hx_next h) (hx_replay_objs h)\<rparr>))) s"
proof -
  let ?h = "h\<lparr>hx_replay_objs := insert (hx_next h) (hx_replay_objs h), hx_next := Suc (hx_next h)\<rparr>"
  have r: "r \<in> set (c2s s)" "replay_text s lines body"
    using thread_okD [OF assms(1), of t] assms(2) by (simp_all add: thread_ok_def)
  have o: "outside_ok path ?h s" using assms(1) by (rule replay_object_ok)
  then have "outside_ok path (h\<lparr>hx_replay_objs := insert (hx_next h) (hx_replay_objs h),
      hx_posts := (hx_next h, lines, body) # hx_posts h, hx_next := Suc (hx_next h)\<rparr>) s"
    using r unfolding outside_ok_def by (simp add: post_ok_def)
  from set_thread_ok [OF this, of "Replay_Waiting r lines body (hx_next h)" t]
  show ?thesis using r by (simp add: thread_ok_def set_thread_def add_post_def)
qed

section \<open>The simulation\<close>

lemma outside_ok_fewer:
  assumes "outside_ok path h s" and "set (hx_posts g) \<subseteq> set (hx_posts h)" and "set (hx_log g) \<subseteq> set (hx_log h)"
    and "hx_client g = hx_client h" "hx_generated g = hx_generated h" "hx_replay_objs g = hx_replay_objs h"
      "hx_next g = hx_next h" "hx_threads g = hx_threads h" "hx_fs g = hx_fs h"
  shows "outside_ok path g s"
  using assms unfolding outside_ok_def by auto

lemma client_step_simulated:
  assumes "simulates path h s" and "(step app crashes)\<^sup>*\<^sup>* s t" and "outside_ok path h' t"
    and "hx_ic h' = hx_ic h" and "sv t = sv s"
  shows "\<exists>t. (step app crashes)\<^sup>*\<^sup>* s t \<and> simulates path h' t"
  using assms unfolding simulates_def server_ok_def by auto

lemma http_step_simulated:
  assumes "http_step app crashes path h h'" and "simulates path h s"
  shows "\<exists>t. (step app crashes)\<^sup>*\<^sup>* s t \<and> simulates path h' t"
proof -
  have out: "outside_ok path h s" and cl: "cl s = hx_client h"
    using assms(2) unfolding simulates_def outside_ok_def by blast+
  note cs = client_step_simulated [OF assms(2)]
  from assms(1) show ?thesis
  proof cases
    case (begin_send t p r c)
    have st: "step app crashes s (do_generate p s)" by (rule step.generate)
    have "sv (do_generate p s) = sv s" by (simp add: do_generate_def case_prod_beta)
    then show ?thesis
      using cs [OF r_into_rtranclp [where r = "step app crashes", OF st] generate_simulated [OF out begin_send(3)]] begin_send(1)
      by (simp add: set_thread_def)
  next
    case (post_request t r)
    show ?thesis
      using cs [OF rtranclp.rtrancl_refl posted_simulated [OF out post_request(2)]] post_request(1)
      by (simp add: set_thread_def add_post_def)
  next
    case (post_failed t r obj)
    have "thread_ok s (hx_next h) (hx_replay_objs h) (Sending r)"
      using thread_okD [OF out, of t] post_failed(2) by (simp add: thread_ok_def)
    from cs [OF rtranclp.rtrancl_refl set_thread_ok [OF out this]] show ?thesis
      using post_failed(1) by (simp add: set_thread_def)
  next
    case (take_reply t r obj st hp ls x b c)
    have "x \<in> set (s2c s)" using reply_taken [OF out take_reply(2-4)] take_reply(5) by auto
    then have "step app crashes s (s\<lparr>cl := c\<rparr>)"
      using take_reply(6) cl by (intro step.deliver_response) simp_all
    from cs [OF r_into_rtranclp [where r = "step app crashes", OF this] response_simulated [OF out, of t c]] show ?thesis
      using take_reply(1) by (simp add: set_thread_def)
  next
    case (begin_recover t r obj st hp ls n nev lines body)
    have "n \<in> set (signals s)" using reply_taken [OF out begin_recover(2-4)] begin_recover(5) by auto
    then have st: "step app crashes s (s\<lparr>replays := build_replay n (cl s) # replays s\<rparr>)" by (rule step.send_replay)
    have "r \<in> set (c2s s)" using thread_okD [OF out, of t] begin_recover(2) by (simp add: thread_ok_def)
    from cs [OF r_into_rtranclp [where r = "step app crashes", OF st] replay_simulated [OF out this begin_recover(6)]] show ?thesis
      using begin_recover(1) by (simp add: set_thread_def)
  next
    case (post_replay t r lines body)
    show ?thesis
      using cs [OF rtranclp.rtrancl_refl replay_posted_simulated [OF out post_replay(2)]] post_replay(1)
      by (simp add: set_thread_def add_post_def)
  next
    case (replay_failed t r lines body obj)
    have "thread_ok s (hx_next h) (hx_replay_objs h) (Replaying r lines body)"
      using thread_okD [OF out, of t] replay_failed(2) by (simp add: thread_ok_def)
    from cs [OF rtranclp.rtrancl_refl set_thread_ok [OF out this]] show ?thesis
      using replay_failed(1) by (simp add: set_thread_def)
  next
    case (replay_taken t r lines body obj hp)
    have "thread_ok s (hx_next h) (hx_replay_objs h) (Sending r)"
      using thread_okD [OF out, of t] replay_taken(2) by (simp add: thread_ok_def)
    from cs [OF rtranclp.rtrancl_refl set_thread_ok [OF out this]] show ?thesis
      using replay_taken(1) by (simp add: set_thread_def)
  next
    case (serve obj lines body req room acts ops i)
    from serve_simulated [OF assms(2) serve(2-5) crash_states_last, of crashes] obtain t where
      t: "(step app crashes)\<^sup>*\<^sup>* s t"
        "simulates path (h\<lparr>hx_ic := i, hx_log := hx_log h @ acts, hx_fs := fold run_op ops (hx_fs h)\<rparr>) t" by blast
    let ?h = "h\<lparr>hx_ic := i, hx_log := hx_log h @ acts, hx_fs := fold run_op ops (hx_fs h)\<rparr>"
    have "outside_ok path h' t"
      by (rule outside_ok_fewer [of path ?h])
         (use t(2) serve(1) in \<open>simp_all add: simulates_def set_remove1_subset\<close>)
    then have "simulates path h' t" using t(2) serve(1) by (simp add: simulates_def)
    then show ?thesis using t(1) by blast
  next
    case (crash srv_hash every w i)
    then show ?thesis using restart_simulated [OF out] by blast
  next
    case (crash_in_serve obj lines body req room acts ops i fs srv_hash every w j n)
    from serve_simulated [OF assms(2) crash_in_serve(3-7), of crashes] obtain t where
      t: "(step app crashes)\<^sup>*\<^sup>* s t" "simulates path (h\<lparr>hx_ic := i, hx_log := hx_log h @ acts, hx_fs := fs\<rparr>) t"
      by blast
    let ?h = "h\<lparr>hx_ic := i, hx_log := hx_log h @ acts, hx_fs := fs\<rparr>"
    have fs: "hx_fs h' = fs" "h'\<lparr>hx_ic := ic_on_hash_mismatch j\<rparr> = h'" using crash_in_serve(1) by simp_all
    have "outside_ok path h' t"
      by (rule outside_ok_fewer [of path ?h])
         (use t(2) crash_in_serve(1) in
           \<open>auto simp: simulates_def dest: in_set_takeD subsetD [OF set_remove1_subset]\<close>)
    from restart_simulated [OF this crash_in_serve(2), of srv_hash every w j app] obtain u where
      "(step app crashes)\<^sup>*\<^sup>* t u" "simulates path h' u"
      using crash_in_serve(8) fs by auto
    then show ?thesis using t(1) by (blast intro: rtranclp_trans)
  next
    case (outside_world w)
    let ?t = "s\<lparr>sv := (sv s)\<lparr>srv_world := w\<rparr>\<rparr>"
    have "outside_ok path h ?t" using out by (rule outside_ok_grows) (simp_all add: grows_def)
    then have "simulates path h' ?t"
      using assms(2) outside_world by (auto simp: simulates_def server_ok_def outside_ok_def)
    then show ?thesis using step.outside [of app crashes s w] by blast
  qed
qed

text \<open>Every reachable state of the deployed system is a reachable state of the protocol.\<close>

lemma http_start_simulated:
  assumes "http_start d sh ssh path every w = Some h"
  shows "\<exists>s. reachable app crashes s \<and> simulates path h s"
proof -
  let ?i = "init_sys d sh ssh w"
  let ?s = "?i\<lparr>saved := server_checkpoint (sv ?i) # saved ?i\<rparr>"
  have "reachable app crashes ?s" by (rule reachable.step [OF reachable.start step.take_checkpoint])
  moreover have first: "server_checkpoint (sv ?i) = first_checkpoint"
    by (simp add: init_sys_def server_checkpoint_def server_on_hash_mismatch_def server_new_def
        first_checkpoint_def history_new_def event_count_def)
  have "load_checkpoint path Map.empty = Some None" by (simp add: load_checkpoint_def)
  then have h: "h = \<lparr>hx_client = client_on_hash_mismatch (client_new d sh), hx_threads = (\<lambda>_. Idle),
      hx_ic = hx_ic h, hx_fs = Map.empty, hx_posts = [], hx_log = [], hx_next = 0, hx_replay_objs = {}, hx_generated = 0\<rparr>"
    "server_ok path (hx_ic h) ?s"
    using assms
    by (auto simp: http_start_def interceptor_new_def server_ok_def init_sys_def ic_on_hash_mismatch_def
        on_committed_def server_on_hash_mismatch_def server_new_def)
  have "outside_ok path h ?s"
    by (subst h(1)) (simp add: outside_ok_def thread_ok_def files_ok_def first, simp add: init_sys_def)
  ultimately show ?thesis using h(2) by (auto simp: simulates_def)
qed

lemma http_simulated:
  assumes "http_reachable app crashes path h"
  shows "\<exists>s. reachable app crashes s \<and> simulates path h s"
  using assms
proof induction
  case (start d sh ssh every w h)
  then show ?case by (rule http_start_simulated)
next
  case (step h h')
  then obtain s where s: "reachable app crashes s" "simulates path h s" by blast
  from http_step_simulated [OF step.hyps(2) s(2)] show ?case using s(1) reachable_run by blast
qed

end
