(* ===== verification/Http_Replies.thy ===== *)
theory Http_Replies
  imports Http_Refinement Plain_System
begin

text \<open>
  Which reply a sender gets: the interceptor answers a request object only with the response
  to the request that was POSTed under it, across other senders' requests, retries, replays
  and crashes. So a sender that stops waiting has received the response to its own request,
  and when all senders are idle, every request has been answered.

  \<open>K\<close> assigns to every request object the id that was POSTed under it.
\<close>

definition thread_keyed :: "(nat \<Rightarrow> seq) \<Rightarrow> nat \<Rightarrow> nat set \<Rightarrow> sender \<Rightarrow> bool" where
  "thread_keyed K n R x \<longleftrightarrow>
     (case x of
        Waiting r obj \<Rightarrow> obj < n \<and> obj \<notin> R \<and> K obj = req_seq r
      | Replaying r lines body \<Rightarrow> (\<exists>k. lines = replay_lines k)
      | Replay_Waiting r lines body obj \<Rightarrow> (\<exists>k. lines = replay_lines k)
      | _ \<Rightarrow> True)"

definition post_keyed :: "(nat \<Rightarrow> seq) \<Rightarrow> nat \<Rightarrow> nat set \<Rightarrow> nat \<times> string list \<times> string \<Rightarrow> bool" where
  "post_keyed K n R p \<longleftrightarrow>
     (case p of (obj, lines, body) \<Rightarrow> obj < n \<and>
        (if obj \<in> R then \<exists>k. lines = replay_lines k
         else \<exists>r. lines = header_lines r \<and> body = req_payload r \<and> K obj = req_seq r))"

definition table_keyed :: "(nat \<Rightarrow> seq) \<Rightarrow> nat \<Rightarrow> nat set \<Rightarrow> (seq, nat) umap \<Rightarrow> bool" where
  "table_keyed K n R m \<longleftrightarrow> (\<forall>q obj. um_find m q = Some obj \<longrightarrow> obj < n \<and> obj \<notin> R \<and> K obj = q)"

definition action_keyed :: "(nat \<Rightarrow> seq) \<Rightarrow> nat \<Rightarrow> nat set \<Rightarrow> action \<Rightarrow> bool" where
  "action_keyed K n R a \<longleftrightarrow>
     (\<forall>obj hp. a = Replied obj OK hp \<longrightarrow> obj < n \<and>
        (obj \<notin> R \<longrightarrow> (\<exists>sh x. a = Complete sh obj x \<and> rsp_seq x = K obj)))"

definition keyed :: "(nat \<Rightarrow> seq) \<Rightarrow> 'w http_sys \<Rightarrow> bool" where
  "keyed K h \<longleftrightarrow>
     (\<forall>t. thread_keyed K (hx_next h) (hx_replay_objs h) (hx_threads h t)) \<and>
     (\<forall>p \<in> set (hx_posts h). post_keyed K (hx_next h) (hx_replay_objs h) p) \<and>
     table_keyed K (hx_next h) (hx_replay_objs h) (ic_pending (hx_ic h)) \<and>
     (\<forall>a \<in> set (hx_log h). action_keyed K (hx_next h) (hx_replay_objs h) a)"

section \<open>New objects\<close>

text \<open>What is known of the objects so far does not depend on the next one.\<close>

definition extends :: "(nat \<Rightarrow> seq) \<Rightarrow> nat \<Rightarrow> nat set \<Rightarrow> (nat \<Rightarrow> seq) \<Rightarrow> nat \<Rightarrow> nat set \<Rightarrow> bool" where
  "extends K n R K' n' R' \<longleftrightarrow> n \<le> n' \<and> (\<forall>k < n. K' k = K k \<and> (k \<in> R' \<longleftrightarrow> k \<in> R))"

lemma keyed_extends:
  assumes "extends K n R K' n' R'"
  shows "thread_keyed K n R x \<Longrightarrow> thread_keyed K' n' R' x"
    and "post_keyed K n R p \<Longrightarrow> post_keyed K' n' R' p"
    and "table_keyed K n R m \<Longrightarrow> table_keyed K' n' R' m"
    and "action_keyed K n R a \<Longrightarrow> action_keyed K' n' R' a"
proof -
  have le: "k < n \<Longrightarrow> k < n' \<and> K' k = K k \<and> (k \<in> R' \<longleftrightarrow> k \<in> R)" for k
    using assms by (auto simp: extends_def)
  show "thread_keyed K n R x \<Longrightarrow> thread_keyed K' n' R' x"
    using le by (auto simp: thread_keyed_def split: sender.splits)
  show "post_keyed K n R p \<Longrightarrow> post_keyed K' n' R' p"
    using le by (auto simp: post_keyed_def split: prod.splits if_splits)
  show "table_keyed K n R m \<Longrightarrow> table_keyed K' n' R' m"
    using le unfolding table_keyed_def by blast
  show "action_keyed K n R a \<Longrightarrow> action_keyed K' n' R' a"
    using le unfolding action_keyed_def by metis
qed

lemma keyed_next:
  assumes "keyed K h" and "extends K (hx_next h) (hx_replay_objs h) K' n' R'"
  shows "keyed K' (h\<lparr>hx_next := n', hx_replay_objs := R'\<rparr>)"
  using assms(1) keyed_extends [OF assms(2)] unfolding keyed_def by simp

lemma keyed_thread: "keyed K h \<Longrightarrow> thread_keyed K (hx_next h) (hx_replay_objs h) (hx_threads h t)"
  by (simp add: keyed_def)

lemma keyed_set_thread:
  "keyed K h \<Longrightarrow> thread_keyed K (hx_next h) (hx_replay_objs h) x \<Longrightarrow> keyed K (set_thread t x h)"
  by (simp add: keyed_def set_thread_def)

section \<open>The interceptor\<close>

text \<open>Completing responses only takes objects out of the table, each with the response of its id.\<close>

lemma complete_one_keyed:
  assumes "table_keyed K n R (ic_pending (snd (snd acc)))" and "\<forall>a \<in> set (fst acc). action_keyed K n R a"
  shows "table_keyed K n R (ic_pending (snd (snd (complete_one x acc))))"
    and "\<forall>a \<in> set (fst (complete_one x acc)). action_keyed K n R a"
proof -
  obtain acts k i where acc: "acc = (acts, k, i)" by (cases acc)
  have "table_keyed K n R (ic_pending (snd (snd (complete_one x acc)))) \<and>
    (\<forall>a \<in> set (fst (complete_one x acc)). action_keyed K n R a)"
  proof (cases "um_find (ic_pending i) (rsp_seq x)")
    case None
    then show ?thesis using assms by (simp add: complete_one_def acc)
  next
    case (Some obj)
    have p: "ic_pending (snd (snd (complete_one x acc))) = um_erase (rsp_seq x) (ic_pending i)"
      "fst (complete_one x acc) = acts @ [Complete (ic_set_hash i) obj x]"
      using Some by (simp_all add: complete_one_def acc Let_def)
    have "obj < n \<and> K obj = rsp_seq x" using Some assms(1) unfolding acc table_keyed_def by auto
    then have "action_keyed K n R (Complete (ic_set_hash i) obj x)"
      unfolding action_keyed_def by (auto simp: Complete_eq)
    moreover have "table_keyed K n R (um_erase (rsp_seq x) (ic_pending i))"
      using assms(1) by (simp add: table_keyed_def umap.find_erase acc)
    ultimately show ?thesis using assms(2) unfolding p by (simp add: acc)
  qed
  then show "table_keyed K n R (ic_pending (snd (snd (complete_one x acc))))"
    and "\<forall>a \<in> set (fst (complete_one x acc)). action_keyed K n R a" by blast+
qed

lemma complete_list_keyed:
  assumes "table_keyed K n R (ic_pending (snd (snd acc)))" and "\<forall>a \<in> set (fst acc). action_keyed K n R a"
  shows "table_keyed K n R (ic_pending (snd (snd (fold complete_one xs acc)))) \<and>
    (\<forall>a \<in> set (fst (fold complete_one xs acc)). action_keyed K n R a)"
  using assms
proof (induction xs arbitrary: acc)
  case (Cons x xs)
  from Cons.IH [OF complete_one_keyed [OF Cons.prems]] show ?case by simp
qed simp

lemma on_color_request_keyed:
  assumes "table_keyed K n R (ic_pending i)" and "obj < n" and "obj \<notin> R" and "K obj = req_seq r"
    and "on_color_request app room obj r i = (acts, ops, j)"
  shows "table_keyed K n R (ic_pending j)" and "\<forall>a \<in> set acts. action_keyed K n R a"
proof -
  have s: "\<forall>a \<in> set (superseded (req_seq r) i). action_keyed K n R a"
    by (auto simp: superseded_def action_keyed_def split: option.splits)
  have put: "table_keyed K n R (um_put (req_seq r) obj (ic_pending i))"
    using assms(1-4) by (simp add: table_keyed_def umap.find_put)
  have "table_keyed K n R (ic_pending j) \<and> (\<forall>a \<in> set acts. action_keyed K n R a)"
  proof (cases "is_recover (fst (on_request app r (ic_core i)))")
    case True
    then have j: "ic_pending j = um_erase (req_seq r) (um_put (req_seq r) obj (ic_pending i))"
      "\<exists>hp. acts = superseded (req_seq r) i @ [Replied obj SERVICE_UNAV hp]"
      using assms(5) by (auto simp: on_color_request_eq)
    have "table_keyed K n R (ic_pending j)"
      using put unfolding j(1) by (simp add: table_keyed_def umap.find_erase)
    then show ?thesis using j(2) s by (auto simp: action_keyed_def)
  next
    case False
    let ?C = "completed app obj r i"
    have "(acts, j) = (fst ?C, snd (MaybeCheckpoint room (fst (snd ?C)) (snd (snd ?C))))"
      using assms(5) False by (auto simp: on_color_request_eq Let_def)
    then have "ic_pending j = ic_pending (snd (snd ?C))" "acts = fst ?C" by simp_all
    then show ?thesis
      using complete_list_keyed [of K n R "(superseded (req_seq r) i, 0, handed_over app obj r i)"] put s
      by (simp add: completed_def)
  qed
  then show "table_keyed K n R (ic_pending j)" and "\<forall>a \<in> set acts. action_keyed K n R a" by blast+
qed

lemma OnRequest_keyed:
  assumes "keyed K h" and "(obj, lines, body) \<in> set (hx_posts h)" and "arrives lines body req"
    and "OnRequest app room obj req (hx_ic h) = Some (acts, ops, i)"
  shows "table_keyed K (hx_next h) (hx_replay_objs h) (ic_pending i)"
    and "\<forall>a \<in> set acts. action_keyed K (hx_next h) (hx_replay_objs h) a"
proof -
  let ?n = "hx_next h" and ?R = "hx_replay_objs h"
  have p: "post_keyed K ?n ?R (obj, lines, body)" and tab: "table_keyed K ?n ?R (ic_pending (hx_ic h))"
    using assms(1,2) unfolding keyed_def by blast+
  have "table_keyed K ?n ?R (ic_pending i) \<and> (\<forall>a \<in> set acts. action_keyed K ?n ?R a)"
  proof (cases "obj \<in> ?R")
    case True
    then obtain k where "lines = replay_lines k" "obj < ?n" using p by (auto simp: post_keyed_def)
    moreover from this have "hr_header req ''Color-Replay'' \<noteq> []"
      using assms(3) by (simp add: arrives_def request_headers_def replay_lines_values)
    ultimately show ?thesis
      using assms(4) tab True
      by (auto simp: OnRequest_def OnReplay_def action_keyed_def split: option.splits prod.splits)
  next
    case False
    then obtain r where r: "arrives (header_lines r) (req_payload r) req" "K obj = req_seq r" "obj < ?n"
      using p assms(3) by (auto simp: post_keyed_def)
    have "on_color_request app room obj r (hx_ic h) = (acts, ops, i)"
      using assms(4) Parse_header_lines [OF r(1)] by (simp add: OnRequest_def)
    from on_color_request_keyed [OF tab r(3) False r(2) this] show ?thesis by blast
  qed
  then show "table_keyed K ?n ?R (ic_pending i)" and "\<forall>a \<in> set acts. action_keyed K ?n ?R a" by blast+
qed

section \<open>Every step keeps the assignment\<close>

lemma interceptor_new_pending:
  "interceptor_new sh path every w fs = Some i \<Longrightarrow> ic_pending (ic_on_hash_mismatch i) = []"
  by (auto simp: interceptor_new_def ic_on_hash_mismatch_def split: option.splits)

lemma table_keyed_empty: "table_keyed K n R []"
  by (simp add: table_keyed_def)

lemma keyed_posted:
  assumes "keyed K h" and "hx_threads h t = Sending r" and "hx_replay_objs h \<subseteq> {..<hx_next h}"
  shows "keyed (K(hx_next h := req_seq r))
    (set_thread t (Waiting r (hx_next h)) (add_post (header_lines r) (req_payload r) h))"
proof -
  let ?K = "K(hx_next h := req_seq r)" and ?n = "hx_next h" and ?R = "hx_replay_objs h"
  have "extends K ?n ?R ?K (Suc ?n) ?R" by (simp add: extends_def)
  from keyed_next [OF assms(1) this] have "keyed ?K (h\<lparr>hx_next := Suc ?n\<rparr>)" by simp
  moreover have "?n \<notin> ?R" using assms(3) by blast
  ultimately show ?thesis
    by (auto simp: keyed_def set_thread_def add_post_def post_keyed_def thread_keyed_def)
qed

lemma keyed_replay_posted:
  assumes "keyed K h" and "hx_threads h t = Replaying r lines body"
  shows "keyed K (set_thread t (Replay_Waiting r lines body (hx_next h))
    (add_post lines body (h\<lparr>hx_replay_objs := insert (hx_next h) (hx_replay_objs h)\<rparr>)))"
proof -
  let ?n = "hx_next h" and ?R = "hx_replay_objs h"
  obtain k where k: "lines = replay_lines k"
    using keyed_thread [OF assms(1), of t] assms(2) by (auto simp: thread_keyed_def)
  have "extends K ?n ?R K (Suc ?n) (insert ?n ?R)" by (simp add: extends_def)
  from keyed_next [OF assms(1) this] have "keyed K (h\<lparr>hx_next := Suc ?n, hx_replay_objs := insert ?n ?R\<rparr>)" .
  then show ?thesis
    using k by (auto simp: keyed_def set_thread_def add_post_def post_keyed_def thread_keyed_def)
qed

lemma http_step_keyed:
  assumes "http_step app crashes path h h'" and "keyed K h" and "hx_replay_objs h \<subseteq> {..<hx_next h}"
  shows "\<exists>K. keyed K h'"
  using assms(1)
proof cases
  case (post_request t r)
  then show ?thesis using keyed_posted [OF assms(2) _ assms(3)] by blast
next
  case (post_replay t r lines body)
  then show ?thesis using keyed_replay_posted [OF assms(2)] by blast
next
  case (serve obj lines body req room acts ops i)
  note k = OnRequest_keyed [OF assms(2) serve(2,3,5)]
  have "set (remove1 (obj, lines, body) (hx_posts h)) \<subseteq> set (hx_posts h)" by (rule set_remove1_subset)
  then have "keyed K h'" using k assms(2) unfolding serve(1) keyed_def by auto
  then show ?thesis by blast
next
  case (crash srv_hash every w i)
  then have "keyed K h'"
    using assms(2) interceptor_new_pending [OF crash(3)] table_keyed_empty unfolding keyed_def by auto
  then show ?thesis by blast
next
  case (crash_in_serve obj lines body req room acts ops i fs srv_hash every w j n)
  note k = OnRequest_keyed [OF assms(2) crash_in_serve(3,4,6)]
  have "set (remove1 (obj, lines, body) (hx_posts h)) \<subseteq> set (hx_posts h)" by (rule set_remove1_subset)
  moreover have "set (take n acts) \<subseteq> set acts" by (rule set_take_subset)
  ultimately have "keyed K h'"
    using k(2) assms(2) interceptor_new_pending [OF crash_in_serve(8)] table_keyed_empty
    unfolding crash_in_serve(1) keyed_def by auto
  then show ?thesis by blast
next
  case (begin_recover t r obj st hp ls n nev lines body)
  then have "\<exists>k. lines = replay_lines k" by (auto simp: replay_post_def Let_def)
  then have "keyed K h'"
    using keyed_set_thread [OF assms(2), of "Replaying r lines body" t] begin_recover(1) by (simp add: thread_keyed_def)
  then show ?thesis by blast
next
  case (replay_failed t r lines body obj)
  then have "keyed K h'"
    using keyed_set_thread [OF assms(2), of "Replaying r lines body" t] keyed_thread [OF assms(2), of t]
    by (simp add: thread_keyed_def)
  then show ?thesis by blast
qed (use assms(2) in \<open>auto simp: keyed_def set_thread_def thread_keyed_def intro!: exI [of _ K]\<close>)

lemma http_start_keyed:
  assumes "http_start d sh ssh path every w = Some h"
  shows "keyed K h"
  using assms interceptor_new_pending [of ssh path every w Map.empty]
  by (auto simp: http_start_def keyed_def thread_keyed_def table_keyed_def ic_on_hash_mismatch_def
      on_committed_def split: option.splits)

lemma http_keyed:
  assumes "http_reachable app crashes path h"
  shows "\<exists>K. keyed K h"
  using assms
proof induction
  case (start d sh ssh every w h)
  from http_start_keyed [OF this] show ?case by blast
next
  case (step h h')
  obtain s where "outside_ok path h s" using http_simulated [OF step.hyps(1)] by (auto simp: simulates_def)
  then have "hx_replay_objs h \<subseteq> {..<hx_next h}" unfolding outside_ok_def by blast
  then show ?case using http_step_keyed [OF step.hyps(2)] step.IH by blast
qed

section \<open>A sender takes the response to its own request\<close>

lemma own_response:
  assumes "http_reachable app crashes path h" and "hx_threads h t = Waiting r obj"
    and "Replied obj st hp \<in> set (hx_log h)" and "answered_with (hp_headers hp) ls"
    and "after_post r (reply_result st hp ls) = Take x"
  shows "rsp_seq x = req_seq r"
proof -
  obtain K where K: "keyed K h" using http_keyed [OF assms(1)] by blast
  obtain s where s: "outside_ok path h s" using http_simulated [OF assms(1)] by (auto simp: simulates_def)
  have obj: "obj \<notin> hx_replay_objs h" "K obj = req_seq r"
    using keyed_thread [OF K, of t] assms(2) by (simp_all add: thread_keyed_def)
  have "reply_ok s (hx_replay_objs h) (Replied obj st hp)"
    using s assms(3) unfolding outside_ok_def by blast
  then consider sh y where "plain_response sh y" "Replied obj st hp = Complete sh obj y"
    | n where "st = SERVICE_UNAV" "hp_headers hp = signal_headers n"
    using obj(1) unfolding reply_ok_def action.case by blast
  then show ?thesis
  proof cases
    case 1
    then have xy: "x = y" using completed_response_received [OF 1(2,1) assms(4), of r] assms(5) by simp
    have "st = OK" using 1(2) by (simp add: Complete_eq)
    moreover have "action_keyed K (hx_next h) (hx_replay_objs h) (Replied obj st hp)"
      using K assms(3) by (simp add: keyed_def)
    ultimately obtain sh' z where z: "Replied obj st hp = Complete sh' obj z" "rsp_seq z = K obj"
      using obj(1) by (auto simp: action_keyed_def)
    from z(1) 1(2) have "Complete sh obj y = Complete sh' obj z" by simp
    with z(2) have "to_string (rsp_seq y) = to_string (K obj)" by (simp add: Complete_eq reply_headers_def)
    then show ?thesis using xy obj(2) strtoull_to_string by metis
  next
    case 2
    then show ?thesis
      using recovery_signal_received [OF 2(2) [unfolded signal_headers_def] assms(4), of r] assms(5) by simp
  qed
qed

section \<open>Idle senders\<close>

fun sending :: "sender \<Rightarrow> request option" where
  "sending Idle = None"
| "sending (Sending r) = Some r"
| "sending (Waiting r obj) = Some r"
| "sending (Replaying r lines body) = Some r"
| "sending (Replay_Waiting r lines body obj) = Some r"

definition attended :: "'w http_sys \<Rightarrow> bool" where
  "attended h \<longleftrightarrow>
     (\<forall>q \<in> um_keys (cli_inflight (hx_client h)). \<exists>t r. sending (hx_threads h t) = Some r \<and> req_seq r = q)"

lemma attended_same:
  assumes "attended h" and "hx_client h' = hx_client h"
    and "\<And>t. sending (hx_threads h' t) = sending (hx_threads h t)"
  shows "attended h'"
  using assms unfolding attended_def by simp

lemma attended_begin:
  assumes "attended h" and "generate_request p (hx_client h) = (r, c)" and "hx_threads h t = Idle"
    and "hx_client h' = c" and "hx_threads h' = (hx_threads h)(t := Sending r)"
  shows "attended h'"
  unfolding attended_def
proof
  fix q assume "q \<in> um_keys (cli_inflight (hx_client h'))"
  then have "q = req_seq r \<or> q \<in> um_keys (cli_inflight (hx_client h))"
    using generate_request_fields(1,11) [OF assms(2)] assms(4) by (auto simp: umap.find_put split: if_splits)
  then show "\<exists>t r. sending (hx_threads h' t) = Some r \<and> req_seq r = q"
  proof
    assume "q = req_seq r"
    then show ?thesis using assms(5) by (intro exI [of _ t] exI [of _ r]) simp
  next
    assume "q \<in> um_keys (cli_inflight (hx_client h))"
    then obtain u r' where u: "sending (hx_threads h u) = Some r'" "req_seq r' = q"
      using assms(1) unfolding attended_def by blast
    then have "u \<noteq> t" using assms(3) by auto
    then show ?thesis using u assms(5) by (intro exI [of _ u] exI [of _ r']) simp
  qed
qed

lemma on_response_inflight:
  assumes "on_response x c = Some (b, c')" and "um_keys (cli_inflight c) \<inter> cli_received c = {}"
  shows "um_keys (cli_inflight c') = um_keys (cli_inflight c) - {rsp_seq x}"
proof (cases "rsp_seq x \<in> cli_received c")
  case True
  then show ?thesis using assms on_response_duplicate [OF True] by auto
next
  case False
  then obtain n where "advance_base (insert (rsp_seq x) (cli_received c)) (cli_base c) = Some n"
    using assms(1) on_response_None [of x c] by fastforce
  then have "cli_inflight c' = um_erase (rsp_seq x) (cli_inflight c)"
    using on_response_first [OF False] assms(1) by auto
  then show ?thesis by (auto simp: umap.find_erase split: if_splits)
qed

lemma http_client_inv:
  assumes "http_reachable app crashes path h" and "2 * hx_generated h < 2 ^ 64"
  shows "\<exists>I. client_inv I (hx_client h) \<and> length I = hx_generated h"
proof -
  obtain s where s: "reachable app crashes s" "outside_ok path h s"
    using http_simulated [OF assms(1)] by (auto simp: simulates_def)
  have c: "cl s = hx_client h" "length (issued s) = hx_generated h" using s(2) unfolding outside_ok_def by blast+
  then have "sys_fits s" using assms(2) by (simp add: sys_fits_def log_fits_def)
  from sys_invD(1) [OF reachable_inv [OF s(1) this]] show ?thesis using c by auto
qed

text \<open>Without crashes the invariant of the crash-free protocol holds.\<close>

lemma http_plain:
  assumes "http_reachable app False path h" and "2 * hx_generated h < 2 ^ 64"
  obtains s where "plain_sys s" "cl s = hx_client h" "sv s = ic_core (hx_ic h)" "length (issued s) = hx_generated h"
proof -
  obtain s where s: "reachable app False s" "simulates path h s" using http_simulated [OF assms(1)] by blast
  have c: "cl s = hx_client h" "sv s = ic_core (hx_ic h)" "length (issued s) = hx_generated h"
    using s(2) unfolding simulates_def outside_ok_def server_ok_def by blast+
  then have "sys_fits s" using assms(2) by (simp add: sys_fits_def log_fits_def)
  from that [OF reachable_plain [OF s(1) this] c] show ?thesis .
qed

lemma http_step_generated: "http_step app crashes path h h' \<Longrightarrow> hx_generated h \<le> hx_generated h'"
  by (erule http_step_cases) (simp_all add: set_thread_def add_post_def)

lemma http_attended:
  assumes "http_reachable app crashes path h" and "2 * hx_generated h < 2 ^ 64"
  shows "attended h"
  using assms
proof induction
  case (start d sh ssh every w h)
  then show ?case
    by (auto simp: attended_def http_start_def client_new_def client_on_hash_mismatch_def split: option.splits)
next
  case (step h h')
  have fits: "2 * hx_generated h < 2 ^ 64" using http_step_generated [OF step.hyps(2)] step.prems by linarith
  then have att: "attended h" using step.IH by blast
  from step.hyps(2) show ?case
  proof cases
    case (begin_send t p r c)
    show ?thesis by (rule attended_begin [OF att begin_send(3,2)]) (simp_all add: begin_send(1) set_thread_def)
  next
    case (take_reply t r obj st hp ls x b c)
    have own: "rsp_seq x = req_seq r" by (rule own_response [OF step.hyps(1) take_reply(2-5)])
    obtain I where "client_inv I (hx_client h)" using http_client_inv [OF step.hyps(1) fits] by blast
    then have "um_keys (cli_inflight (hx_client h)) \<inter> cli_received (hx_client h) = {}"
      using client_inflight_keys by blast
    note k = on_response_inflight [OF take_reply(6) this, unfolded own]
    show ?thesis
      unfolding attended_def
    proof
      fix q assume "q \<in> um_keys (cli_inflight (hx_client h'))"
      then have q: "q \<in> um_keys (cli_inflight (hx_client h))" "q \<noteq> req_seq r"
        using k by (auto simp: take_reply(1) set_thread_def)
      then obtain u r' where u: "sending (hx_threads h u) = Some r'" "req_seq r' = q"
        using att unfolding attended_def by blast
      then have "u \<noteq> t" using take_reply(2) q(2) by auto
      then show "\<exists>t r. sending (hx_threads h' t) = Some r \<and> req_seq r = q"
        using u by (intro exI [of _ u] exI [of _ r']) (simp add: take_reply(1) set_thread_def)
    qed
  qed (auto intro!: attended_same [OF att] simp: set_thread_def add_post_def)
qed

lemma idle_all_answered:
  assumes "http_reachable app crashes path h" and "2 * hx_generated h < 2 ^ 64"
    and "\<And>t. hx_threads h t = Idle"
  shows "outstanding (hx_client h) = []" and "cli_received (hx_client h) = ids (hx_generated h)"
proof -
  have none: "um_keys (cli_inflight (hx_client h)) = {}"
    using http_attended [OF assms(1,2)] assms(3) unfolding attended_def by auto
  then show "outstanding (hx_client h) = []"
    by (cases "cli_inflight (hx_client h)") (auto simp: outstanding_def)
  obtain I where I: "client_inv I (hx_client h)" "length I = hx_generated h"
    using http_client_inv [OF assms(1,2)] by blast
  show "cli_received (hx_client h) = ids (hx_generated h)"
    using client_inflight_keys [OF I(1)] client_invD(7) [OF I(1)] none I(2) by auto
qed

end
