(* ===== verification/Demo_System.thy ===== *)
theory Demo_System
  imports Demo_Programs Http_Replies Plain_System
begin

text \<open>
  The demo client and the server together: the sender threads of
  \<open>color_client_main.cc\<close>, each of which takes a message number and calls \<open>send\<close>, on top of
  the deployed system of \<open>Http_System\<close>, where the sections of \<open>send\<close> interleave with the
  network and the server. \<open>ds_started\<close> says of a thread that took a number whether its
  \<open>send\<close> has generated its request yet.
\<close>

record 'w demo_sys =
  ds_demo :: demo_client
  ds_http :: "'w http_sys"
  ds_started :: "nat \<Rightarrow> bool"

inductive demo_sys_step :: "'w app \<Rightarrow> bool \<Rightarrow> string \<Rightarrow> client_config \<Rightarrow> 'w demo_sys \<Rightarrow> 'w demo_sys \<Rightarrow> bool"
  for app :: "'w app" and crashes :: bool and path :: string and c :: client_config where
  fetch: "fetch_id c t (ds_demo s) = Some d \<Longrightarrow> demo_sys_step app crashes path c s (s\<lparr>ds_demo := d\<rparr>)"
| begin_send: "t < length (dc_threads (ds_demo s)) \<Longrightarrow> dc_threads (ds_demo s) ! t = In_Send i \<Longrightarrow>
    \<not> ds_started s t \<Longrightarrow> hx_threads (ds_http s) t = Idle \<Longrightarrow>
    generate_request (client_payload ms) (hx_client (ds_http s)) = (r, k) \<Longrightarrow>
    demo_sys_step app crashes path c s
      (s\<lparr>ds_http := set_thread t (Sending r)
           ((ds_http s)\<lparr>hx_client := k, hx_generated := Suc (hx_generated (ds_http s))\<rparr>),
         ds_started := (ds_started s)(t := True)\<rparr>)"
| network: "http_step app crashes path (ds_http s) h \<Longrightarrow> hx_generated h = hx_generated (ds_http s) \<Longrightarrow>
    demo_sys_step app crashes path c s (s\<lparr>ds_http := h\<rparr>)"
| send_ends: "ds_started s t \<Longrightarrow> hx_threads (ds_http s) t = Idle \<Longrightarrow> send_returned t (ds_demo s) = Some d \<Longrightarrow>
    demo_sys_step app crashes path c s (s\<lparr>ds_demo := d, ds_started := (ds_started s)(t := False)\<rparr>)"

inductive demo_sys_reachable :: "'w app \<Rightarrow> bool \<Rightarrow> string \<Rightarrow> client_config \<Rightarrow> 'w demo_sys \<Rightarrow> bool"
  for app :: "'w app" and crashes :: bool and path :: string and c :: client_config where
  start: "http_start True (cc_set_hash c) srv_hash path every w = Some h \<Longrightarrow>
    demo_sys_reachable app crashes path c
      \<lparr>ds_demo = demo_client_new c, ds_http = h, ds_started = (\<lambda>_. False)\<rparr>"
| step: "demo_sys_reachable app crashes path c s \<Longrightarrow> demo_sys_step app crashes path c s s' \<Longrightarrow>
    demo_sys_reachable app crashes path c s'"

text \<open>The client of the starting state is the one \<open>main\<close> sets up.\<close>

lemma demo_sys_client:
  assumes "http_start True (cc_set_hash c) srv_hash path every w = Some h"
  shows "hx_client h = hc_core (snd (client_setup c n))"
  using assms
  by (auto simp: http_start_def client_setup_def http_on_recover_def http_on_attempt_def
      http_on_hash_mismatch_def http_client_new_def split: option.splits)

section \<open>The threads and their requests\<close>

text \<open>The threads that took a number and have not generated its request yet.\<close>

definition unsent :: "'w demo_sys \<Rightarrow> nat set" where
  "unsent s = {t. t < length (dc_threads (ds_demo s)) \<and> \<not> ds_started s t \<and>
     (\<exists>i. dc_threads (ds_demo s) ! t = In_Send i)}"

definition demo_sys_inv :: "client_config \<Rightarrow> 'w demo_sys \<Rightarrow> bool" where
  "demo_sys_inv c s \<longleftrightarrow>
     demo_inv c (ds_demo s) \<and>
     (\<forall>t. hx_threads (ds_http s) t \<noteq> Idle \<longrightarrow> ds_started s t) \<and>
     (\<forall>t. ds_started s t \<longrightarrow>
        t < length (dc_threads (ds_demo s)) \<and> (\<exists>i. dc_threads (ds_demo s) ! t = In_Send i)) \<and>
     hx_generated (ds_http s) + card (unsent s) = length (dc_sent (ds_demo s))"

lemma finite_unsent [simp]: "finite (unsent s)"
  by (simp add: unsent_def)

lemma http_step_idle:
  assumes "http_step app crashes path h h'" and "hx_generated h' = hx_generated h" and "hx_threads h t = Idle"
  shows "hx_threads h' t = Idle"
  using assms by cases (auto simp: set_thread_def add_post_def)

lemma fetch_sys_inv:
  assumes "demo_sys_inv c s" and "fetch_id c t (ds_demo s) = Some d" and "numbers_fit c"
  shows "demo_sys_inv c (s\<lparr>ds_demo := d\<rparr>)"
proof -
  have t: "t < length (dc_threads (ds_demo s))" "dc_threads (ds_demo s) ! t = Fetching"
    using assms(2) by (auto simp: fetch_id_def split: if_splits)
  have inv: "demo_inv c d"
    using demo_step_inv [OF demo_step.fetch [OF assms(2)]] assms(1,3) by (simp add: demo_sys_inv_def)
  have st: "\<not> ds_started s t" using assms(1) t(2) by (auto simp: demo_sys_inv_def)
  obtain x where d: "dc_threads d = (dc_threads (ds_demo s))[t := x]"
    "x = Left_Loop \<and> length (dc_sent d) = length (dc_sent (ds_demo s)) \<or>
     (\<exists>i. x = In_Send i) \<and> length (dc_sent d) = Suc (length (dc_sent (ds_demo s)))"
    using assms(2) t by (auto simp: fetch_id_def Let_def split: if_splits)
  have new: "unsent (s\<lparr>ds_demo := d\<rparr>) = (if x = Left_Loop then unsent s else insert t (unsent s))"
    "t \<notin> unsent s"
    using d t st by (auto simp: unsent_def nth_list_update split: if_splits)
  have "hx_generated (ds_http s) + card (unsent (s\<lparr>ds_demo := d\<rparr>)) = length (dc_sent d)"
    using assms(1) d(2) new by (auto simp: demo_sys_inv_def)
  then show ?thesis
    using assms(1) inv d(1) t st by (auto simp: demo_sys_inv_def nth_list_update)
qed

lemma begin_sys_inv:
  assumes "demo_sys_inv c s" and "t < length (dc_threads (ds_demo s))" and "dc_threads (ds_demo s) ! t = In_Send i"
    and "\<not> ds_started s t"
  shows "demo_sys_inv c (s\<lparr>ds_http := set_thread t (Sending r)
      ((ds_http s)\<lparr>hx_client := k, hx_generated := Suc (hx_generated (ds_http s))\<rparr>),
    ds_started := (ds_started s)(t := True)\<rparr>)" (is "demo_sys_inv c ?s")
proof -
  have "unsent s = insert t (unsent ?s)" "t \<notin> unsent ?s" using assms(2-4) by (auto simp: unsent_def)
  then have "card (unsent s) = Suc (card (unsent ?s))" by simp
  then show ?thesis
    using assms by (auto simp: demo_sys_inv_def set_thread_def)
qed

lemma ends_sys_inv:
  assumes "demo_sys_inv c s" and "ds_started s t" and "hx_threads (ds_http s) t = Idle"
    and "send_returned t (ds_demo s) = Some d" and "numbers_fit c"
  shows "demo_sys_inv c (s\<lparr>ds_demo := d, ds_started := (ds_started s)(t := False)\<rparr>)"
proof -
  have t: "t < length (dc_threads (ds_demo s))"
    and d: "d = (ds_demo s)\<lparr>dc_threads := (dc_threads (ds_demo s))[t := Fetching]\<rparr>"
    using assms(4) by (auto simp: send_returned_def split: if_splits)
  have inv: "demo_inv c d"
    using demo_step_inv [OF demo_step.send_returns [OF assms(4)]] assms(1,5) by (simp add: demo_sys_inv_def)
  have "unsent (s\<lparr>ds_demo := d, ds_started := (ds_started s)(t := False)\<rparr>) = unsent s"
    using assms(2) d t by (auto simp: unsent_def nth_list_update split: if_splits)
  then show ?thesis
    using assms(1,3) inv d by (auto simp: demo_sys_inv_def nth_list_update split: if_splits)
qed

lemma demo_sys_step_inv:
  assumes "demo_sys_step app crashes path c s s'" and "demo_sys_inv c s" and "numbers_fit c"
  shows "demo_sys_inv c s'"
  using assms(1)
proof cases
  case (fetch t d)
  then show ?thesis using fetch_sys_inv [OF assms(2) _ assms(3)] by simp
next
  case (begin_send t i ms r k)
  then show ?thesis using begin_sys_inv [OF assms(2)] by simp
next
  case (network h)
  have "unsent s' = unsent s" using network(1) by (simp add: unsent_def)
  then show ?thesis
    using network assms(2) http_step_idle [OF network(2,3)] by (auto simp: demo_sys_inv_def)
next
  case (send_ends t d)
  then show ?thesis using ends_sys_inv [OF assms(2) _ _ _ assms(3)] by simp
qed

lemma demo_sys_http:
  assumes "demo_sys_reachable app crashes path c s"
  shows "http_reachable app crashes path (ds_http s)"
  using assms
proof induction
  case (start srv_hash every w h)
  then show ?case by (auto intro: http_reachable.start)
next
  case (step s s')
  from step.hyps(2) show ?case
  proof cases
    case (begin_send t i ms r k)
    then show ?thesis
      using http_reachable.step [OF step.IH http_step.begin_send [OF begin_send(5,6)]] by simp
  next
    case (network h)
    then show ?thesis using http_reachable.step [OF step.IH network(2)] by simp
  qed (use step.IH in simp_all)
qed

lemma demo_sys_inv_reachable:
  assumes "demo_sys_reachable app crashes path c s" and "numbers_fit c"
  shows "demo_sys_inv c s"
  using assms(1)
proof induction
  case (start srv_hash every w h)
  have "unsent \<lparr>ds_demo = demo_client_new c, ds_http = h, ds_started = \<lambda>_. False\<rparr> = {}"
    by (auto simp: unsent_def demo_client_new_def)
  then show ?case
    using start demo_inv_new [of c]
    by (auto simp: demo_sys_inv_def http_start_def demo_client_new_def split: option.splits)
next
  case (step s s')
  then show ?case using demo_sys_step_inv assms(2) by blast
qed

text \<open>When the threads are joined, every message has become a request and every sender is idle.\<close>

lemma demo_sys_joined:
  assumes "demo_sys_reachable app crashes path c s" and "numbers_fit c" and "all_joined (ds_demo s)"
    and "0 < cc_parallel c"
  shows "hx_generated (ds_http s) = nat (cc_count c)" and "hx_threads (ds_http s) t = Idle"
proof -
  have inv: "demo_sys_inv c s" using assms(1,2) by (rule demo_sys_inv_reachable)
  have left: "dc_threads (ds_demo s) ! t = Left_Loop" if "t < length (dc_threads (ds_demo s))" for t
    using assms(3) that by (simp add: all_joined_def list_all_length)
  then have "unsent s = {}" by (auto simp: unsent_def)
  moreover have "dc_sent (ds_demo s) = map int [0..<nat (cc_count c)]"
    using joined_sent_all assms(3,4) inv by (simp add: demo_sys_inv_def)
  ultimately show "hx_generated (ds_http s) = nat (cc_count c)" using inv by (simp add: demo_sys_inv_def)
  show "hx_threads (ds_http s) t = Idle" using inv left [of t] by (auto simp: demo_sys_inv_def)
qed

end
