(* ===== verification/Http_Liveness.thy ===== *)
theory Http_Liveness
  imports Http_Replies Recovery
begin

text \<open>
  Progress of the deployed system: from every reachable state the senders can go on until all
  have got their answers. Each round lets one sender POST its request again, hands it to the
  interceptor and lets the sender take the reply; a sender that gets a recovery signal replays
  first. After crashes one further request may be needed, as in the abstract protocol.
\<close>

abbreviation http_run ::
    "'w app \<Rightarrow> bool \<Rightarrow> string \<Rightarrow> 'w http_sys \<Rightarrow> 'w http_sys \<Rightarrow> bool" where
  "http_run app crashes path \<equiv> (http_step app crashes path)\<^sup>*\<^sup>*"

definition busy :: "'w http_sys \<Rightarrow> nat set" where
  "busy h = {t. hx_threads h t \<noteq> Idle}"

fun recovering :: "sender \<Rightarrow> bool" where
  "recovering (Replaying r lines body) = True"
| "recovering (Replay_Waiting r lines body obj) = True"
| "recovering _ = False"

definition settled :: "'w http_sys \<Rightarrow> bool" where
  "settled h \<longleftrightarrow> (\<forall>t. \<not> recovering (hx_threads h t))"

text \<open>The server has the history of every request generated.\<close>

definition caught_up :: "'w http_sys \<Rightarrow> bool" where
  "caught_up h \<longleftrightarrow> n_committed (ic_core (hx_ic h)) = hx_generated h"

lemma http_run_reachable:
  "http_run app crashes path h h' \<Longrightarrow> http_reachable app crashes path h \<Longrightarrow> http_reachable app crashes path h'"
  by (induction rule: rtranclp_induct) (auto intro: http_reachable.step)

lemma sending_Some: "sending x \<noteq> None \<longleftrightarrow> x \<noteq> Idle"
  by (cases x) simp_all

section \<open>Senders and unanswered requests\<close>

text \<open>Every sender has a request of its own, which is unanswered.\<close>

definition own_requests :: "'w http_sys \<Rightarrow> bool" where
  "own_requests h \<longleftrightarrow> finite (busy h) \<and>
     (\<forall>t r. sending (hx_threads h t) = Some r \<longrightarrow> req_seq r \<in> um_keys (cli_inflight (hx_client h))) \<and>
     (\<forall>t u r r'. sending (hx_threads h t) = Some r \<longrightarrow> sending (hx_threads h u) = Some r' \<longrightarrow>
        req_seq r = req_seq r' \<longrightarrow> t = u)"

lemma own_requests_same:
  assumes "own_requests h" and "hx_client h' = hx_client h"
    and same: "\<And>t. sending (hx_threads h' t) = sending (hx_threads h t)"
  shows "own_requests h'"
proof -
  have "hx_threads h' t = Idle \<longleftrightarrow> hx_threads h t = Idle" for t
    using same [of t] sending_Some [of "hx_threads h t"] sending_Some [of "hx_threads h' t"] by simp
  then have "busy h' = busy h" by (simp add: busy_def)
  then show ?thesis using assms unfolding own_requests_def by simp
qed

lemma own_requests_begin:
  assumes "own_requests h" and "generate_request p (hx_client h) = (r, c)"
    and fresh: "cli_next_seq (hx_client h) \<notin> um_keys (cli_inflight (hx_client h))"
    and "hx_client h' = c" and thr: "hx_threads h' = (hx_threads h)(t := Sending r)"
  shows "own_requests h'"
proof -
  note f = generate_request_fields(1,11) [OF assms(2)]
  have "busy h' \<subseteq> insert t (busy h)" by (auto simp: busy_def thr)
  then have "finite (busy h')" using assms(1) finite_subset by (auto simp: own_requests_def)
  moreover have keys: "um_keys (cli_inflight (hx_client h')) = insert (req_seq r) (um_keys (cli_inflight (hx_client h)))"
    using f assms(4) by (simp add: umap.find_put)
  moreover have "req_seq r' \<noteq> req_seq r" if "sending (hx_threads h u) = Some r'" for u r'
    using that assms(1) fresh f(1) unfolding own_requests_def by metis
  ultimately show ?thesis
    using assms(1) unfolding own_requests_def thr by (auto split: if_splits) metis
qed

lemma own_requests_take:
  assumes "own_requests h" and r: "sending (hx_threads h t) = Some r"
    and keys: "um_keys (cli_inflight (hx_client h')) = um_keys (cli_inflight (hx_client h)) - {req_seq r}"
    and thr: "hx_threads h' = (hx_threads h)(t := Idle)"
  shows "own_requests h'"
proof -
  have "busy h' \<subseteq> busy h" by (auto simp: busy_def thr)
  then have "finite (busy h')" using assms(1) finite_subset by (auto simp: own_requests_def)
  moreover have "req_seq r' \<noteq> req_seq r" if "sending (hx_threads h u) = Some r'" "u \<noteq> t" for u r'
    using that r assms(1) unfolding own_requests_def by metis
  ultimately show ?thesis
    using assms(1) keys unfolding own_requests_def thr by (auto split: if_splits)
qed

lemma http_own_requests:
  assumes "http_reachable app crashes path h" and "2 * hx_generated h < 2 ^ 64"
  shows "own_requests h"
  using assms
proof induction
  case (start d sh ssh every w h)
  then show ?case by (auto simp: own_requests_def busy_def http_start_def split: option.splits)
next
  case (step h h')
  have fits: "2 * hx_generated h < 2 ^ 64" using http_step_generated [OF step.hyps(2)] step.prems by linarith
  then have own: "own_requests h" using step.IH by blast
  obtain I where I: "client_inv I (hx_client h)" using http_client_inv [OF step.hyps(1) fits] by blast
  from step.hyps(2) show ?case
  proof cases
    case (begin_send t p r c)
    have "cli_next_seq (hx_client h) \<notin> um_keys (cli_inflight (hx_client h))"
      using client_invD(2) [OF I] client_inflight_keys [OF I] by (auto simp: ids_def)
    then show ?thesis
      by (rule own_requests_begin [OF own begin_send(3)]) (simp_all add: begin_send(1) set_thread_def)
  next
    case (take_reply t r obj st hp ls x b c)
    have own_x: "rsp_seq x = req_seq r" by (rule own_response [OF step.hyps(1) take_reply(2-5)])
    have "um_keys (cli_inflight (hx_client h)) \<inter> cli_received (hx_client h) = {}"
      using client_inflight_keys [OF I] by blast
    note k = on_response_inflight [OF take_reply(6) this, unfolded own_x]
    show ?thesis
      by (rule own_requests_take [OF own, of t r]) (simp_all add: take_reply(1,2) k set_thread_def)
  qed (auto intro!: own_requests_same [OF own] simp: set_thread_def add_post_def)
qed

text \<open>What is known of the peers and the senders in a reachable state.\<close>

lemma http_facts:
  assumes "http_reachable app crashes path h" and "2 * hx_generated h < 2 ^ 64"
  obtains s where "sys_inv s" "sys_fits s" "reachable app crashes s" "cl s = hx_client h" "sv s = ic_core (hx_ic h)"
    "length (issued s) = hx_generated h" "ic_set_hash (hx_ic h) = srv_set_hash (ic_core (hx_ic h))"
    "\<And>t r. sending (hx_threads h t) = Some r \<Longrightarrow> r \<in> set (issued s)"
proof -
  obtain s where s: "reachable app crashes s" "simulates path h s" using http_simulated [OF assms(1)] by blast
  have o: "outside_ok path h s" "server_ok path (hx_ic h) s" using s(2) by (simp_all add: simulates_def)
  then have c: "cl s = hx_client h" "length (issued s) = hx_generated h" unfolding outside_ok_def by blast+
  have fits: "sys_fits s" using assms(2) c(2) by (simp add: sys_fits_def log_fits_def)
  have inv: "sys_inv s" using s(1) fits by (rule reachable_inv)
  have "r \<in> set (issued s)" if "sending (hx_threads h t) = Some r" for t r
  proof -
    have "r \<in> set (c2s s)"
      using that thread_okD [OF o(1), of t] by (cases "hx_threads h t") (auto simp: thread_ok_def)
    then show ?thesis using sys_invD(3) [OF inv] by blast
  qed
  then show ?thesis
    using that [OF inv fits s(1) c(1) _ c(2)] o(2) by (simp add: server_ok_def)
qed

section \<open>A request that is answered\<close>

definition wire :: "string list \<Rightarrow> string \<Rightarrow> http_request" where
  "wire lines body = \<lparr>hr_header = line_value lines, hr_bytes = (Some body, int (length body))\<rparr>"

lemma wire_arrives: "arrives lines body (wire lines body)"
  by (simp add: arrives_def wire_def)

text \<open>The header lines of a reply, as they are sent, answer it.\<close>

lemma sent_lines_arrive:
  assumes "\<And>n v. (n, v) \<in> set hs \<Longrightarrow> CHR '':'' \<notin> set n \<and> trimmed (map tolower n)"
  shows "answered_with hs (map response_line hs)"
proof -
  have "filter (\<lambda>l. header_key l = Some key) (map response_line gs) =
      map response_line (filter (\<lambda>nv. map tolower (fst nv) = key) gs)"
    if "set gs \<subseteq> set hs" for gs key
    using that
  proof (induction gs)
    case (Cons nv gs)
    obtain n v where nv: "nv = (n, v)" by (cases nv)
    then have "header_key (response_line nv) = Some (map tolower n)"
      using Cons.prems assms [of n v] response_line_key(1) by simp
    then show ?case using Cons nv by simp
  qed simp
  then show ?thesis by (simp add: answered_with_def)
qed

lemma sent_headers_arrive: "answered_with (reply_headers sh x) (map response_line (reply_headers sh x))"
  by (rule sent_lines_arrive)
     (auto simp: reply_headers_def trimmed_def blank_def simp del: list.map split: option.splits if_splits)

lemma sent_signal_arrives:
  "answered_with [(''Color-Recover'', v)] (map response_line [(''Color-Recover'', v)])"
  by (rule sent_lines_arrive) (auto simp: trimmed_def blank_def simp del: list.map)

text \<open>A response of the core completes the object that is held for its id.\<close>

lemma complete_list_mono: "set (fst acc) \<subseteq> set (fst (fold complete_one xs acc))"
proof (induction xs arbitrary: acc)
  case (Cons x xs)
  have "set (fst acc) \<subseteq> set (fst (complete_one x acc))"
    by (auto simp: complete_one_def Let_def case_prod_beta split: option.split)
  then show ?case using Cons.IH [of "complete_one x acc"] by auto
qed simp

lemma complete_list_closes:
  assumes "um_find (ic_pending (snd (snd acc))) q = Some obj" and "x \<in> set xs" and "rsp_seq x = q"
  shows "\<exists>y \<in> set xs. rsp_seq y = q \<and>
    Complete (ic_set_hash (snd (snd acc))) obj y \<in> set (fst (fold complete_one xs acc))"
  using assms
proof (induction xs arbitrary: acc)
  case (Cons a xs)
  let ?acc = "complete_one a acc"
  show ?case
  proof (cases "rsp_seq a = q")
    case True
    have "Complete (ic_set_hash (snd (snd acc))) obj a \<in> set (fst ?acc)"
      using Cons.prems(1) True by (simp add: complete_one_def Let_def case_prod_beta)
    then show ?thesis using True complete_list_mono [of ?acc xs] by auto
  next
    case False
    then have "um_find (ic_pending (snd (snd ?acc))) q = Some obj"
      using Cons.prems(1)
      by (auto simp: complete_one_def Let_def case_prod_beta umap.find_erase split: option.split)
    moreover have "x \<in> set xs" using Cons.prems(2,3) False by auto
    ultimately show ?thesis using Cons.IH [of ?acc] Cons.prems(3) by auto
  qed
qed simp

lemma on_color_request_closes:
  assumes "\<not> is_recover (fst (on_request app r (ic_core i)))"
    and "x \<in> set (fst (on_request app r (ic_core i)))" and "rsp_seq x = req_seq r"
  shows "\<exists>y \<in> set (fst (on_request app r (ic_core i))). rsp_seq y = req_seq r \<and>
    Complete (ic_set_hash i) obj y \<in> set (fst (on_color_request app room obj r i))"
  using complete_list_closes [of "(superseded (req_seq r) i, 0, handed_over app obj r i)" "req_seq r" obj, OF _ assms(2,3)]
    assms(1)
  by (simp add: on_color_request_eq Let_def completed_def umap.find_put)

section \<open>The rounds of a sender\<close>

lemma post_step:
  assumes "hx_threads h t = Sending r"
  shows "http_step app crashes path h
    (set_thread t (Waiting r (hx_next h)) (add_post (header_lines r) (req_payload r) h))"
  using assms by (rule http_step.post_request)

text \<open>The state after a sender has POSTed its request and the interceptor has handled it.\<close>

definition served :: "'w app \<Rightarrow> nat \<Rightarrow> request \<Rightarrow> 'w http_sys \<Rightarrow> 'w http_sys" where
  "served app t r h =
     (let (acts, ops, i) = on_color_request app None (hx_next h) r (hx_ic h)
      in h\<lparr>hx_next := Suc (hx_next h), hx_threads := (hx_threads h)(t := Waiting r (hx_next h)),
           hx_ic := i, hx_log := hx_log h @ acts, hx_fs := fold run_op ops (hx_fs h)\<rparr>)"

lemma served_fields:
  "hx_threads (served app t r h) = (hx_threads h)(t := Waiting r (hx_next h))"
  "hx_client (served app t r h) = hx_client h" "hx_generated (served app t r h) = hx_generated h"
  "hx_replay_objs (served app t r h) = hx_replay_objs h"
  "hx_next (served app t r h) = Suc (hx_next h)" "hx_posts (served app t r h) = hx_posts h"
  "hx_ic (served app t r h) = snd (snd (on_color_request app None (hx_next h) r (hx_ic h)))"
  "hx_log (served app t r h) = hx_log h @ fst (on_color_request app None (hx_next h) r (hx_ic h))"
  by (simp_all add: served_def case_prod_beta)

lemma served_run:
  assumes "hx_threads h t = Sending r"
  shows "http_run app crashes path h (served app t r h)"
proof -
  let ?h = "set_thread t (Waiting r (hx_next h)) (add_post (header_lines r) (req_payload r) h)"
  let ?w = "wire (header_lines r) (req_payload r)"
  note w = Parse_header_lines [OF wire_arrives, of r]
  obtain acts ops i where o: "on_color_request app None (hx_next h) r (hx_ic h) = (acts, ops, i)"
    by (cases "on_color_request app None (hx_next h) r (hx_ic h)")
  have "OnRequest app None (hx_next h) ?w (hx_ic ?h) = Some (acts, ops, i)"
    using w o by (simp add: OnRequest_def set_thread_def add_post_def)
  moreover have "replay_fits ?w (hx_ic ?h)" using w by (simp add: replay_fits_def)
  moreover have "(hx_next h, header_lines r, req_payload r) \<in> set (hx_posts ?h)"
    by (simp add: set_thread_def add_post_def)
  ultimately have "http_step app crashes path ?h
      (?h\<lparr>hx_ic := i, hx_log := hx_log ?h @ acts, hx_fs := fold run_op ops (hx_fs ?h),
         hx_posts := remove1 (hx_next h, header_lines r, req_payload r) (hx_posts ?h)\<rparr>)"
    using http_step.serve wire_arrives by blast
  then have "http_step app crashes path ?h (served app t r h)"
    by (simp add: served_def o set_thread_def add_post_def)
  then show ?thesis
    using post_step [OF assms, of app crashes path] by (meson converse_rtranclp_into_rtranclp r_into_rtranclp)
qed

lemma http_on_response_returns:
  assumes "http_reachable app crashes path h" and "2 * hx_generated h < 2 ^ 64"
  shows "\<exists>b c. on_response x (hx_client h) = Some (b, c)"
proof -
  obtain I where I: "client_inv I (hx_client h)" "length I = hx_generated h"
    using http_client_inv [OF assms] by blast
  have "finite (cli_received (hx_client h))" using client_invD(7) [OF I(1)] finite_ids finite_subset by blast
  moreover have "card (cli_received (hx_client h)) \<le> length I"
    using client_invD(7) [OF I(1)] card_mono finite_ids card_ids_le order_trans by metis
  ultimately show ?thesis using on_response_returns assms(2) I(2) by simp
qed

text \<open>A sender whose request the server answers ends.\<close>

lemma answer_round:
  assumes reach: "http_reachable app crashes path h" and fits: "2 * hx_generated h < 2 ^ 64"
    and thr: "hx_threads h t = Sending r"
    and no: "\<not> is_recover (fst (on_request app r (ic_core (hx_ic h))))"
    and x: "x \<in> set (fst (on_request app r (ic_core (hx_ic h))))" "rsp_seq x = req_seq r"
  shows "\<exists>h'. http_run app crashes path h h' \<and> hx_threads h' = (hx_threads h)(t := Idle) \<and>
    hx_generated h' = hx_generated h \<and> ic_core (hx_ic h') = snd (on_request app r (ic_core (hx_ic h)))"
proof -
  let ?h = "served app t r h" and ?sh = "ic_set_hash (hx_ic h)"
  have sh: "?sh = srv_set_hash (ic_core (hx_ic h))" using http_facts [OF reach fits] by metis
  obtain y where y: "y \<in> set (fst (on_request app r (ic_core (hx_ic h))))"
    "Complete ?sh (hx_next h) y \<in> set (hx_log ?h)"
    using on_color_request_closes [OF no x, of "hx_next h" None] by (auto simp: served_fields)
  have plain: "plain_response ?sh y" using on_request_plain(2) [OF no y(1)] sh by simp
  let ?hp = "\<lparr>hp_headers = reply_headers ?sh y, hp_body = rsp_payload y\<rparr>"
  let ?ls = "map response_line (reply_headers ?sh y)"
  have a: "answered_with (hp_headers ?hp) ?ls" by (simp add: sent_headers_arrive)
  have taken: "after_post r (reply_result OK ?hp ?ls) = Take y"
    by (rule completed_response_received [of "hx_next h" OK ?hp ?sh "hx_next h", OF _ plain a]) (simp add: Complete_eq)
  obtain b c where c: "on_response y (hx_client ?h) = Some (b, c)"
    using http_on_response_returns [OF reach fits, of y] by (auto simp: served_fields)
  have "http_step app crashes path ?h (set_thread t Idle (?h\<lparr>hx_client := c\<rparr>))"
    using y(2) a taken c
    by (intro http_step.take_reply [of ?h t r "hx_next h" OK ?hp ?ls y b c]) (simp_all add: served_fields Complete_eq)
  moreover have "http_run app crashes path h ?h" using thr by (rule served_run)
  ultimately have "http_run app crashes path h (set_thread t Idle (?h\<lparr>hx_client := c\<rparr>))" by simp
  then show ?thesis
    by (rule exI [of _ "set_thread t Idle (?h\<lparr>hx_client := c\<rparr>)", OF conjI])
       (simp add: set_thread_def served_fields)
qed

text \<open>A sender that gets a recovery signal replays the history, and sends again.\<close>

definition replayed :: "nat \<Rightarrow> request \<Rightarrow> replay \<Rightarrow> 'w http_sys \<Rightarrow> 'w http_sys" where
  "replayed t r rp h =
     h\<lparr>hx_replay_objs := insert (hx_next h) (hx_replay_objs h), hx_next := Suc (hx_next h),
       hx_threads := (hx_threads h)(t := Sending r),
       hx_ic := (hx_ic h)\<lparr>ic_core := ingest_replay rp (ic_core (hx_ic h))\<rparr>,
       hx_log := hx_log h @ [Replied (hx_next h) OK \<lparr>hp_headers = [(''Content-Type'', ''application/json'')], hp_body = []\<rparr>]\<rparr>"

lemma replay_round:
  assumes thr: "hx_threads h t = Replaying r (replay_lines (rp_from rp)) (replay_to_json rp)"
    and valid: "\<forall>e \<in> set (rp_events rp). event_valid e"
    and from_n: "rp_from rp \<le> event_count (srv_history (ic_core (hx_ic h)))"
  shows "http_run app crashes path h (replayed t r rp h)"
proof -
  let ?l = "replay_lines (rp_from rp)" and ?b = "replay_to_json rp"
  let ?obj = "hx_next h"
  let ?h1 = "set_thread t (Replay_Waiting r ?l ?b ?obj) (add_post ?l ?b (h\<lparr>hx_replay_objs := insert ?obj (hx_replay_objs h)\<rparr>))"
  let ?w = "wire ?l ?b" and ?hp = "\<lparr>hp_headers = [(''Content-Type'', ''application/json'')], hp_body = []\<rparr>"
  let ?i = "(hx_ic h)\<lparr>ic_core := ingest_replay rp (ic_core (hx_ic h))\<rparr>"
  let ?h2 = "?h1\<lparr>hx_ic := ?i, hx_log := hx_log ?h1 @ [Replied ?obj OK ?hp], hx_fs := fold run_op [] (hx_fs ?h1),
     hx_posts := remove1 (?obj, ?l, ?b) (hx_posts ?h1)\<rparr>"
  have body: "from_json_replay (ReadBody ?w) = Some (True, rp)"
    using replay_read_back [OF valid, of "[]"] arrives_body [OF wire_arrives] by simp
  have hd: "hr_header ?w ''Color-Replay'' \<noteq> []" by (simp add: wire_def replay_lines_values)
  have "http_step app crashes path h ?h1" using thr by (rule http_step.post_replay)
  moreover have "http_step app crashes path ?h1 ?h2"
  proof (rule http_step.serve [of ?obj ?l ?b ?h1 ?w])
    show "OnRequest app None ?obj ?w (hx_ic ?h1) = Some ([Replied ?obj OK ?hp], [], ?i)"
      using hd body by (simp add: OnRequest_def OnReplay_def set_thread_def add_post_def)
    show "replay_fits ?w (hx_ic ?h1)"
      using body from_n by (simp add: replay_fits_def set_thread_def add_post_def)
  qed (simp_all add: wire_arrives set_thread_def add_post_def)
  moreover have "http_step app crashes path ?h2 (set_thread t (Sending r) ?h2)"
    by (rule http_step.replay_taken [of _ _ _ ?l ?b ?obj ?hp]) (simp_all add: set_thread_def add_post_def)
  moreover have "set_thread t (Sending r) ?h2 = replayed t r rp h"
    by (simp add: replayed_def set_thread_def add_post_def)
  ultimately show ?thesis by (metis (no_types, lifting) rtranclp.rtrancl_into_rtrancl rtranclp.rtrancl_refl)
qed

lemma recover_round:
  assumes thr: "hx_threads h t = Sending r" and rec: "needs_recover r (ic_core (hx_ic h))"
  shows "\<exists>h'. http_run app crashes path h h' \<and> hx_threads h' = hx_threads h \<and> hx_generated h' = hx_generated h \<and>
    ic_core (hx_ic h') =
      ingest_replay (build_replay (event_count (srv_history (ic_core (hx_ic h)))) (hx_client h)) (ic_core (hx_ic h))"
proof -
  let ?n = "event_count (srv_history (ic_core (hx_ic h)))"
  let ?h = "served app t r h" and ?rp = "build_replay ?n (hx_client h)"
  let ?hp = "\<lparr>hp_headers = [(''Color-Recover'', ''from='' @ to_string ?n)], hp_body = []\<rparr>"
  let ?ls = "map response_line (hp_headers ?hp)"
  let ?g = "set_thread t (Replaying r (replay_lines ?n) (replay_to_json ?rp)) ?h"
  have on: "on_request app r (ic_core (hx_ic h)) = ([recover_response r (ic_core (hx_ic h))], ic_core (hx_ic h))"
    using rec by (rule on_request_recover)
  have core: "ic_core (hx_ic ?h) = ic_core (hx_ic h)" by (simp add: served_fields on)
  have log: "Replied (hx_next h) SERVICE_UNAV ?hp \<in> set (hx_log ?h)"
    by (simp add: served_fields on_color_request_eq on is_recover_def recover_response_def)
  have a: "answered_with (hp_headers ?hp) ?ls" using sent_signal_arrives by simp
  have "http_step app crashes path ?h ?g"
  proof (rule http_step.begin_recover [OF _ log a])
    show "after_post r (reply_result SERVICE_UNAV ?hp ?ls) = Recover_First ?n"
      by (rule recovery_signal_received [OF _ a]) simp
    show "replay_post ?n (hx_client ?h) = (of_nat (length (rp_events ?rp)), replay_lines ?n, replay_to_json ?rp)"
      by (simp add: replay_post_def Let_def served_fields)
  qed (simp add: served_fields)
  with served_run [OF thr] have "http_run app crashes path h ?g" by (rule rtranclp.rtrancl_into_rtrancl)
  moreover have "http_run app crashes path ?g (replayed t r ?rp ?g)"
    by (rule replay_round) (simp_all add: set_thread_def build_replay_def served_fields on,
        use built_replays_valid [of ?n "hx_client h"] in \<open>simp add: build_replay_def\<close>)
  ultimately have "http_run app crashes path h (replayed t r ?rp ?g)" by (rule rtranclp_trans)
  moreover have "(hx_threads h)(t := Sending r) = hx_threads h" using thr by auto
  ultimately show ?thesis
    by (intro exI [of _ "replayed t r ?rp ?g"]) (simp add: replayed_def set_thread_def served_fields on)
qed

text \<open>A sender that waits may give up and try again.\<close>

lemma retry_run:
  assumes "sending (hx_threads h t) = Some r" and "\<not> recovering (hx_threads h t)"
  shows "http_run app crashes path h (set_thread t (Sending r) h)"
proof (cases "hx_threads h t")
  case (Sending r')
  then have "set_thread t (Sending r) h = h" using assms(1) by (simp add: set_thread_def fun_upd_idem)
  then show ?thesis by simp
next
  case (Waiting r' obj)
  then show ?thesis using assms(1) http_step.post_failed [OF Waiting, of app crashes path] by auto
qed (use assms in simp_all)

section \<open>Draining\<close>

text \<open>
  One round for a request that the server answers at once: it is committed already, or it is
  the next to commit, and the server does not ask for a recovery.
\<close>

lemma answered_at_once:
  assumes "\<not> needs_recover r s" and "req_seq r \<le> srv_committed_upto s \<or>
    req_seq r = srv_committed_upto s + 1 \<and> \<not> req_seq r \<le> srv_committed_upto s"
  shows "\<exists>x \<in> set (fst (on_request app r s)). rsp_seq x = req_seq r"
  using assms(2)
proof
  assume "req_seq r \<le> srv_committed_upto s"
  from committed_answer [OF assms(1) this, of app] show ?thesis by auto
next
  assume "req_seq r = srv_committed_upto s + 1 \<and> \<not> req_seq r \<le> srv_committed_upto s"
  then show ?thesis using on_request_next [OF assms(1), of app] by blast
qed

lemma sender_round:
  assumes reach: "http_reachable app crashes path h" and fits: "2 * hx_generated h < 2 ^ 64"
    and set: "settled h" and r: "sending (hx_threads h t) = Some r"
    and no: "\<not> needs_recover r (ic_core (hx_ic h))"
    and x: "\<exists>x \<in> set (fst (on_request app r (ic_core (hx_ic h)))). rsp_seq x = req_seq r"
  shows "\<exists>h'. http_run app crashes path h h' \<and> settled h' \<and> card (busy h') < card (busy h) \<and>
    hx_generated h' = hx_generated h \<and> ic_core (hx_ic h') = snd (on_request app r (ic_core (hx_ic h)))"
proof -
  let ?h = "set_thread t (Sending r) h"
  have run: "http_run app crashes path h ?h" using r set by (intro retry_run) (simp_all add: settled_def)
  have f: "hx_threads ?h t = Sending r" "hx_ic ?h = hx_ic h" "hx_generated ?h = hx_generated h"
    by (simp_all add: set_thread_def)
  obtain s where s: "sys_inv s" "sys_fits s" "sv s = ic_core (hx_ic h)" "r \<in> set (issued s)"
    using http_facts [OF reach fits] r by metis
  have "\<not> is_recover (fst (on_request app r (ic_core (hx_ic h))))"
    using no_recover_signal [OF sys_invD(2) [OF s(1)] sys_invD(5) [OF s(1)] _ _ s(4)] s no
      client_log_hashes [OF sys_invD(1) [OF s(1)]] by (simp add: sys_fits_def)
  then obtain h' where h': "http_run app crashes path ?h h'" "hx_threads h' = (hx_threads ?h)(t := Idle)"
    "hx_generated h' = hx_generated h" "ic_core (hx_ic h') = snd (on_request app r (ic_core (hx_ic h)))"
    using answer_round [OF http_run_reachable [OF run reach] _ f(1)] x fits f by auto
  have "t \<in> busy h" using r by (auto simp: busy_def)
  moreover have "busy h' = busy h - {t}" using h'(2) by (auto simp: busy_def set_thread_def)
  moreover have "finite (busy h)" using http_own_requests [OF reach fits] by (simp add: own_requests_def)
  ultimately have "card (busy h') < card (busy h)" by (metis card_Diff1_less)
  moreover have "settled h'" using set h'(2) by (simp add: settled_def set_thread_def)
  ultimately show ?thesis using rtranclp_trans [OF run h'(1)] h' by blast
qed

text \<open>The oldest unanswered request and its sender.\<close>

lemma oldest_sender:
  assumes reach: "http_reachable app crashes path h" and fits: "2 * hx_generated h < 2 ^ 64"
    and some: "busy h \<noteq> {}"
  obtains t r where "sending (hx_threads h t) = Some r" "req_seq r = cli_base (hx_client h)"
proof -
  obtain u where "hx_threads h u \<noteq> Idle" using some by (auto simp: busy_def)
  then obtain r' where "sending (hx_threads h u) = Some r'" using sending_Some by fastforce
  then have "req_seq r' \<in> um_keys (cli_inflight (hx_client h))"
    using http_own_requests [OF reach fits] unfolding own_requests_def by blast
  then have "cli_inflight (hx_client h) \<noteq> []" by auto
  moreover obtain I where I: "client_inv I (hx_client h)" "length I = hx_generated h"
    using http_client_inv [OF reach fits] by blast
  ultimately obtain r where "frozen (cli_base (hx_client h)) (hx_client h) = Some r"
    using oldest_inflight [OF I(1)] fits by (auto simp: log_fits_def)
  then have "cli_base (hx_client h) \<in> um_keys (cli_inflight (hx_client h))" by (auto simp: frozen_def)
  then show ?thesis using http_attended [OF reach fits] that unfolding attended_def by blast
qed

lemma http_inv:
  assumes "http_reachable app crashes path h" and "2 * hx_generated h < 2 ^ 64"
  obtains I where "client_inv I (hx_client h)" "server_inv I (ic_core (hx_ic h))" "length I = hx_generated h"
    "log_ok I" "log_fits I" "\<And>t r. sending (hx_threads h t) = Some r \<Longrightarrow> r \<in> set I"
    "n_committed (ingest_replay (build_replay (event_count (srv_history (ic_core (hx_ic h)))) (hx_client h))
       (ic_core (hx_ic h))) = hx_generated h"
proof -
  obtain s where s: "sys_inv s" "sys_fits s" "cl s = hx_client h" "sv s = ic_core (hx_ic h)"
    "length (issued s) = hx_generated h" "\<And>t r. sending (hx_threads h t) = Some r \<Longrightarrow> r \<in> set (issued s)"
    using http_facts [OF assms] by metis
  show ?thesis
    using that [of "issued s"] sys_invD(1,2,5) [OF s(1)] full_replay(2) [OF s(1,2) order.refl] s
    by (simp add: sys_fits_def)
qed

lemma caught_up_drains:
  assumes "http_reachable app crashes path h" and "2 * hx_generated h < 2 ^ 64"
    and "settled h" and "caught_up h"
  shows "\<exists>h'. http_run app crashes path h h' \<and> hx_generated h' = hx_generated h \<and> busy h' = {}"
  using assms
proof (induction "card (busy h)" arbitrary: h rule: less_induct)
  case less
  show ?case
  proof (cases "busy h = {}")
    case False
    then obtain t r where r: "sending (hx_threads h t) = Some r"
      using oldest_sender [OF less.prems(1,2)] by blast
    obtain I where I: "server_inv I (ic_core (hx_ic h))" "length I = hx_generated h" "log_ok I" "log_fits I"
      "r \<in> set I"
      using http_inv [OF less.prems(1,2)] r by metis
    have all: "n_committed (ic_core (hx_ic h)) = length I" using less.prems(4) I(2) by (simp add: caught_up_def)
    have no: "\<not> needs_recover r (ic_core (hx_ic h))" using caught_up_no_recover [OF I(1,3,4,5) all] .
    have le: "req_seq r \<le> srv_committed_upto (ic_core (hx_ic h))"
      using log_member_seq [OF I(3,5)] all by (simp add: ids_def word_le_nat_alt)
    obtain h' where h': "http_run app crashes path h h'" "settled h'" "card (busy h') < card (busy h)"
      "hx_generated h' = hx_generated h" "ic_core (hx_ic h') = snd (on_request app r (ic_core (hx_ic h)))"
      using sender_round [OF less.prems(1-3) r no] answered_at_once [OF no] le by blast
    have "caught_up h'"
      using committed_answer [OF no le, of app] h'(4,5) less.prems(4) by (auto simp: caught_up_def)
    then obtain h'' where "http_run app crashes path h' h''" "hx_generated h'' = hx_generated h'" "busy h'' = {}"
      using less.hyps [OF h'(3) http_run_reachable [OF h'(1) less.prems(1)] _ h'(2)] h'(4) less.prems(2) by auto
    then show ?thesis using rtranclp_trans [OF h'(1)] h'(4) by (intro exI [of _ h'']) simp
  qed blast
qed

lemma recover_drains_http:
  assumes reach: "http_reachable app crashes path h" and fits: "2 * hx_generated h < 2 ^ 64"
    and set: "settled h" and r: "sending (hx_threads h t) = Some r" and rec: "needs_recover r (ic_core (hx_ic h))"
  shows "\<exists>h'. http_run app crashes path h h' \<and> hx_generated h' = hx_generated h \<and> busy h' = {}"
proof -
  let ?h = "set_thread t (Sending r) h"
  have run: "http_run app crashes path h ?h" using r set by (intro retry_run) (simp_all add: settled_def)
  have f: "hx_threads ?h t = Sending r" "hx_ic ?h = hx_ic h" "hx_generated ?h = hx_generated h"
    "hx_client ?h = hx_client h" by (simp_all add: set_thread_def)
  obtain g where g: "http_run app crashes path ?h g" "hx_threads g = hx_threads ?h" "hx_generated g = hx_generated h"
    "ic_core (hx_ic g) = ingest_replay
       (build_replay (event_count (srv_history (ic_core (hx_ic h)))) (hx_client h)) (ic_core (hx_ic h))"
    using recover_round [OF f(1), of app crashes path] rec unfolding f by auto
  have "caught_up g" using http_inv [OF reach fits] g(3,4) by (metis caught_up_def)
  moreover have "settled g" using set g(2) by (simp add: settled_def set_thread_def)
  moreover have hg: "http_run app crashes path h g" using run g(1) by (rule rtranclp_trans)
  ultimately obtain h' where "http_run app crashes path g h'" "hx_generated h' = hx_generated h" "busy h' = {}"
    using caught_up_drains [OF http_run_reachable [OF hg reach]] fits g(3) by auto
  then show ?thesis using rtranclp_trans [OF hg] by blast
qed

text \<open>Where a request stands relative to what the server has committed.\<close>

lemma committed_cases:
  assumes "server_inv I s" and "log_fits I"
  shows "(q \<le> srv_committed_upto s \<or> q = srv_committed_upto s + 1 \<and> \<not> q \<le> srv_committed_upto s) \<or>
    q > srv_committed_upto s + 1"
proof -
  have wrap: "unat (srv_committed_upto s + 1) = n_committed s + 1"
    using server_invD(1) [OF assms(1)] log_fits_length [OF assms(2)] by (intro unat_plus_one) simp
  show ?thesis
  proof (cases "unat q" "n_committed s + 1" rule: linorder_cases)
    case equal
    then have "q = srv_committed_upto s + 1" using wrap by (intro word64_eqI) simp
    then show ?thesis by blast
  qed (auto simp: word_le_nat_alt word_less_nat_alt wrap)
qed

lemma http_failover_drain:
  assumes "http_reachable app crashes path h" and "2 * (hx_generated h + 1) < 2 ^ 64" and "settled h"
  shows "\<exists>h'. http_run app crashes path h h' \<and> hx_generated h' \<le> hx_generated h + 1 \<and> busy h' = {}"
  using assms
proof (induction "card (busy h)" arbitrary: h rule: less_induct)
  case less
  have fits: "2 * hx_generated h < 2 ^ 64" using less.prems(2) by simp
  note reach = less.prems(1) and set = less.prems(3)
  let ?s = "ic_core (hx_ic h)" and ?c = "hx_client h"
  show ?case
  proof (cases "busy h = {}")
    case False
    then obtain t r where r: "sending (hx_threads h t) = Some r" "req_seq r = cli_base ?c"
      using oldest_sender [OF reach fits] by blast
    obtain I where I: "server_inv I ?s" "log_fits I" using http_inv [OF reach fits] by metis
    show ?thesis
    proof (cases "needs_recover r ?s")
      case True
      then show ?thesis using recover_drains_http [OF reach fits set r(1)] by fastforce
    next
      case no: False
      show ?thesis
        using committed_cases [OF I, of "req_seq r"]
      proof
        assume near: "req_seq r \<le> srv_committed_upto ?s \<or>
          req_seq r = srv_committed_upto ?s + 1 \<and> \<not> req_seq r \<le> srv_committed_upto ?s"
        obtain h' where h': "http_run app crashes path h h'" "settled h'" "card (busy h') < card (busy h)"
          "hx_generated h' = hx_generated h"
          using sender_round [OF reach fits set r(1) no] answered_at_once [OF no near] by blast
        then show ?thesis
          using less.hyps [OF h'(3) http_run_reachable [OF h'(1) reach] _ h'(2)] less.prems(2)
            rtranclp_trans [OF h'(1)] by auto
      next
        assume far: "req_seq r > srv_committed_upto ?s + 1"
        have "finite (busy h)" using http_own_requests [OF reach fits] by (simp add: own_requests_def)
        then obtain u where u: "hx_threads h u = Idle"
          using ex_new_if_finite [OF infinite_UNIV_nat] by (auto simp: busy_def)
        obtain r' c' where gen: "generate_request [] ?c = (r', c')" by fastforce
        let ?g = "set_thread u (Sending r') (h\<lparr>hx_client := c', hx_generated := Suc (hx_generated h)\<rparr>)"
        have st: "http_step app crashes path h ?g" using u gen by (rule http_step.begin_send)
        have "needs_recover r' ?s"
          using far r(2) generate_request_fields(2) [OF gen] by (simp add: needs_recover_def)
        moreover have "settled ?g" using set by (simp add: settled_def set_thread_def)
        ultimately obtain h' where "http_run app crashes path ?g h'" "hx_generated h' = Suc (hx_generated h)" "busy h' = {}"
          using recover_drains_http [of app crashes path ?g u r'] http_reachable.step [OF reach st] less.prems(2)
          by (auto simp: set_thread_def)
        then show ?thesis using rtranclp_trans [OF r_into_rtranclp [where r = "http_step app crashes path", OF st]] by (intro exI [of _ h']) simp
      qed
    qed
  qed (auto intro: exI [of _ h])
qed

text \<open>Without crashes no sender ever recovers, and no further request is needed.\<close>

lemma plain_settled:
  assumes "http_reachable app False path h" and "2 * hx_generated h < 2 ^ 64"
  shows "settled h"
proof -
  obtain s where s: "reachable app False s" "outside_ok path h s" "length (issued s) = hx_generated h"
    using http_simulated [OF assms(1)] by (auto simp: simulates_def outside_ok_def)
  have "sys_fits s" using assms(2) s(3) by (simp add: sys_fits_def log_fits_def)
  then have "replays s = []" using reachable_plain [OF s(1)] by (simp add: plain_sys_def plain_inv_def)
  then show ?thesis
    using thread_okD [OF s(2)] unfolding settled_def
    by (metis (no_types, lifting) recovering.elims(2) sender.simps(28,29) thread_ok_def replay_text_def empty_iff list.set(1))
qed

lemma http_plain_drain:
  assumes "http_reachable app False path h" and "2 * hx_generated h < 2 ^ 64"
  shows "\<exists>h'. http_run app False path h h' \<and> hx_generated h' = hx_generated h \<and> busy h' = {}"
  using assms
proof (induction "card (busy h)" arbitrary: h rule: less_induct)
  case less
  note reach = less.prems(1) and fits = less.prems(2)
  let ?s = "ic_core (hx_ic h)" and ?c = "hx_client h"
  show ?case
  proof (cases "busy h = {}")
    case False
    then obtain t r where r: "sending (hx_threads h t) = Some r" "req_seq r = cli_base ?c"
      using oldest_sender [OF reach fits] by blast
    obtain s where s: "reachable app False s" "sys_fits s" "cl s = ?c" "sv s = ?s" "r \<in> set (issued s)"
      using http_facts [OF reach fits] r(1) by metis
    have fit: "log_fits (issued s)" using s(2) by (simp add: sys_fits_def)
    note P = plain_sysD [OF reachable_plain [OF s(1,2)]] note D = sys_invD [OF P(1)]
    have no: "\<not> needs_recover r ?s" using plain_no_recover [OF P(4) D(7) s(5) D(5) D(2) fit] s(4) by simp
    have "\<exists>x \<in> set (fst (on_request app r ?s)). rsp_seq x = req_seq r"
      using oldest_answered [OF P(4) D(2) D(7) D(5) fit D(6) s(5), of app]
        client_invD(15,16) [OF D(1)] r(2) s(3,4) by auto
    then obtain h' where h': "http_run app False path h h'" "settled h'" "card (busy h') < card (busy h)"
      "hx_generated h' = hx_generated h"
      using sender_round [OF reach fits plain_settled [OF reach fits] r(1) no] by blast
    then show ?thesis
      using less.hyps [OF h'(3) http_run_reachable [OF h'(1) reach]] fits rtranclp_trans [OF h'(1)] by auto
  qed blast
qed

end
