(* ===== verification/Demo_Liveness.thy ===== *)
theory Demo_Liveness
  imports Demo_System Http_Liveness
begin

text \<open>
  The demo client can always finish while the server does not crash: every step of its sender
  threads, as \<open>Demo_Programs\<close> has them, can be carried out over the network, because a \<open>send\<close>
  that has begun can always be brought to its end.
\<close>

abbreviation demo_run ::
    "'w app \<Rightarrow> bool \<Rightarrow> string \<Rightarrow> client_config \<Rightarrow> 'w demo_sys \<Rightarrow> 'w demo_sys \<Rightarrow> bool" where
  "demo_run app crashes path c \<equiv> (demo_sys_step app crashes path c)\<^sup>*\<^sup>*"

lemma demo_run_reaches:
  "demo_run app crashes path c s s' \<Longrightarrow> demo_sys_reachable app crashes path c s \<Longrightarrow>
   demo_sys_reachable app crashes path c s'"
  by (induction rule: rtranclp_induct) (auto intro: demo_sys_reachable.step)

lemma http_run_generated: "http_run app crashes path h h' \<Longrightarrow> hx_generated h \<le> hx_generated h'"
  by (induction rule: rtranclp_induct) (auto dest: http_step_generated)

text \<open>What happens on the network happens in the whole system.\<close>

lemma network_run:
  assumes "http_run app crashes path (ds_http s) h" and "hx_generated h = hx_generated (ds_http s)"
  shows "demo_run app crashes path c s (s\<lparr>ds_http := h\<rparr>)"
  using assms
proof (induction rule: rtranclp_induct)
  case (step y z)
  have "hx_generated y = hx_generated (ds_http s)"
    using http_run_generated [OF step.hyps(1)] http_step_generated [OF step.hyps(2)] step.prems by simp
  then have "demo_run app crashes path c s (s\<lparr>ds_http := y\<rparr>)" using step.IH by blast
  moreover have "demo_sys_step app crashes path c (s\<lparr>ds_http := y\<rparr>) (s\<lparr>ds_http := z\<rparr>)"
    using demo_sys_step.network [of app crashes path "s\<lparr>ds_http := y\<rparr>" z c] step.hyps(2) step.prems
      \<open>hx_generated y = hx_generated (ds_http s)\<close> by simp
  ultimately show ?case by simp
qed simp

lemma demo_sys_fits:
  assumes "demo_sys_reachable app crashes path c s" and "numbers_fit c"
  shows "2 * hx_generated (ds_http s) < 2 ^ 64"
proof -
  have inv: "demo_sys_inv c s" using assms by (rule demo_sys_inv_reachable)
  then have "\<exists>k \<le> nat (cc_count c). dc_sent (ds_demo s) = map int [0..<k]"
    by (auto simp: demo_sys_inv_def demo_inv_def)
  then have "length (dc_sent (ds_demo s)) \<le> nat (cc_count c)" by auto
  moreover have "hx_generated (ds_http s) \<le> length (dc_sent (ds_demo s))"
    using inv by (simp add: demo_sys_inv_def)
  ultimately show ?thesis using assms(2) by (simp add: numbers_fit_def)
qed

text \<open>All senders that are waiting get their answers.\<close>

lemma answers_arrive:
  assumes "demo_sys_reachable app False path c s" and "numbers_fit c"
  shows "\<exists>h. demo_run app False path c s (s\<lparr>ds_http := h\<rparr>) \<and> (\<forall>t. hx_threads h t = Idle)"
proof -
  obtain h where "http_run app False path (ds_http s) h" "hx_generated h = hx_generated (ds_http s)" "busy h = {}"
    using http_plain_drain [OF demo_sys_http [OF assms(1)] demo_sys_fits [OF assms]] by blast
  then show ?thesis using network_run [of app False path s h c] by (intro exI [of _ h]) (auto simp: busy_def)
qed

lemma started_send_ends:
  assumes "demo_sys_reachable app False path c s" and "numbers_fit c" and "ds_started s t"
    and "send_returned t (ds_demo s) = Some d"
  shows "\<exists>s'. demo_run app False path c s s' \<and> ds_demo s' = d"
proof -
  obtain h where h: "demo_run app False path c s (s\<lparr>ds_http := h\<rparr>)" "hx_threads h t = Idle"
    using answers_arrive [OF assms(1,2)] by blast
  let ?g = "s\<lparr>ds_http := h\<rparr>"
  let ?e = "?g\<lparr>ds_demo := d, ds_started := (ds_started ?g)(t := False)\<rparr>"
  have "demo_sys_step app False path c ?g ?e" using h(2) assms(3,4) by (intro demo_sys_step.send_ends) simp_all
  with h(1) have "demo_run app False path c s ?e" by (rule rtranclp.rtrancl_into_rtrancl)
  moreover have "ds_demo ?e = d" by simp
  ultimately show ?thesis by blast
qed

lemma send_can_end:
  assumes "demo_sys_reachable app False path c s" and "numbers_fit c"
    and "send_returned t (ds_demo s) = Some d"
  shows "\<exists>s'. demo_run app False path c s s' \<and> ds_demo s' = d"
proof (cases "ds_started s t")
  case True
  then show ?thesis using started_send_ends [OF assms(1,2) _ assms(3)] by blast
next
  case False
  have inv: "demo_sys_inv c s" using assms(1,2) by (rule demo_sys_inv_reachable)
  obtain i where i: "t < length (dc_threads (ds_demo s))" "dc_threads (ds_demo s) ! t = In_Send i"
    using assms(3) by (auto simp: send_returned_def split: if_splits sender_thread.splits)
  have "hx_threads (ds_http s) t = Idle" using inv False by (auto simp: demo_sys_inv_def)
  moreover obtain r k where "generate_request (client_payload 0) (hx_client (ds_http s)) = (r, k)" by fastforce
  ultimately obtain g where g: "demo_sys_step app False path c s g" "ds_started g t" "ds_demo g = ds_demo s"
    using demo_sys_step.begin_send [OF i False, of 0 r k app False path c] by fastforce
  then have "\<exists>s'. demo_run app False path c g s' \<and> ds_demo s' = d"
    using started_send_ends [OF demo_sys_reachable.step [OF assms(1)] assms(2)] assms(3) by simp
  then show ?thesis using rtranclp_trans [OF r_into_rtranclp [where r = "demo_sys_step app False path c", OF g(1)]] by blast
qed

lemma demo_steps_carried_out:
  assumes "(demo_step c)\<^sup>*\<^sup>* (ds_demo s) e" and "demo_sys_reachable app False path c s" and "numbers_fit c"
  shows "\<exists>s'. demo_run app False path c s s' \<and> ds_demo s' = e"
  using assms(1)
proof (induction rule: rtranclp_induct)
  case (step y z)
  then obtain s' where s': "demo_run app False path c s s'" "ds_demo s' = y" by blast
  have reach: "demo_sys_reachable app False path c s'" using s'(1) assms(2) by (rule demo_run_reaches)
  from step.hyps(2) have "\<exists>s''. demo_run app False path c s' s'' \<and> ds_demo s'' = z"
  proof cases
    case (fetch t)
    then have "demo_sys_step app False path c s' (s'\<lparr>ds_demo := z\<rparr>)"
      using s'(2) by (intro demo_sys_step.fetch) simp
    then show ?thesis by (intro exI [of _ "s'\<lparr>ds_demo := z\<rparr>"]) auto
  next
    case (send_returns t)
    then show ?thesis using send_can_end [OF reach assms(3)] s'(2) by blast
  qed
  then show ?case using rtranclp_trans [OF s'(1)] by blast
qed (auto intro: exI [of _ s])

lemma demo_finishes:
  assumes "demo_sys_reachable app False path c s" and "numbers_fit c"
  shows "\<exists>s'. demo_run app False path c s s' \<and> all_joined (ds_demo s')"
proof -
  have "demo_inv c (ds_demo s)" using demo_sys_inv_reachable [OF assms] by (simp add: demo_sys_inv_def)
  then obtain e where "(demo_step c)\<^sup>*\<^sup>* (ds_demo s) e" "all_joined e"
    using demo_end.run_ends [of c "ds_demo s"] assms(2) by blast
  then show ?thesis using demo_steps_carried_out [OF _ assms] by blast
qed

end
