(* ===== verification/Http_Demo.thy ===== *)
theory Http_Demo
  imports Demo_Run Demo_Liveness
begin

text \<open>
  A concrete execution of the deployed system, at which the theorems about it are
  instantiated: one sender generates a request and POSTs it, the server handles it, and the
  sender takes the reply. The network hands over exactly what was sent.
\<close>

definition demo_payload :: string where
  "demo_payload = client_payload 0"

definition http_client0 :: client where
  "http_client0 = client_on_hash_mismatch (client_new True True)"

definition http_ic0 :: "nat interceptor" where
  "http_ic0 =
     \<lparr>ic_core = server_on_hash_mismatch (server_new True 0), ic_set_hash = True, ic_checkpoint_path = [],
      ic_checkpoint_every = 16, ic_commits_since = 0, ic_restored = False, ic_on_committed = True,
      ic_committed = [], ic_pending = []\<rparr>"

definition http_request1 :: request where
  "http_request1 = fst (generate_request demo_payload http_client0)"

definition http0 :: "nat http_sys" where
  "http0 = \<lparr>hx_client = http_client0, hx_threads = (\<lambda>_. Idle), hx_ic = http_ic0, hx_fs = Map.empty,
     hx_posts = [], hx_log = [], hx_next = 0, hx_replay_objs = {}, hx_generated = 0\<rparr>"

definition http1 :: "nat http_sys" where
  "http1 = set_thread 0 (Sending http_request1)
     (http0\<lparr>hx_client := snd (generate_request demo_payload http_client0), hx_generated := 1\<rparr>)"

definition http2 :: "nat http_sys" where
  "http2 = set_thread 0 (Waiting http_request1 0)
     (add_post (header_lines http_request1) (req_payload http_request1) http1)"

definition http3 :: "nat http_sys" where
  "http3 = (case on_color_request demo_app None 0 http_request1 http_ic0 of (acts, ops, i) \<Rightarrow>
     http2\<lparr>hx_ic := i, hx_log := hx_log http2 @ acts, hx_fs := fold run_op ops (hx_fs http2), hx_posts := []\<rparr>)"

lemma http_start0: "http_start True True True [] 16 0 = Some http0"
  by (simp add: http_start_def interceptor_new_def load_checkpoint_def http0_def http_ic0_def
      http_client0_def ic_on_hash_mismatch_def on_committed_def)

lemma http_reach0: "http_reachable demo_app crashes [] http0"
  by (rule http_reachable.start [OF http_start0])

lemma http_to1: "http_step demo_app crashes [] http0 http1"
proof -
  have "generate_request demo_payload (hx_client http0) = (http_request1, snd (generate_request demo_payload http_client0))"
    by (simp add: http_request1_def http0_def)
  from http_step.begin_send [OF _ this, of 0 demo_app crashes "[]"]
  show ?thesis by (simp add: http0_def http1_def)
qed

lemma http_to2: "http_step demo_app crashes [] http1 http2"
proof -
  have "hx_threads http1 0 = Sending http_request1" "hx_next http1 = 0"
    by (simp_all add: http1_def set_thread_def http0_def)
  from http_step.post_request [OF this(1), of demo_app crashes "[]"] this(2)
  show ?thesis by (simp add: http2_def)
qed

lemma http_to3: "http_step demo_app crashes [] http2 http3"
proof -
  let ?l = "header_lines http_request1" and ?b = "req_payload http_request1"
  let ?w = "wire ?l ?b"
  note w = Parse_header_lines [OF wire_arrives]
  have p: "hx_posts http2 = [(0, ?l, ?b)]" "hx_ic http2 = http_ic0"
    by (simp_all add: http2_def add_post_def set_thread_def http1_def http0_def)
  obtain acts ops i where o: "on_color_request demo_app None 0 http_request1 http_ic0 = (acts, ops, i)"
    by (cases "on_color_request demo_app None 0 http_request1 http_ic0")
  have "OnRequest demo_app None 0 ?w (hx_ic http2) = Some (acts, ops, i)"
    using w [of http_request1] o by (simp add: OnRequest_def p)
  moreover have "(0, ?l, ?b) \<in> set (hx_posts http2)" "replay_fits ?w (hx_ic http2)"
    using w [of http_request1] by (simp_all add: p replay_fits_def)
  ultimately show ?thesis
    using http_step.serve [of 0 ?l ?b http2 ?w demo_app None acts ops i crashes "[]"] wire_arrives
    by (simp add: http3_def o p)
qed

lemma http_reach3: "http_reachable demo_app crashes [] http3"
  by (intro http_reachable.step [OF http_reachable.step [OF http_reachable.step [OF http_reach0 http_to1] http_to2] http_to3])

lemma http_value:
  "hx_generated http3 = 1" "srv_committed_upto (ic_core (hx_ic http3)) = 1"
  "h_events (cli_history (hx_client http3)) = [Rq 1]"
proof -
  have c: "hx_client http3 = snd (generate_request demo_payload http_client0)" "hx_generated http3 = 1"
    "ic_core (hx_ic http3) = snd (on_request demo_app http_request1 (ic_core http_ic0))"
    by (simp_all add: http3_def http2_def http1_def http0_def set_thread_def add_post_def case_prod_beta)
  show "hx_generated http3 = 1" by (rule c(2))
  show "srv_committed_upto (ic_core (hx_ic http3)) = 1"
    unfolding c(3) by (simp add: http_request1_def http_client0_def http_ic0_def eval_client eval_server)
  show "h_events (cli_history (hx_client http3)) = [Rq 1]"
    unfolding c(1) by (simp add: http_client0_def eval_client)
qed

lemma http_buffer_wf: "um_wf (srv_resp_buffer (ic_core (hx_ic http3)))"
proof -
  obtain s where s: "reachable demo_app True s" "simulates [] http3 s" using http_simulated [OF http_reach3] by blast
  have c: "sv s = ic_core (hx_ic http3)" "length (issued s) = 1"
    using s(2) http_value(1) unfolding simulates_def outside_ok_def server_ok_def by auto
  have "sys_fits s" using c(2) by (simp add: sys_fits_def log_fits_def)
  from server_invD(5) [OF sys_invD(2) [OF reachable_inv [OF s(1) this]]] show ?thesis by (simp add: c(1))
qed

section \<open>The reply\<close>

definition http_response1 :: response where
  "http_response1 = hd (fst (on_request demo_app http_request1 (ic_core http_ic0)))"

lemma http_on_request:
  "on_request demo_app http_request1 (ic_core http_ic0) =
     ([http_response1], snd (on_request demo_app http_request1 (ic_core http_ic0)))"
  by (simp add: http_response1_def http_request1_def http_client0_def http_ic0_def eval_client eval_server)

lemma http_response1_value:
  "\<not> rsp_recover http_response1" "rsp_seq http_response1 = 1" "\<not> rsp_no_op http_response1"
  by (simp_all add: http_response1_def http_request1_def http_client0_def http_ic0_def eval_client eval_server)

definition http_done :: client where
  "http_done = snd (the (on_response http_response1 (snd (generate_request demo_payload http_client0))))"

definition http4 :: "nat http_sys" where
  "http4 = set_thread 0 Idle (http3\<lparr>hx_client := http_done\<rparr>)"

lemma http_on_response:
  "on_response http_response1 (snd (generate_request demo_payload http_client0)) = Some (True, http_done)"
  by (simp add: http_done_def http_response1_def http_request1_def http_client0_def http_ic0_def eval_client eval_server)

definition http_reply1 :: http_reply where
  "http_reply1 = \<lparr>hp_headers = reply_headers True http_response1, hp_body = rsp_payload http_response1\<rparr>"

lemma http_out: "fst (on_request demo_app http_request1 (ic_core http_ic0)) = [http_response1]"
  by (subst http_on_request) simp

lemma http_replied: "fst (on_color_request demo_app None 0 http_request1 http_ic0) = [Replied 0 OK http_reply1]"
proof -
  have "ic_pending http_ic0 = []" "ic_set_hash http_ic0" "req_seq http_request1 = 1"
    by (simp_all add: http_ic0_def http_request1_def http_client0_def eval_client)
  moreover have "\<not> is_recover [http_response1]" by (simp add: is_recover_def http_response1_value(1))
  ultimately show ?thesis
    using http_response1_value(2)
    by (simp add: on_color_request_eq http_out Let_def completed_def complete_one_def superseded_def
        Complete_eq http_reply1_def)
qed

lemma http_to4: "http_step demo_app crashes [] http3 http4"
proof -
  have l: "Replied 0 OK http_reply1 \<in> set (hx_log http3)"
    using http_replied by (simp add: http3_def case_prod_beta)
  have "\<not> is_recover (fst (on_request demo_app http_request1 (ic_core http_ic0)))"
    by (simp add: http_out is_recover_def http_response1_value(1))
  then have plain: "plain_response True http_response1"
    using on_request_plain(2) [of demo_app http_request1 "ic_core http_ic0" http_response1] http_out
    by (simp add: http_ic0_def server_on_hash_mismatch_def server_new_def)
  let ?ls = "map response_line (hp_headers http_reply1)"
  have a: "answered_with (hp_headers http_reply1) ?ls" by (simp add: http_reply1_def sent_headers_arrive)
  have "after_post http_request1 (reply_result OK http_reply1 ?ls) = Take http_response1"
    by (rule completed_response_received [of 0 OK http_reply1 True 0, OF _ plain a]) (simp add: Complete_eq http_reply1_def)
  moreover have "hx_threads http3 0 = Waiting http_request1 0"
    "hx_client http3 = snd (generate_request demo_payload http_client0)"
    by (simp_all add: http3_def http2_def http1_def http0_def set_thread_def add_post_def case_prod_beta)
  ultimately show ?thesis
    unfolding http4_def using l http_on_response a
    by (intro http_step.take_reply [where hp = http_reply1 and st = OK]) auto
qed

lemma http_reach4: "http_reachable demo_app crashes [] http4"
  by (rule http_reachable.step [OF http_reach3 http_to4])

section \<open>The interceptor alone, and a lossy transport\<close>

lemma handler_run3: "handler_run demo_app (hx_ic http3) {0} (hx_log http3)"
proof -
  let ?l = "header_lines http_request1" and ?b = "req_payload http_request1"
  obtain i where i: "interceptor_new True [] 16 (0 :: nat) Map.empty = Some i" "http_ic0 = ic_on_hash_mismatch (on_committed i)"
    by (simp add: interceptor_new_def load_checkpoint_def http_ic0_def ic_on_hash_mismatch_def on_committed_def)
  have r: "handler_run demo_app http_ic0 {} []"
    unfolding i(2) by (intro handler_run.set_mismatch handler_run.set_committed handler_run.start [OF i(1)])
  obtain acts ops j where o: "on_color_request demo_app None 0 http_request1 http_ic0 = (acts, ops, j)"
    by (cases "on_color_request demo_app None 0 http_request1 http_ic0")
  then have "OnRequest demo_app None 0 (wire ?l ?b) http_ic0 = Some (acts, ops, j)"
    using Parse_header_lines [OF wire_arrives, of http_request1] by (simp add: OnRequest_def)
  from handler_run.handle [OF r _ this] show ?thesis
    by (simp add: http3_def o http2_def http1_def http0_def set_thread_def add_post_def)
qed

text \<open>The transport drops the first attempts, as many as the state of its world says.\<close>

definition lossy_curl :: "nat curl" where
  "lossy_curl =
     \<lparr>curl_uniform = (\<lambda>seed n. (if n = 0 then 1 else 0, n - 1)), curl_init = (\<lambda>n. (True, n)),
      curl_perform = (\<lambda>timeout url lines body n.
        (\<lparr>tr_ok = True, tr_header_pieces = [''Color-Seq: 1''], tr_body_pieces = [body], tr_code = 200\<rparr>, n))\<rparr>"

lemma lossy_curl_settles:
  "settles (post lossy_curl (transport_new 0.3 0.3 1 2000)) id"
  by (auto simp: settles_def transport_new_def post_def roll_def lossy_curl_def default_result_def Let_def split: if_splits)

section \<open>The demo client\<close>

text \<open>The same execution, driven by a demo client with one thread and one message.\<close>

definition one_message :: client_config where
  "one_message = default_client_config\<lparr>cc_count := 1, cc_set_hash := True\<rparr>"

definition demo_run0 :: "nat demo_sys" where
  "demo_run0 = \<lparr>ds_demo = demo_client_new one_message, ds_http = http0, ds_started = (\<lambda>_. False)\<rparr>"

definition demo_run1 :: "nat demo_sys" where
  "demo_run1 = demo_run0\<lparr>ds_demo := \<lparr>dc_next_id = 1, dc_threads = [In_Send 0], dc_sent = [0]\<rparr>\<rparr>"

definition demo_run2 :: "nat demo_sys" where
  "demo_run2 = demo_run1\<lparr>ds_http := http1, ds_started := (\<lambda>_. False)(0 := True)\<rparr>"

definition demo_run5 :: "nat demo_sys" where
  "demo_run5 = demo_run2\<lparr>ds_http := http4, ds_demo := \<lparr>dc_next_id = 1, dc_threads = [Fetching], dc_sent = [0]\<rparr>,
     ds_started := (\<lambda>_. False)(0 := False)\<rparr>"

definition demo_run6 :: "nat demo_sys" where
  "demo_run6 = demo_run5\<lparr>ds_demo := \<lparr>dc_next_id = 2, dc_threads = [Left_Loop], dc_sent = [0]\<rparr>\<rparr>"

lemmas demo_run_defs = demo_run0_def demo_run1_def demo_run2_def demo_run5_def

lemma demo_run2_reachable: "demo_sys_reachable demo_app False [] one_message demo_run2"
proof -
  let ?R = "demo_sys_reachable demo_app False [] one_message" and ?S = "demo_sys_step demo_app False [] one_message"
  have 0: "?R demo_run0"
    unfolding demo_run0_def
    by (rule demo_sys_reachable.start [of _ True _ 16 0]) (simp add: one_message_def http_start0)
  have "fetch_id one_message 0 (ds_demo demo_run0) = Some (ds_demo demo_run1)"
    by (simp add: demo_run_defs fetch_id_def demo_client_new_def one_message_def default_client_config_def)
  then have 1: "?R demo_run1"
    using demo_sys_reachable.step [OF 0 demo_sys_step.fetch] by (simp add: demo_run_defs)
  have g: "generate_request (client_payload 0) (hx_client (ds_http demo_run1)) =
      (http_request1, snd (generate_request demo_payload http_client0))"
    by (simp add: demo_run_defs http0_def http_request1_def demo_payload_def)
  have "?S demo_run1 demo_run2"
    using demo_sys_step.begin_send [of 0 demo_run1 0, OF _ _ _ _ g]
    by (simp add: demo_run_defs http1_def http0_def)
  then show "?R demo_run2" by (rule demo_sys_reachable.step [OF 1])
qed

lemma demo_run_reachable: "demo_sys_reachable demo_app False [] one_message demo_run6"
proof -
  let ?R = "demo_sys_reachable demo_app False [] one_message" and ?S = "demo_sys_step demo_app False [] one_message"
  have gen: "hx_generated http1 = 1" "hx_generated http2 = 1" "hx_generated http3 = 1" "hx_generated http4 = 1"
    by (simp_all add: http4_def http3_def http2_def http1_def http0_def set_thread_def add_post_def case_prod_beta)
  have net: "?R (demo_run2\<lparr>ds_http := h'\<rparr>)" if "?R (demo_run2\<lparr>ds_http := h\<rparr>)" "http_step demo_app False [] h h'"
    "hx_generated h = 1" "hx_generated h' = 1" for h h'
    using demo_sys_reachable.step [OF that(1) demo_sys_step.network, of h'] that(2-4) by simp
  have h1: "demo_run2\<lparr>ds_http := http1\<rparr> = demo_run2" by (simp add: demo_run2_def)
  have 4: "?R (demo_run2\<lparr>ds_http := http4\<rparr>)"
    by (intro net [OF net [OF net [OF _ http_to2] http_to3] http_to4]) (simp_all add: gen h1 demo_run2_reachable)
  have "send_returned 0 (ds_demo demo_run2) = Some (ds_demo demo_run5)" "hx_threads http4 0 = Idle"
    by (simp_all add: demo_run_defs send_returned_def http4_def set_thread_def)
  then have "?S (demo_run2\<lparr>ds_http := http4\<rparr>) demo_run5"
    using demo_sys_step.send_ends [of "demo_run2\<lparr>ds_http := http4\<rparr>" 0 "ds_demo demo_run5"]
    by (simp add: demo_run_defs)
  then have 5: "?R demo_run5" by (rule demo_sys_reachable.step [OF 4])
  have "fetch_id one_message 0 (ds_demo demo_run5) = Some (ds_demo demo_run6)"
    by (simp add: demo_run6_def demo_run5_def fetch_id_def one_message_def default_client_config_def)
  then show ?thesis
    using demo_sys_reachable.step [OF 5 demo_sys_step.fetch] by (simp add: demo_run6_def)
qed

end
