(* ===== verification/Http_Properties.thy ===== *)
theory Http_Properties
  imports Http_Demo
begin

text \<open>
  Properties of the program as it is deployed: the HTTP client, the interceptor and the
  checkpoint file, and the protocol they implement together.
\<close>

section \<open>The deployed system\<close>



text \<open>C6: over HTTP, while the server does not crash, the application runs exactly once for every
  committed request whatever is lost, repeated or reordered; the server's history is a prefix
  of the client's, and neither side reports a hash mismatch.\<close>

theorem http_exactly_once:
  assumes "http_reachable app False path h" and "2 * hx_generated h < 2 ^ 64"
  shows "um_find (srv_app_calls (ic_core (hx_ic h))) q =
      (if 1 \<le> q \<and> q \<le> srv_committed_upto (ic_core (hx_ic h)) then Some 1 else None) \<and>
    (\<exists>zs. h_events (cli_history (hx_client h)) = h_events (srv_history (ic_core (hx_ic h))) @ zs) \<and>
    cli_mismatches (hx_client h) = [] \<and> srv_mismatches (ic_core (hx_ic h)) = []"
proof -
  obtain s where p: "plain_sys s"
    and c: "cl s = hx_client h" "sv s = ic_core (hx_ic h)" "length (issued s) = hx_generated h"
    using http_plain [OF assms] by metis
  note P = plain_sysD [OF p] note D = sys_invD [OF P(1)]
  have "h_events (srv_history (sv s)) = hist_of (take (n_committed (sv s)) (issued s))"
    using server_invD(2) [OF D(2)] plain_serverD(2) [OF P(4)] by (simp add: represents_def)
  moreover have "hist_of (issued s) = hist_of (take (n_committed (sv s)) (issued s)) @
      hist_of (drop (n_committed (sv s)) (issued s))"
    by (metis append_take_drop_id hist_of_simps(2))
  ultimately have "\<exists>zs. h_events (cli_history (cl s)) = h_events (srv_history (sv s)) @ zs"
    using client_history_events [OF D(1)] by auto
  moreover have "um_find (srv_app_calls (sv s)) q =
      (if 1 \<le> q \<and> q \<le> srv_committed_upto (sv s) then Some 1 else None)"
    using plain_serverD(4) [OF P(4), of q] by (simp add: ids_def word_le_nat_alt)
  ultimately show ?thesis
    using client_invD(18) [OF D(1)] server_invD(9) [OF D(2)] unfolding c by blast
qed

theorem http_exactly_once_witness:
  "um_find (srv_app_calls (ic_core (hx_ic http3))) 1 = Some 1"
  using http_exactly_once [OF http_reach3, of 1] by (simp add: http_value)





section \<open>Messages over HTTP\<close>

text \<open>C16: the header lines and the body the client POSTs for a request are parsed by the interceptor
  into the same request, for every id, acknowledgement list, hash and payload.\<close>

theorem request_survives_http:
  assumes "arrives (header_lines r) (req_payload r) h"
  shows "Parse h = r \<and> OnRequest app room obj h i = Some (on_color_request app room obj r i)"
  using Parse_header_lines [OF assms] by (simp add: OnRequest_def)

theorem request_survives_http_witness:
  "Parse (wire (header_lines (default_request\<lparr>req_seq := 7, req_ack_new := [5, 6], req_hash := Some 9\<rparr>)) []) =
     default_request\<lparr>req_seq := 7, req_ack_new := [5, 6], req_hash := Some 9\<rparr>"
proof -
  let ?r = "default_request\<lparr>req_seq := 7, req_ack_new := [5, 6], req_hash := Some 9\<rparr>"
  have "arrives (header_lines ?r) (req_payload ?r) (wire (header_lines ?r) [])"
    using wire_arrives [of _ "[]"] by (simp add: default_request_def)
  from request_survives_http [OF this] show ?thesis by blast
qed

text \<open>C17: the reply the interceptor completes for a response of the server core is read by the
  client as that response, whatever other header lines the HTTP stack adds; a recovery signal
  is read as the history position it names.\<close>

theorem response_survives_http:
  assumes "ic_set_hash i = srv_set_hash (ic_core i)"
    and "on_color_request app room obj req i = (acts, ops, j)"
    and "Replied o' st hp \<in> set acts" and "answered_with (hp_headers hp) ls"
  shows "\<exists>x \<in> set (fst (on_request app req (ic_core i))).
    after_post r (reply_result st hp ls) = (if rsp_recover x then Recover_First (rsp_recover_from x) else Take x)"
proof -
  let ?out = "fst (on_request app req (ic_core i))"
  have "Replied o' st hp \<in> set (fst (on_color_request app room obj req i))" using assms(2,3) by simp
  from on_color_request_replies [OF this] show ?thesis
  proof
    assume *: "\<not> is_recover ?out \<and> (\<exists>x \<in> set ?out. Replied o' st hp = Complete (ic_set_hash i) o' x)"
    then obtain x where x: "x \<in> set ?out" "Replied o' st hp = Complete (ic_set_hash i) o' x" by blast
    have x3: "plain_response (ic_set_hash i) x"
      using on_request_plain(2) [OF conjunct1 [OF *] x(1)] assms(1) by simp
    from completed_response_received [OF x(2) x3 assms(4)] x(1) x3 show ?thesis
      by (auto simp: plain_response_def)
  next
    assume *: "is_recover ?out \<and> o' = obj \<and> st = SERVICE_UNAV \<and>
      hp_headers hp = [(''Color-Recover'', ''from='' @ to_string (rsp_recover_from (?out ! 0)))]"
    then have "?out ! 0 \<in> set ?out" "rsp_recover (?out ! 0)" by (auto simp: is_recover_def)
    then show ?thesis using recovery_signal_received [OF _ assms(4)] * by auto
  qed
qed

theorem response_survives_http_witness:
  "after_post http_request1 (reply_result OK http_reply1 (map response_line (hp_headers http_reply1))) =
     Take http_response1"
proof -
  obtain acts ops j where o: "on_color_request demo_app None 0 http_request1 http_ic0 = (acts, ops, j)"
    by (cases "on_color_request demo_app None 0 http_request1 http_ic0")
  have "ic_set_hash http_ic0 = srv_set_hash (ic_core http_ic0)"
    by (simp add: http_ic0_def server_on_hash_mismatch_def server_new_def)
  moreover have "Replied 0 OK http_reply1 \<in> set acts" using http_replied o by simp
  moreover have "answered_with (hp_headers http_reply1) (map response_line (hp_headers http_reply1))"
    by (simp add: http_reply1_def sent_headers_arrive)
  ultimately show ?thesis
    using response_survives_http [OF _ o] http_out http_response1_value(1) by fastforce
qed

section \<open>The interceptor\<close>

text \<open>C18: every request object handed to the interceptor is answered or aborted exactly once, or is
  still held and then not yet answered: none is leaked, none is answered twice.\<close>

theorem request_objects_closed_once:
  assumes "handler_run app i used acts"
  shows "length (filter (closes obj) acts) + (if obj \<in> held i then 1 else 0) = (if obj \<in> used then 1 else 0)"
  using handler_run_objects(4) [OF assms, of obj] by (simp add: of_bool_def)

theorem request_objects_closed_once_witness:
  "length (filter (closes 0) (hx_log http3)) + (if 0 \<in> held (hx_ic http3) then 1 else 0) = 1"
  using request_objects_closed_once [OF handler_run3, of 0] by simp

text \<open>C19: the interceptor's table of held requests stays well formed: no object is held under two
  ids, the server core's staging area is keyed by the ids of its requests, and an object is
  held only for a request that is staged there; with nothing staged, no client is kept waiting.\<close>

theorem interceptor_tables_well_formed:
  assumes "handler_run app i used acts"
  shows "inj_on (um_find (ic_pending i)) (um_keys (ic_pending i)) \<and> well_keyed (ic_core i) \<and>
    um_keys (ic_pending i) \<subseteq> um_keys (srv_pending_reqs (ic_core i)) \<and> held i \<subseteq> used"
  using handler_run_objects(1-3) [OF assms] unfolding holds_well_def holds_staged_def by blast

theorem interceptor_tables_well_formed_witness:
  "um_keys (ic_pending (hx_ic http3)) \<subseteq> um_keys (srv_pending_reqs (ic_core (hx_ic http3))) \<and>
   held (hx_ic http3) \<subseteq> {0}"
  using interceptor_tables_well_formed [OF handler_run3] by blast

text \<open>C20: a crash at any moment of writing a checkpoint leaves a file from which the old or the new
  checkpoint is loaded, and the completed write leaves the new one, as long as the disk takes
  the whole text.\<close>

theorem checkpoint_survives_crash:
  assumes "ic_checkpoint_path i \<noteq> []" and "fs (ic_checkpoint_path i) = Some (checkpoint_to_json old)"
    and "length (checkpoint_to_json (server_checkpoint (ic_core i))) \<le> n"
  shows "(\<forall>fs' \<in> crash_states (WriteCheckpoint (Some n) i) fs.
      load_checkpoint (ic_checkpoint_path i) fs' \<in> {Some (Some old), Some (Some (server_checkpoint (ic_core i)))}) \<and>
    load_checkpoint (ic_checkpoint_path i) (fold run_op (WriteCheckpoint (Some n) i) fs) =
      Some (Some (server_checkpoint (ic_core i)))"
proof -
  have ld: "load_checkpoint (ic_checkpoint_path i) g = Some (Some cp)"
    if "g (ic_checkpoint_path i) = Some (checkpoint_to_json cp)" for g cp
    using that assms(1) checkpoint_read_back [of cp "[]"] by (simp add: load_checkpoint_def)
  have "g (ic_checkpoint_path i) \<in> {Some (checkpoint_to_json old), Some (checkpoint_to_json (server_checkpoint (ic_core i)))}"
    if "g \<in> crash_states (WriteCheckpoint (Some n) i) fs" for g
    using that assms(2,3) by (auto simp: WriteCheckpoint_def Let_def split: if_splits)
  moreover have "fold run_op (WriteCheckpoint (Some n) i) fs (ic_checkpoint_path i) =
      Some (checkpoint_to_json (server_checkpoint (ic_core i)))"
    using assms(3) by (simp add: WriteCheckpoint_def Let_def)
  ultimately show ?thesis using ld by auto
qed

theorem checkpoint_survives_crash_witness:
  "\<exists>n. load_checkpoint ''cp'' (fold run_op (WriteCheckpoint (Some n) (http_ic0\<lparr>ic_checkpoint_path := ''cp''\<rparr>))
     [''cp'' \<mapsto> checkpoint_to_json default_checkpoint]) =
   Some (Some (server_checkpoint (ic_core http_ic0)))"
proof -
  let ?i = "http_ic0\<lparr>ic_checkpoint_path := ''cp''\<rparr>"
  let ?fs = "[''cp'' \<mapsto> checkpoint_to_json default_checkpoint]"
  have "ic_checkpoint_path ?i \<noteq> []" "?fs (ic_checkpoint_path ?i) = Some (checkpoint_to_json default_checkpoint)"
    by simp_all
  then show ?thesis using checkpoint_survives_crash [of ?i ?fs default_checkpoint, OF _ _ order.refl] by auto
qed

text \<open>C35: the write is not checked before the rename: if the disk takes only a part of the text, the
  good checkpoint is replaced by a file that does not load, and a restarted server begins
  with an empty history.\<close>

theorem short_write_loses_checkpoint:
  assumes "ic_checkpoint_path i \<noteq> []"
    and "n < length (checkpoint_to_json (server_checkpoint (ic_core i)))"
  shows "\<exists>j. interceptor_new sh (ic_checkpoint_path i) every w
      (fold run_op (WriteCheckpoint (Some n) i) fs) = Some j \<and>
    \<not> ic_restored j \<and> ic_core j = server_new sh w"
proof -
  let ?json = "checkpoint_to_json (server_checkpoint (ic_core i))"
  have "strict_prefix (take n ?json) ?json"
    using assms(2) by (simp add: strict_prefix_def take_is_prefix)
  from checkpoint_cut [OF this] obtain out where "from_json_checkpoint (take n ?json) = Some (False, out)" by blast
  moreover have "fold run_op (WriteCheckpoint (Some n) i) fs (ic_checkpoint_path i) = Some (take n ?json)"
    by (simp add: WriteCheckpoint_def Let_def)
  ultimately have "load_checkpoint (ic_checkpoint_path i) (fold run_op (WriteCheckpoint (Some n) i) fs) = Some None"
    using assms(1) by (simp add: load_checkpoint_def)
  then show ?thesis by (simp add: interceptor_new_def)
qed

theorem short_write_loses_checkpoint_witness:
  "\<exists>j. interceptor_new True ''cp'' 1 (0 :: nat)
      (fold run_op (WriteCheckpoint (Some 0) (http_ic0\<lparr>ic_checkpoint_path := ''cp''\<rparr>))
        [''cp'' \<mapsto> checkpoint_to_json default_checkpoint]) = Some j \<and> \<not> ic_restored j"
proof -
  let ?i = "http_ic0\<lparr>ic_checkpoint_path := ''cp''\<rparr>"
  have "0 < length (checkpoint_to_json (server_checkpoint (ic_core ?i)))"
    by (simp add: checkpoint_to_json_def)
  then show ?thesis
    using short_write_loses_checkpoint [of ?i 0 True 1 0 "[''cp'' \<mapsto> checkpoint_to_json default_checkpoint]"] by auto
qed

text \<open>C36: a replay whose body is cut short is not rejected: the reader fails, but what it has read so
  far is ingested and the reply is \<open>200 OK\<close>, at which the client stops replaying.\<close>

theorem malformed_replay_acknowledged:
  assumes "hr_header req ''Color-Replay'' \<noteq> []" and "strict_prefix (ReadBody req) (replay_to_json rp)"
    and "\<forall>e \<in> set (rp_events rp). event_valid e"
  shows "\<exists>out hp. from_json_replay (ReadBody req) = Some (False, out) \<and>
    OnRequest app room obj req i =
      Some ([Replied obj OK hp], [], i\<lparr>ic_core := ingest_replay out (ic_core i)\<rparr>)"
  using replay_cut [OF assms(2,3)] assms(1) by (auto simp: OnRequest_def OnReplay_def)

theorem malformed_replay_acknowledged_witness:
  "\<exists>out hp. OnRequest demo_app None 5 (wire (replay_lines 0) ''{'') http_ic0 =
     Some ([Replied 5 OK hp], [], http_ic0\<lparr>ic_core := ingest_replay out (ic_core http_ic0)\<rparr>)"
proof -
  let ?rp = "\<lparr>rp_from = 0, rp_events = []\<rparr>" and ?req = "wire (replay_lines 0) ''{''"
  have "hr_header ?req ''Color-Replay'' \<noteq> []" by (simp add: wire_def replay_lines_values)
  moreover have "strict_prefix (ReadBody ?req) (replay_to_json ?rp)"
    by (simp add: wire_def ReadBody_def replay_to_json_def strict_prefix_def)
  ultimately show ?thesis
    using malformed_replay_acknowledged [of ?req ?rp demo_app None 5 http_ic0] by auto
qed

section \<open>The client\<close>

text \<open>C21: \<open>send\<close> returns once the network settles, whatever was lost and however often the server
  asked for a recovery before, and the core has then taken the response in a delivered reply
  that the transport gave to an attempt to send the generated request.\<close>

theorem send_returns:
  assumes "settles P budget" and "generate_request payload (hc_core c) = (req, core)"
    and "finite (cli_received (hc_core c))" and "card (cli_received (hc_core c)) + 1 < 2 ^ 64"
  shows "\<exists>n ij n' res b c'. http_send P payload c = Some c' \<and>
    P (hc_url c) (header_lines req) (req_payload req) n = ((res, ij), n') \<and>
    after_post req res = Take (received_response req res) \<and>
    on_response (received_response req res) core = Some (b, hc_core c')"
  using send_loop_returns [OF assms(1), of "c\<lparr>hc_core := core\<rparr>" req "header_lines req" 1] assms(2-4)
    generate_request_fields(14) [OF assms(2)]
  by (simp add: http_send_def)

theorem send_returns_witness:
  "\<exists>c'. http_send (post lossy_curl (transport_new 0.3 0.3 1 2000)) ''a''
     (http_client_new ''u'' True True (5 :: nat)) = Some c'"
proof -
  let ?c = "http_client_new ''u'' True True (5 :: nat)"
  obtain req core where g: "generate_request ''a'' (hc_core ?c) = (req, core)" by fastforce
  have "cli_received (hc_core ?c) = {}" by (simp add: http_client_new_def client_new_def)
  then show ?thesis using send_returns [OF lossy_curl_settles g] by auto
qed

text \<open>
  \<open>send\<close> looks at the status of a reply only for the recovery signal: the body of any other
  delivered reply, an error page included, is taken as the response, delivered to the caller,
  and the request is never sent again.
\<close>

lemma error_page_taken:
  assumes "generate_request payload (hc_core c) = (req, core)"
    and "P (hc_url c) (header_lines req) (req_payload req) (hc_net c) =
      ((\<lparr>res_delivered = True, res_status = 404, res_headers = [], res_body = page\<rparr>, ij), n)"
    and "req_seq req \<notin> cli_received core" and "q \<notin> insert (req_seq req) (cli_received core)"
    and "cli_deliver core"
  shows "\<exists>c'. http_send P payload c = Some c' \<and>
    cli_delivered (hc_core c') = cli_delivered core @ [(req_seq req, page)] \<and>
    req_seq req \<in> cli_received (hc_core c') \<and> frozen (req_seq req) (hc_core c') = None"
proof -
  let ?res = "\<lparr>res_delivered = True, res_status = 404, res_headers = [], res_body = page\<rparr>"
  let ?x = "received_response req ?res"
  have x: "rsp_seq ?x = req_seq req" "rsp_payload ?x = page" "\<not> rsp_no_op ?x"
    by (simp_all add: received_response_def)
  obtain d where d: "on_response ?x core = Some (True, d)" "cli_received d = insert (req_seq req) (cli_received core)"
    "cli_inflight d = um_erase (req_seq req) (cli_inflight core)"
    "cli_delivered d = cli_delivered core @ [(req_seq req, page)]"
    using advance_base_returns [OF assms(4), of "cli_base core"] on_response_first [of ?x core] assms(3,5) x by fastforce
  have "\<exists>c'. http_send P payload c = Some c' \<and> hc_core c' = d"
    using assms(1,2) d(1)
    by (simp add: http_send_def) (subst send_loop.simps, simp add: after_post_def take_response_def note_attempt_def)
  then show ?thesis using d by (auto simp: frozen_def um_simps)
qed

end
