(* ===== verification/Fuzz_Main.thy ===== *)
theory Fuzz_Main
  imports Harness_Refinement
begin

text \<open>
  The program around the fuzzing harness, \<open>parse\<close> and \<open>main\<close> of
  \<open>verification/src/fuzz_main.cpp\<close>.

  Parameters: \<open>strtod\<close>, how a text is read as a real number (the harness's \<open>double\<close> values
  are reals, so infinities and rounding are not represented); \<open>seeded\<close>, the state of the
  generator made from a seed; \<open>G\<close>, the generator and the distributions for an arrival rate;
  \<open>clock\<close>, the elapsed seconds at the start of each turn of the loop. Nothing is assumed
  about them. \<open>Undefined\<close> stands for undefined behaviour: an option at the end of the command
  line reads past the arguments, and a number out of range is cast to an integer.
\<close>

datatype parse_error = Unknown_Arg string | Undefined

text \<open>The casts from \<open>double\<close>: towards zero, defined when the result is in range.\<close>

definition truncated :: "real \<Rightarrow> int" where
  "truncated v = (if v < 0 then \<lceil>v\<rceil> else \<lfloor>v\<rfloor>)"

definition cast_u64 :: "real \<Rightarrow> 64 word option" where
  "cast_u64 v =
     (if 0 \<le> truncated v \<and> truncated v < 2 ^ 64 then Some (of_int (truncated v)) else None)"

definition cast_int :: "real \<Rightarrow> int option" where
  "cast_int v =
     (if - (2 ^ 31) \<le> truncated v \<and> truncated v < 2 ^ 31 then Some (truncated v) else None)"

definition valued_options :: "string list" where
  "valued_options =
     [''--seeds'', ''--base-seed'', ''--steps'', ''--parallel'', ''--rate'', ''--drop'', ''--dup'',
      ''--max-latency'', ''--rto'', ''--minutes'', ''--failovers'', ''--ckpt-interval'']"

definition set_option :: "string \<Rightarrow> real \<Rightarrow> config \<Rightarrow> config option" where
  "set_option a v c =
     (if a = ''--seeds'' then map_option (\<lambda>n. c\<lparr>cf_seeds := n\<rparr>) (cast_u64 v)
      else if a = ''--base-seed'' then map_option (\<lambda>n. c\<lparr>cf_base_seed := n\<rparr>) (cast_u64 v)
      else if a = ''--steps'' then map_option (\<lambda>n. c\<lparr>cf_gen_steps := n\<rparr>) (cast_u64 v)
      else if a = ''--parallel'' then map_option (\<lambda>n. c\<lparr>cf_parallel := n\<rparr>) (cast_u64 v)
      else if a = ''--rate'' then Some (c\<lparr>cf_rate := v\<rparr>)
      else if a = ''--drop'' then Some (c\<lparr>cf_drop := v\<rparr>)
      else if a = ''--dup'' then Some (c\<lparr>cf_dup := v\<rparr>)
      else if a = ''--max-latency'' then map_option (\<lambda>n. c\<lparr>cf_max_latency := n\<rparr>) (cast_int v)
      else if a = ''--rto'' then map_option (\<lambda>n. c\<lparr>cf_rto := n\<rparr>) (cast_u64 v)
      else if a = ''--minutes'' then Some (c\<lparr>cf_minutes := v\<rparr>)
      else if a = ''--failovers'' then map_option (\<lambda>n. c\<lparr>cf_failovers := n\<rparr>) (cast_u64 v)
      else if a = ''--ckpt-interval'' then map_option (\<lambda>n. c\<lparr>cf_ckpt_interval := n\<rparr>) (cast_u64 v)
      else Some c)"

text \<open>The loop of \<open>parse\<close> over the arguments that follow the program's name.\<close>

fun parse_loop :: "(string \<Rightarrow> real) \<Rightarrow> string list \<Rightarrow> config \<Rightarrow> parse_error + config" where
  "parse_loop strtod [] c = Inr c"
| "parse_loop strtod (a # args) c =
     (if a \<in> set valued_options
      then (case args of
              [] \<Rightarrow> Inl Undefined
            | v # args \<Rightarrow>
                (case set_option a (strtod v) c of
                   None \<Rightarrow> Inl Undefined
                 | Some c \<Rightarrow> parse_loop strtod args c))
      else if a = ''--verbose'' then parse_loop strtod args (c\<lparr>cf_verbose := True\<rparr>)
      else Inl (Unknown_Arg a))"

definition parse :: "(string \<Rightarrow> real) \<Rightarrow> string list \<Rightarrow> parse_error + config" where
  "parse strtod args = parse_loop strtod args default_config"

section \<open>The loop over the seeds\<close>

text \<open>The counters of \<open>main\<close>, and the failed seeds it prints with their failures.\<close>

record totals =
  tt_passed :: "64 word"
  tt_failed :: "64 word"
  tt_run :: "64 word"
  tt_issued :: "64 word"
  tt_req :: "64 word"
  tt_drop :: "64 word"
  tt_dup :: "64 word"
  tt_worst_buf :: nat
  tt_worst_pending :: nat
  tt_worst_ack :: nat
  tt_reports :: "(64 word \<times> 64 word \<times> string list) list"

definition totals_new :: totals where
  "totals_new = \<lparr>tt_passed = 0, tt_failed = 0, tt_run = 0, tt_issued = 0, tt_req = 0, tt_drop = 0,
     tt_dup = 0, tt_worst_buf = 0, tt_worst_pending = 0, tt_worst_ack = 0, tt_reports = []\<rparr>"

definition count_run :: "64 word \<Rightarrow> run_stats \<Rightarrow> totals \<Rightarrow> totals" where
  "count_run seed st T =
     (let T = T\<lparr>tt_run := tt_run T + 1, tt_issued := tt_issued T + st_issued st,
                tt_req := tt_req T + (st_req_sent st + st_rsp_sent st),
                tt_drop := tt_drop T + (st_req_dropped st + st_rsp_dropped st),
                tt_dup := tt_dup T + (st_req_dup st + st_rsp_dup st),
                tt_worst_buf := max (tt_worst_buf T) (st_max_resp_buffer st),
                tt_worst_pending := max (tt_worst_pending T) (st_max_pending st),
                tt_worst_ack := max (tt_worst_ack T) (st_max_ack_new st)\<rparr>
      in if cr_ok (st_result st) then T\<lparr>tt_passed := tt_passed T + 1\<rparr>
         else T\<lparr>tt_failed := tt_failed T + 1,
                tt_reports := tt_reports T @ [(seed, st_issued st, cr_failures (st_result st))]\<rparr>)"

text \<open>\<open>n\<close> counts the turns; the code's \<open>k\<close> is its value modulo \<open>2 ^ 64\<close>.\<close>

definition out_of_seeds :: "config \<Rightarrow> (nat \<Rightarrow> real) \<Rightarrow> nat \<Rightarrow> bool" where
  "out_of_seeds cfg clock n \<longleftrightarrow>
     cf_minutes cfg \<le> 0 \<and> of_nat n \<ge> cf_seeds cfg \<or>
     cf_minutes cfg > 0 \<and> clock n \<ge> cf_minutes cfg * 60"

partial_function (option) seed_loop ::
    "(64 word \<Rightarrow> run_stats option) \<Rightarrow> config \<Rightarrow> (nat \<Rightarrow> real) \<Rightarrow> nat \<Rightarrow> totals \<Rightarrow> totals option" where
  "seed_loop R cfg clock n T =
     (if out_of_seeds cfg clock n then Some T
      else case R (cf_base_seed cfg + of_nat n) of
             None \<Rightarrow> None
           | Some st \<Rightarrow> seed_loop R cfg clock (Suc n) (count_run (cf_base_seed cfg + of_nat n) st T))"

text \<open>How the program ends: its exit status and its summary, or undefined behaviour.\<close>

datatype ending = Exit int "totals option" | Undefined_Behaviour

definition fuzz_main ::
    "(string \<Rightarrow> real) \<Rightarrow> (64 word \<Rightarrow> 'g) \<Rightarrow> (real \<Rightarrow> 'g rng) \<Rightarrow> (nat \<Rightarrow> real) \<Rightarrow> string list \<Rightarrow>
     ending option" where
  "fuzz_main strtod seeded G clock args =
     (case parse strtod args of
        Inl (Unknown_Arg a) \<Rightarrow> Some (Exit 2 None)
      | Inl Undefined \<Rightarrow> Some Undefined_Behaviour
      | Inr cfg \<Rightarrow>
          (case seed_loop (\<lambda>seed. run_one (G (cf_rate cfg)) cfg (seeded seed)) cfg clock 0 totals_new of
             None \<Rightarrow> None
           | Some T \<Rightarrow> Some (Exit (if tt_failed T = 0 then 0 else 1) (Some T))))"

section \<open>Options\<close>

lemma parse_loop_append:
  "parse_loop strtod as c = Inr d \<Longrightarrow> parse_loop strtod (as @ bs) c = parse_loop strtod bs d"
proof (induction strtod as c rule: parse_loop.induct)
  case (2 strtod a args c)
  then show ?case
    by (cases args) (auto split: if_splits option.splits)
qed simp

text \<open>Integers in range survive the casts.\<close>

lemma truncated_of_int [simp]: "truncated (of_int i) = i"
  by (simp add: truncated_def)

lemma cast_u64_word: "cast_u64 (of_int (uint w)) = Some w"
  using uint_bounded [of w] by (simp add: cast_u64_def word_of_int_uint del: of_int_uint)

section \<open>The verdict\<close>

text \<open>The totals after a list of seeds.\<close>

definition count_all :: "(64 word \<Rightarrow> run_stats option) \<Rightarrow> 64 word list \<Rightarrow> totals \<Rightarrow> totals" where
  "count_all R seeds T = fold (\<lambda>seed. count_run seed (the (R seed))) seeds T"

definition seed_list :: "config \<Rightarrow> nat \<Rightarrow> nat \<Rightarrow> 64 word list" where
  "seed_list cfg n m = map (\<lambda>k. cf_base_seed cfg + of_nat k) [n..<m]"

lemma seed_loop_returns:
  assumes "n \<le> m" and "out_of_seeds cfg clock m" and "\<And>k. n \<le> k \<Longrightarrow> k < m \<Longrightarrow> \<not> out_of_seeds cfg clock k"
    and "\<And>seed. R seed \<noteq> None"
  shows "seed_loop R cfg clock n T = Some (count_all R (seed_list cfg n m) T)"
  using assms(1,3)
proof (induction "m - n" arbitrary: n T)
  case 0
  then show ?case using assms(2) by (subst seed_loop.simps) (simp add: count_all_def seed_list_def)
next
  case (Suc x)
  let ?seed = "cf_base_seed cfg + of_nat n"
  have n: "n < m" "\<not> out_of_seeds cfg clock n" using Suc by auto
  obtain st where st: "R ?seed = Some st" using assms(4) [of ?seed] by blast
  have "seed_loop R cfg clock (Suc n) (count_run ?seed st T) =
      Some (count_all R (seed_list cfg (Suc n) m) (count_run ?seed st T))"
    using Suc n by (intro Suc.hyps) auto
  then show ?case
    using n st by (subst seed_loop.simps) (simp add: count_all_def seed_list_def upt_conv_Cons)
qed

definition failed_seeds :: "(64 word \<Rightarrow> run_stats option) \<Rightarrow> 64 word list \<Rightarrow> 64 word list" where
  "failed_seeds R seeds = filter (\<lambda>seed. \<not> cr_ok (st_result (the (R seed)))) seeds"

lemma count_all_facts:
  "tt_run (count_all R seeds T) = tt_run T + of_nat (length seeds)"
  "tt_failed (count_all R seeds T) = tt_failed T + of_nat (length (failed_seeds R seeds))"
  "tt_passed (count_all R seeds T) =
     tt_passed T + of_nat (length (filter (\<lambda>seed. cr_ok (st_result (the (R seed)))) seeds))"
  "map fst (tt_reports (count_all R seeds T)) = map fst (tt_reports T) @ failed_seeds R seeds"
  by (induction seeds arbitrary: T)
     (simp_all add: count_all_def count_run_def failed_seeds_def Let_def algebra_simps)

text \<open>
  When the loop ends: without a time budget after one run for every seed, with one at the
  first reading of the clock past the budget.
\<close>

lemma untimed_end:
  assumes "cf_minutes cfg \<le> 0"
  shows "out_of_seeds cfg clock (unat (cf_seeds cfg))"
    and "k < unat (cf_seeds cfg) \<Longrightarrow> \<not> out_of_seeds cfg clock k"
proof -
  show "out_of_seeds cfg clock (unat (cf_seeds cfg))" using assms by (simp add: out_of_seeds_def)
  assume k: "k < unat (cf_seeds cfg)"
  then have "k < 2 ^ 64" using unsigned_less [of "cf_seeds cfg", where ?'a = nat] by simp
  from unat_of_nat_64 [OF this] have "unat (of_nat k :: 64 word) = k" .
  then show "\<not> out_of_seeds cfg clock k"
    using assms k by (simp add: out_of_seeds_def word_le_nat_alt)
qed

lemma seed_loop_end:
  assumes "cf_minutes cfg \<le> 0 \<or> (\<exists>n. cf_minutes cfg * 60 \<le> clock n)"
  shows "\<exists>m. out_of_seeds cfg clock m \<and> (\<forall>k < m. \<not> out_of_seeds cfg clock k) \<and>
    (if cf_minutes cfg \<le> 0 then m = unat (cf_seeds cfg)
     else cf_minutes cfg * 60 \<le> clock m \<and> (\<forall>k < m. clock k < cf_minutes cfg * 60))"
proof (cases "cf_minutes cfg \<le> 0")
  case True
  then show ?thesis using untimed_end [OF True] by auto
next
  case False
  then obtain m where "cf_minutes cfg * 60 \<le> clock m" "\<forall>k < m. \<not> cf_minutes cfg * 60 \<le> clock k"
    using assms exists_least_iff [of "\<lambda>n. cf_minutes cfg * 60 \<le> clock n"] by blast
  then show ?thesis using False by (intro exI [of _ m]) (simp add: out_of_seeds_def not_le)
qed

lemma count_all_verdict:
  "tt_run (count_all R seeds totals_new) = of_nat (length seeds)"
  "tt_passed (count_all R seeds totals_new) + tt_failed (count_all R seeds totals_new) = of_nat (length seeds)"
  "map fst (tt_reports (count_all R seeds totals_new)) = filter (\<lambda>seed. \<not> cr_ok (st_result (the (R seed)))) seeds"
proof -
  show "tt_passed (count_all R seeds totals_new) + tt_failed (count_all R seeds totals_new) = of_nat (length seeds)"
    using sum_length_filter_compl [of "\<lambda>seed. cr_ok (st_result (the (R seed)))" seeds]
    by (simp add: count_all_facts totals_new_def failed_seeds_def flip: of_nat_add)
qed (simp_all add: count_all_facts totals_new_def failed_seeds_def)

lemma no_failures:
  assumes "length seeds < 2 ^ 64"
  shows "tt_failed (count_all R seeds totals_new) = 0 \<longleftrightarrow>
    (\<forall>seed \<in> set seeds. cr_ok (st_result (the (R seed))))"
proof -
  have "length (failed_seeds R seeds) < 2 ^ 64"
    using assms by (metis failed_seeds_def length_filter_le le_less_trans)
  from unat_of_nat_64 [OF this] have "(of_nat (length (failed_seeds R seeds)) :: 64 word) = 0 \<longleftrightarrow> failed_seeds R seeds = []"
    by (metis length_0_conv unat_eq_zero word_unat_eq_iff unat_0)
  then show ?thesis by (simp add: count_all_facts(2) totals_new_def) (simp add: failed_seeds_def filter_empty_conv)
qed

text \<open>The program returns with the totals of the seeds it ran.\<close>

lemma fuzz_main_counts:
  assumes "parse strtod args = Inr cfg" and "R = (\<lambda>seed. run_one (G (cf_rate cfg)) cfg (seeded seed))"
    and "\<And>seed. R seed \<noteq> None" and "out_of_seeds cfg clock m" and "\<And>k. k < m \<Longrightarrow> \<not> out_of_seeds cfg clock k"
  defines "T \<equiv> count_all R (seed_list cfg 0 m) totals_new"
  shows "fuzz_main strtod seeded G clock args = Some (Exit (if tt_failed T = 0 then 0 else 1) (Some T))"
proof -
  have "seed_loop R cfg clock 0 totals_new = Some T"
    using seed_loop_returns [of 0 m cfg clock R totals_new] assms(3-5) unfolding T_def by blast
  then show ?thesis using assms(1,2) by (simp add: fuzz_main_def)
qed

end
