(* ===== verification/Thread_Pool.thy ===== *)
theory Thread_Pool
  imports Winding_Down
begin

text \<open>
  The worker pool that runs the request callbacks, \<open>src/server/thread_pool_executor.h\<close>.

  The queue and the stop flag are shared under a mutex, so the steps are the sections that
  hold it, and the ends of the callbacks, which run outside it. A worker that waits on the
  condition variable can proceed exactly when the predicate of the wait holds. \<open>po_scheduled\<close>
  and \<open>po_started\<close> are history variables: the callbacks handed to \<open>Schedule\<close> and the
  callbacks taken out of the queue, each in order.
\<close>

datatype 'f worker = Waiting_Worker | Running 'f | Returned

record 'f pool =
  po_workers :: "'f worker list"
  po_queue :: "'f list"
  po_stop :: bool
  po_scheduled :: "'f list"
  po_started :: "'f list"

section \<open>Operations\<close>

definition pool_new :: "int \<Rightarrow> 'f pool" where
  "pool_new num_threads =
     \<lparr>po_workers = replicate (nat num_threads) Waiting_Worker, po_queue = [], po_stop = False,
      po_scheduled = [], po_started = []\<rparr>"

definition Schedule :: "'f \<Rightarrow> 'f pool \<Rightarrow> 'f pool" where
  "Schedule fn p = p\<lparr>po_queue := po_queue p @ [fn], po_scheduled := po_scheduled p @ [fn]\<rparr>"

text \<open>The destructor: the first part sets the flag, the rest returns when every worker has.\<close>

definition pool_stop :: "'f pool \<Rightarrow> 'f pool" where
  "pool_stop p = p\<lparr>po_stop := True\<rparr>"

definition pool_joined :: "'f pool \<Rightarrow> bool" where
  "pool_joined p \<longleftrightarrow> list_all (\<lambda>w. w = Returned) (po_workers p)"

text \<open>
  One turn of the loop of \<open>run\<close> under the lock, by worker \<open>i\<close>: \<open>None\<close> while it has to wait
  or is busy.
\<close>

definition worker_turn :: "nat \<Rightarrow> 'f pool \<Rightarrow> 'f pool option" where
  "worker_turn i p =
     (if i < length (po_workers p) \<and> po_workers p ! i = Waiting_Worker \<and> (po_stop p \<or> po_queue p \<noteq> [])
      then Some
        (if po_stop p \<and> po_queue p = [] then p\<lparr>po_workers := (po_workers p)[i := Returned]\<rparr>
         else p\<lparr>po_workers := (po_workers p)[i := Running (hd (po_queue p))],
                po_queue := tl (po_queue p), po_started := po_started p @ [hd (po_queue p)]\<rparr>)
      else None)"

text \<open>The callback of worker \<open>i\<close> returns.\<close>

definition worker_done :: "nat \<Rightarrow> 'f pool \<Rightarrow> 'f pool option" where
  "worker_done i p =
     (if i < length (po_workers p) \<and> (\<exists>fn. po_workers p ! i = Running fn)
      then Some (p\<lparr>po_workers := (po_workers p)[i := Waiting_Worker]\<rparr>) else None)"

inductive worker_step :: "'f pool \<Rightarrow> 'f pool \<Rightarrow> bool" where
  turn: "worker_turn i p = Some q \<Longrightarrow> worker_step p q"
| fn_returns: "worker_done i p = Some q \<Longrightarrow> worker_step p q"

text \<open>Nothing is scheduled once the destructor has started.\<close>

inductive pool_reachable :: "int \<Rightarrow> 'f pool \<Rightarrow> bool" for num_threads :: int where
  start: "pool_reachable num_threads (pool_new num_threads)"
| schedule: "pool_reachable num_threads p \<Longrightarrow> \<not> po_stop p \<Longrightarrow> pool_reachable num_threads (Schedule fn p)"
| stop: "pool_reachable num_threads p \<Longrightarrow> pool_reachable num_threads (pool_stop p)"
| work: "pool_reachable num_threads p \<Longrightarrow> worker_step p q \<Longrightarrow> pool_reachable num_threads q"

inductive_cases worker_step_cases: "worker_step p q"

section \<open>Callbacks start once, in order\<close>

definition pool_inv :: "int \<Rightarrow> 'f pool \<Rightarrow> bool" where
  "pool_inv num_threads p \<longleftrightarrow>
     po_scheduled p = po_started p @ po_queue p \<and> length (po_workers p) = nat num_threads \<and>
     (Returned \<in> set (po_workers p) \<longrightarrow> po_stop p \<and> po_queue p = [])"

lemma update_member: "x \<in> set (xs[i := y]) \<Longrightarrow> x = y \<or> x \<in> set xs"
  using set_update_subset_insert [of xs i y] by blast

lemma worker_step_inv:
  assumes "worker_step p q" and "pool_inv n p"
  shows "pool_inv n q"
  using assms(1)
proof cases
  case (turn i)
  then show ?thesis
    using assms(2)
    by (auto simp: worker_turn_def pool_inv_def split: if_splits dest!: update_member)
next
  case (fn_returns i)
  then show ?thesis
    using assms(2) by (auto simp: worker_done_def pool_inv_def split: if_splits dest!: update_member)
qed

lemma pool_inv_reachable: "pool_reachable n p \<Longrightarrow> pool_inv n p"
proof (induction rule: pool_reachable.induct)
  case (work p q)
  then show ?case using worker_step_inv by blast
qed (auto simp: pool_inv_def pool_new_def Schedule_def pool_stop_def)

section \<open>The pool shuts down\<close>

fun worker_weight :: "'f worker \<Rightarrow> nat" where
  "worker_weight (Running fn) = 2"
| "worker_weight Waiting_Worker = 1"
| "worker_weight Returned = 0"

definition pool_work :: "'f pool \<Rightarrow> nat" where
  "pool_work p = 2 * length (po_queue p) + sum_list (map worker_weight (po_workers p))"

text \<open>Every step of a worker is one less to do; so after the flag is set the workers finish.\<close>

lemma worker_step_work:
  assumes "worker_step p q"
  shows "pool_work q < pool_work p"
  using assms
proof cases
  case (turn i)
  then have i: "i < length (po_workers p)" "po_workers p ! i = Waiting_Worker" and c: "po_stop p \<or> po_queue p \<noteq> []"
    by (auto simp: worker_turn_def split: if_splits)
  show ?thesis
  proof (cases "po_stop p \<and> po_queue p = []")
    case True
    then show ?thesis
      using turn i total_weight_update [OF i(1), of worker_weight Returned] by (auto simp: worker_turn_def pool_work_def)
  next
    case False
    then obtain fn fs where "po_queue p = fn # fs" using c by (cases "po_queue p") auto
    then show ?thesis
      using turn i False total_weight_update [OF i(1), of worker_weight "Running fn"] by (auto simp: worker_turn_def pool_work_def)
  qed
next
  case (fn_returns i)
  then obtain fn where i: "i < length (po_workers p)" "po_workers p ! i = Running fn"
    by (auto simp: worker_done_def split: if_splits)
  then show ?thesis
    using fn_returns total_weight_update [OF i(1), of worker_weight Waiting_Worker] by (auto simp: worker_done_def pool_work_def)
qed

lemma worker_step_stop: "worker_step p q \<Longrightarrow> po_stop q = po_stop p \<and> po_scheduled q = po_scheduled p"
  by (erule worker_step_cases) (auto simp: worker_turn_def worker_done_def split: if_splits)

lemma pool_not_stuck:
  assumes "po_stop p" and "\<not> pool_joined p"
  shows "\<exists>q. worker_step p q"
proof -
  obtain i where i: "i < length (po_workers p)" "po_workers p ! i \<noteq> Returned"
    using assms(2) by (auto simp: pool_joined_def list_all_length)
  then show ?thesis
  proof (cases "po_workers p ! i")
    case Waiting_Worker
    then obtain q where "worker_turn i p = Some q" using i assms(1) by (simp add: worker_turn_def)
    then show ?thesis by (blast intro: worker_step.turn)
  next
    case (Running fn)
    then obtain q where "worker_done i p = Some q" using i by (auto simp: worker_done_def)
    then show ?thesis by (blast intro: worker_step.fn_returns)
  qed simp
qed

interpretation pool_end: winding_down worker_step po_stop pool_joined pool_work
  by unfold_locales (auto simp: worker_step_stop worker_step_work intro: pool_not_stuck)

text \<open>A joined pool has run everything that was scheduled.\<close>

lemma joined_ran_all:
  assumes "pool_reachable n p" and "pool_joined p" and "0 < n"
  shows "po_started p = po_scheduled p"
proof -
  have inv: "pool_inv n p" using assms(1) by (rule pool_inv_reachable)
  then have "po_workers p \<noteq> []" using assms(3) by (auto simp: pool_inv_def)
  then have "Returned \<in> set (po_workers p)" using assms(2) by (cases "po_workers p") (auto simp: pool_joined_def)
  then show ?thesis using inv by (simp add: pool_inv_def)
qed

end
