(* ===== verification/Harness_Drain.thy ===== *)
theory Harness_Drain
  imports Harness_Refinement
begin

text \<open>
  A run of the harness over links that lose nothing drains, and the cap on its drain loop is
  far more than it needs: four times the largest latency. A copy of every request reaches the
  server within the first latency, so everything is committed; a copy of every response
  reaches the client within the second; then the copies that are left in the two links are
  used up.

  Losing nothing means: the drop probability is zero, and the random generator's reals are
  not negative. Duplication, reordering and arrivals are left to the generator.
\<close>

definition lossless :: "'g rng \<Rightarrow> config \<Rightarrow> bool" where
  "lossless G cfg \<longleftrightarrow> cf_drop cfg \<le> 0 \<and> (\<forall>g. 0 \<le> fst (rng_uniform G g))"

definition latency :: "config \<Rightarrow> nat" where
  "latency cfg = nat (max 1 (cf_max_latency cfg))"

abbreviation entries :: "'m link \<Rightarrow> (64 word \<times> 'm) set" where
  "entries l \<equiv> set (lk_queue l)"

section \<open>A link that loses nothing\<close>

lemma schedule_time:
  assumes "lk_cfg l = link_cfg cfg" and "unat now + latency cfg < 2 ^ 64"
  shows "\<exists>a. fst (schedule G now m l g) = l\<lparr>lk_queue := mm_insert a m (lk_queue l)\<rparr> \<and>
    unat now < unat a \<and> unat a \<le> unat now + latency cfg"
proof -
  let ?span = "cf_max_latency cfg - 1"
  define extra where "extra = (if ?span > 0 then uint (fst (rng_next G g) mod of_int (?span + 1)) else 0)"
  have le: "0 \<le> extra \<and> nat extra + 1 \<le> latency cfg"
  proof (cases "?span > 0")
    case True
    let ?w = "of_int (?span + 1) :: 64 word"
    have lat: "latency cfg = nat (?span + 1)" using True by (simp add: latency_def max_def)
    then have "?span + 1 < 2 ^ 64" using assms(2) True by simp
    then have w: "uint ?w = ?span + 1" using True by (simp add: word_of_int_inverse)
    then have "extra < ?span + 1" "0 \<le> extra"
      using True by (simp_all add: extra_def uint_mod)
    then show ?thesis using lat by linarith
  next
    case False
    then show ?thesis by (simp add: extra_def latency_def)
  qed
  define a where "a = now + of_int 1 + of_int extra"
  have "a = of_nat (unat now + 1 + nat extra)" using le by (simp add: a_def of_nat_nat)
  moreover have "unat now + 1 + nat extra < 2 ^ 64" using le assms(2) by simp
  ultimately have "unat a = unat now + 1 + nat extra" using unat_of_nat_64 by metis
  moreover have "fst (schedule G now m l g) = l\<lparr>lk_queue := mm_insert a m (lk_queue l)\<rparr>"
    using assms(1) by (simp add: schedule_def Let_def case_prod_beta link_cfg_def a_def extra_def)
  ultimately show ?thesis using le by (intro exI [of _ a]) simp
qed

text \<open>Sending adds one or two copies of the message, due within the latency.\<close>

lemma link_send_lossless:
  fixes G :: "'g rng" and l :: "'m link" and m :: 'm and g :: 'g
  assumes "lossless G cfg" and "lk_cfg l = link_cfg cfg" and "unat now + latency cfg < 2 ^ 64"
  defines "l' \<equiv> fst (link_send G now m l g)"
  shows "lk_cfg l' = lk_cfg l" and "entries l \<subseteq> entries l'"
    and "\<exists>e \<in> entries l'. snd e = m \<and> unat (fst e) \<le> unat now + latency cfg"
    and "\<And>e. e \<in> entries l' \<Longrightarrow> e \<in> entries l \<or>
      snd e = m \<and> unat (fst e) \<le> unat now + latency cfg"
proof -
  let ?l = "l\<lparr>lk_sent := lk_sent l + 1\<rparr>" and ?b = "bernoulli G (p_drop (lk_cfg l)) g"
  have "\<not> fst ?b" using assms(1,2) by (auto simp: lossless_def bernoulli_def link_cfg_def case_prod_beta not_less intro: order_trans)
  moreover obtain a where a: "fst (schedule G now m ?l (snd ?b)) = ?l\<lparr>lk_queue := mm_insert a m (lk_queue l)\<rparr>"
    "unat a \<le> unat now + latency cfg"
    using schedule_time [of ?l cfg now G m "snd ?b"] assms(2,3) by auto
  define k where "k = ?l\<lparr>lk_queue := mm_insert a m (lk_queue l)\<rparr>"
  let ?k = "k\<lparr>lk_duplicated := lk_duplicated k + 1\<rparr>"
  have "\<exists>b. fst (schedule G now m ?k h) = ?k\<lparr>lk_queue := mm_insert b m (lk_queue k)\<rparr> \<and>
      unat b \<le> unat now + latency cfg" for h
    using schedule_time [of ?k cfg now G m h] assms(2,3) by (auto simp: k_def)
  ultimately have "l' = k \<or> (\<exists>b. l' = ?k\<lparr>lk_queue := mm_insert b m (lk_queue k)\<rparr> \<and>
      unat b \<le> unat now + latency cfg)"
    unfolding l'_def link_send_def Let_def by (simp add: case_prod_beta a(1) flip: k_def)
  then show "lk_cfg l' = lk_cfg l" and "entries l \<subseteq> entries l'"
    and "\<exists>e \<in> entries l'. snd e = m \<and> unat (fst e) \<le> unat now + latency cfg"
    and "\<And>e. e \<in> entries l' \<Longrightarrow> e \<in> entries l \<or>
      snd e = m \<and> unat (fst e) \<le> unat now + latency cfg"
    using a(2) by (auto simp: k_def mm_insert_set)
qed

lemma link_due_entries:
  assumes "link_ok l"
  shows "set (fst (link_due now l)) = snd ` {e \<in> entries l. unat (fst e) \<le> unat now}"
    and "entries (snd (link_due now l)) = {e \<in> entries l. unat now < unat (fst e)}"
    and "link_ok (snd (link_due now l))" and "lk_cfg (snd (link_due now l)) = lk_cfg l"
proof -
  note d = link_due_ok [OF assms, of now]
  show "set (fst (link_due now l)) = snd ` {e \<in> entries l. unat (fst e) \<le> unat now}"
    using d(1) by (auto simp: word_le_nat_alt)
  show "entries (snd (link_due now l)) = {e \<in> entries l. unat now < unat (fst e)}"
    using d(2) by (auto simp: word_less_nat_alt)
  show "link_ok (snd (link_due now l))" by (rule d(3))
  show "lk_cfg (snd (link_due now l)) = lk_cfg l" by (simp add: link_due_def Let_def)
qed

section \<open>What the server knows\<close>

definition known :: "'w server \<Rightarrow> seq set" where
  "known s = ids (n_committed s) \<union> um_keys (srv_pending_reqs s)"

definition nothing_next :: "'w server \<Rightarrow> bool" where
  "nothing_next s \<longleftrightarrow> um_find (srv_pending_reqs s) (srv_committed_upto s + 1) = None"

lemma known_world [simp]: "known (s\<lparr>srv_world := w\<rparr>) = known s" "nothing_next (s\<lparr>srv_world := w\<rparr>) = nothing_next s"
  by (simp_all add: known_def nothing_next_def)

lemma commit_loop_progress:
  fixes s :: "'w server" and app :: "'w app"
  assumes inv: "server_inv I s" and log: "log_ok I" "log_fits I" "log_hashes I"
  defines "t \<equiv> snd (commit_loop app s [])"
  shows "known s \<subseteq> known t" and "nothing_next t"
    and "\<And>q. q \<in> ids (n_committed t) - ids (n_committed s) \<Longrightarrow> \<exists>x \<in> set (fst (commit_loop app s [])). rsp_seq x = q"
proof -
  let ?P = "\<lambda>(t :: 'w server) (out :: response list). server_inv I t \<and> known s \<subseteq> known t \<and>
    (\<forall>q \<in> ids (n_committed t) - ids (n_committed s). \<exists>x \<in> set out. rsp_seq x = q)"
  have "?P (snd (commit_loop app s [])) (fst (commit_loop app s [])) \<and>
    um_find (srv_pending_reqs (snd (commit_loop app s [])))
      (srv_committed_upto (snd (commit_loop app s [])) + 1) = None"
  proof (rule commit_loop_rule [where P = ?P])
    show "?P s []" using inv by simp
    fix t out r
    assume P: "?P t out" and nxt: "um_find (srv_pending_reqs t) (srv_committed_upto t + 1) = Some r"
    then have t: "server_inv I t" by simp
    let ?t0 = "t\<lparr>srv_pending_reqs := um_erase (srv_committed_upto t + 1) (srv_pending_reqs t)\<rparr>"
    note f = commit_request_parts [of app r ?t0, folded commit_next_def]
    note np = next_pending [OF t log(1,2) nxt]
    have n: "n_committed (snd (commit_next app r t)) = Suc (n_committed t)" using f(4) np(4) by simp
    have new: "ids (Suc (n_committed t)) = insert (req_seq r) (ids (n_committed t))"
    proof -
      have "q = req_seq r \<longleftrightarrow> unat q = Suc (n_committed t)" for q using np(4) word64_eqI by metis
      then show ?thesis using np(4) by (auto simp: ids_def le_Suc_eq)
    qed
    have "known t \<subseteq> known (snd (commit_next app r t))"
      using np(3) by (auto simp: known_def n new f(8) umap.find_erase)
    moreover have "rsp_seq (fst (commit_next app r t)) = req_seq r"
      by (simp add: f(14) make_response_def Let_def split: option.split)
    ultimately show "?P (snd (commit_next app r t)) (out @ [fst (commit_next app r t)])"
      using P commit_next_inv(1) [OF t log nxt, of app] by (auto simp: n new)
  qed
  then show "known s \<subseteq> known t" and "nothing_next t"
    and "\<And>q. q \<in> ids (n_committed t) - ids (n_committed s) \<Longrightarrow> \<exists>x \<in> set (fst (commit_loop app s [])). rsp_seq x = q"
    unfolding t_def nothing_next_def by blast+
qed

lemma on_request_progress:
  fixes s :: "'w server" and app :: "'w app"
  assumes inv: "server_inv I s" and log: "log_ok I" "log_fits I" "log_hashes I" and r: "r \<in> set I"
    and no: "\<not> needs_recover r s" and aw: "srv_awaiting s = {}" and nn: "nothing_next s"
  defines "t \<equiv> snd (on_request app r s)"
  shows "known s \<subseteq> known t" and "req_seq r \<in> known t" and "nothing_next t"
    and "\<And>q. q \<in> ids (n_committed t) - ids (n_committed s) \<Longrightarrow> \<exists>x \<in> set (fst (on_request app r s)). rsp_seq x = q"
proof -
  have one: "1 \<le> unat (req_seq r)" using log_member_seq [OF log(1) r] by (simp add: ids_def)
  have "known s \<subseteq> known t \<and> req_seq r \<in> known t \<and> nothing_next t \<and>
    (\<forall>q \<in> ids (n_committed t) - ids (n_committed s). \<exists>x \<in> set (fst (on_request app r s)). rsp_seq x = q)"
  proof (cases rule: on_request_cases [of r s])
    case (resend p)
    then show ?thesis
      using nn one by (simp add: t_def on_request_resend known_def nothing_next_def ids_def word_le_nat_alt)
  next
    case no_op
    then show ?thesis
      using nn one by (simp add: t_def on_request_no_op known_def nothing_next_def ids_def word_le_nat_alt)
  next
    case new
    let ?s = "stage r (release_acked r s)"
    have "server_inv I ?s"
      using server_inv_stage [OF server_inv_release [OF inv] r] by (simp add: stage_def)
    note c = commit_loop_progress [OF this log, where app = app]
    have "known ?s = insert (req_seq r) (known s)" "n_committed ?s = n_committed s"
      by (auto simp: known_def stage_def umap.find_put)
    moreover have "known t = known (snd (commit_loop app ?s []))" "nothing_next t = nothing_next (snd (commit_loop app ?s []))"
      "n_committed t = n_committed (snd (commit_loop app ?s []))"
      using new by (simp_all add: t_def on_request_new known_def nothing_next_def)
    ultimately show ?thesis using c new by (auto simp: on_request_new)
  qed (use no aw in simp_all)
  then show "known s \<subseteq> known t" and "req_seq r \<in> known t" and "nothing_next t"
    and "\<And>q. q \<in> ids (n_committed t) - ids (n_committed s) \<Longrightarrow> \<exists>x \<in> set (fst (on_request app r s)). rsp_seq x = q"
    by blast+
qed

text \<open>A server that knows every request has committed every request.\<close>

lemma all_known_committed:
  assumes "server_inv I s" and "log_fits I" and "nothing_next s" and "ids (length I) \<subseteq> known s"
  shows "n_committed s = length I"
proof (rule ccontr)
  assume "n_committed s \<noteq> length I"
  then have lt: "n_committed s < length I" using server_invD(1) [OF assms(1)] by simp
  then have u: "unat (srv_committed_upto s + 1) = Suc (n_committed s)"
    using log_fits_length [OF assms(2)] unat_plus_one [of "srv_committed_upto s"] by simp
  then have "srv_committed_upto s + 1 \<in> known s" using assms(4) lt by (auto simp: ids_def)
  then show False using assms(3) u by (auto simp: known_def nothing_next_def ids_def)
qed

section \<open>The links of the harness\<close>

text \<open>Both links are in order, configured as the run says, and hold no message due after \<open>M\<close>.\<close>

definition links_ok :: "config \<Rightarrow> nat \<Rightarrow> 'g harness \<Rightarrow> bool" where
  "links_ok cfg M h \<longleftrightarrow> link_ok (hs_c2s h) \<and> link_ok (hs_s2c h) \<and>
     lk_cfg (hs_c2s h) = link_cfg cfg \<and> lk_cfg (hs_s2c h) = link_cfg cfg \<and>
     (\<forall>e \<in> entries (hs_c2s h). unat (fst e) \<le> M) \<and> (\<forall>e \<in> entries (hs_s2c h). unat (fst e) \<le> M)"

text \<open>Every issued request is known to the server or on its way to it, due by \<open>T\<close>.\<close>

definition carried :: "nat \<Rightarrow> 'g harness \<Rightarrow> bool" where
  "carried T h \<longleftrightarrow> (\<forall>q \<in> ids (unat (cli_next_seq (hs_client h)) - 1). q \<in> known (hs_server h) \<or>
     (\<exists>e \<in> entries (hs_c2s h). req_seq (snd e) = q \<and> unat (fst e) \<le> T))"

text \<open>Every committed request is answered or its response is on its way, due by \<open>T\<close>.\<close>

definition answered :: "nat \<Rightarrow> 'g harness \<Rightarrow> bool" where
  "answered T h \<longleftrightarrow> (\<forall>q \<in> ids (n_committed (hs_server h)). q \<in> cli_received (hs_client h) \<or>
     (\<exists>e \<in> entries (hs_s2c h). rsp_seq (snd e) = q \<and> unat (fst e) \<le> T))"

lemma carried_mono:
  assumes "carried T h" and "hs_client h' = hs_client h" and "known (hs_server h) \<subseteq> known (hs_server h')"
    and "entries (hs_c2s h) \<subseteq> entries (hs_c2s h')"
  shows "carried T h'"
  using assms(1,3,4) unfolding carried_def assms(2) by blast

lemma send_request_lossless:
  fixes h :: "'g harness" and r :: request
  assumes "lossless G cfg" and "links_ok cfg M h" and "unat (hs_now h) + latency cfg \<le> M" and "M < 2 ^ 64"
  defines "h' \<equiv> send_request G r h"
  shows "links_ok cfg M h'" and "entries (hs_c2s h) \<subseteq> entries (hs_c2s h')"
    and "\<exists>e \<in> entries (hs_c2s h'). snd e = r \<and> unat (fst e) \<le> M"
proof -
  have cfg: "lk_cfg (hs_c2s h) = link_cfg cfg" "unat (hs_now h) + latency cfg < 2 ^ 64"
    using assms(2-4) by (simp_all add: links_ok_def)
  note l = link_send_lossless [OF assms(1) cfg, where m = r and g = "hs_rng h"]
  have h': "hs_c2s h' = fst (link_send G (hs_now h) r (hs_c2s h) (hs_rng h))" "hs_s2c h' = hs_s2c h"
    by (simp_all add: h'_def send_request_def Let_def case_prod_beta)
  show "entries (hs_c2s h) \<subseteq> entries (hs_c2s h')" using l(2) by (simp add: h')
  show "\<exists>e \<in> entries (hs_c2s h'). snd e = r \<and> unat (fst e) \<le> M"
    using l(3) assms(3) order_trans unfolding h' by blast
  have "unat (fst e) \<le> M" if "e \<in> entries (hs_c2s h')" for e
    using l(4) [of e] that assms(2,3) by (auto simp: h' links_ok_def)
  moreover have "link_ok (hs_c2s h')" using assms(2) by (simp add: h' links_ok_def link_send_ok)
  ultimately show "links_ok cfg M h'" using assms(2) l(1) cfg(1) by (simp add: links_ok_def h')
qed

lemma send_responses_lossless:
  assumes "lossless G cfg" and "unat (hs_now h) + latency cfg \<le> M" and "M < 2 ^ 64" and "links_ok cfg M h"
  shows "links_ok cfg M (fold (send_response G) xs h) \<and>
    entries (hs_s2c h) \<subseteq> entries (hs_s2c (fold (send_response G) xs h)) \<and>
    (\<forall>x \<in> set xs. \<exists>e \<in> entries (hs_s2c (fold (send_response G) xs h)). snd e = x \<and> unat (fst e) \<le> M) \<and>
    hs_now (fold (send_response G) xs h) = hs_now h \<and> hs_c2s (fold (send_response G) xs h) = hs_c2s h"
  using assms(2-)
proof (induction xs arbitrary: h)
  case (Cons x xs)
  let ?h = "send_response G x h"
  have cfg: "lk_cfg (hs_s2c h) = link_cfg cfg" "unat (hs_now h) + latency cfg < 2 ^ 64"
    using Cons.prems by (simp_all add: links_ok_def)
  note l = link_send_lossless [OF assms(1) cfg, where m = x and g = "hs_rng h"]
  have h': "hs_s2c ?h = fst (link_send G (hs_now h) x (hs_s2c h) (hs_rng h))" "hs_c2s ?h = hs_c2s h" "hs_now ?h = hs_now h"
    by (simp_all add: send_response_def Let_def case_prod_beta)
  have "unat (fst e) \<le> M" if "e \<in> entries (hs_s2c ?h)" for e
    using l(4) [of e] that Cons.prems by (auto simp: h' links_ok_def)
  moreover have "link_ok (hs_s2c ?h)" using Cons.prems by (simp add: h' links_ok_def link_send_ok)
  ultimately have ok: "links_ok cfg M ?h" using Cons.prems l(1) cfg(1) by (simp add: links_ok_def h')
  have "\<exists>e \<in> entries (hs_s2c ?h). snd e = x \<and> unat (fst e) \<le> M"
    using l(3) Cons.prems(1) order_trans unfolding h' by blast
  moreover have "entries (hs_s2c h) \<subseteq> entries (hs_s2c ?h)" using l(2) by (simp add: h')
  ultimately show ?case using Cons.IH [of ?h] Cons.prems ok by (simp add: h') blast
qed simp

section \<open>The phases of a tick\<close>

text \<open>What holds in the middle of every tick.\<close>

definition healthy :: "config \<Rightarrow> nat \<Rightarrow> nat \<Rightarrow> 'g harness \<Rightarrow> bool" where
  "healthy cfg n M h \<longleftrightarrow> (\<exists>s. tracks False cfg n h s) \<and> nothing_next (hs_server h) \<and> links_ok cfg M h"

lemma healthyD:
  assumes "healthy cfg n M h" and "2 * n < 2 ^ 64"
  obtains s where "tracks False cfg n h s" "plain_sys s" "sys_fits s" "cl s = hs_client h" "sv s = hs_server h"
    "length (issued s) = unat (cli_next_seq (hs_client h)) - 1"
proof -
  obtain s where s: "tracks False cfg n h s" using assms(1) by (auto simp: healthy_def)
  have f: "sys_fits s" using s assms(2) by (rule tracks_fits)
  have p: "plain_sys s" using reachable_plain [of fuzz_app s] f s by (simp add: tracks_def)
  have "cl s = hs_client h" "sv s = hs_server h" using s by (simp_all add: tracks_def)
  moreover have "unat (cli_next_seq (cl s)) = length (issued s) + 1"
    using client_invD(2) [OF sys_invD(1) [OF plain_sysD(1) [OF p]]] .
  ultimately show ?thesis using that [OF s p f] by simp
qed

subsection \<open>Sending\<close>

lemma retransmit_lossless:
  assumes G: "lossless G cfg" and M: "unat (hs_now h) + latency cfg \<le> M" "M < 2 ^ 64"
    and "links_ok cfg M h" and "fold_option (retransmit_one G cfg) qs h = Some h'"
  shows "links_ok cfg M h' \<and> hs_now h' = hs_now h \<and> hs_server h' = hs_server h \<and> hs_client h' = hs_client h \<and>
    hs_s2c h' = hs_s2c h \<and> entries (hs_c2s h) \<subseteq> entries (hs_c2s h')"
  using assms(2-)
proof (induction qs arbitrary: h)
  case (Cons q qs)
  obtain g where g: "retransmit_one G cfg q h = Some g" "fold_option (retransmit_one G cfg) qs g = Some h'"
    using Cons.prems(4) by (auto split: option.splits)
  have "g = h \<or> (\<exists>r. g = send_request G r h)"
    using g(1) by (auto simp: retransmit_one_def Let_def split: option.splits if_splits)
  then have "links_ok cfg M g \<and> hs_now g = hs_now h \<and> hs_server g = hs_server h \<and> hs_client g = hs_client h \<and>
    hs_s2c g = hs_s2c h \<and> entries (hs_c2s h) \<subseteq> entries (hs_c2s g)"
    using Cons.prems(3) send_request_lossless [OF G Cons.prems(3,1,2)] by (auto simp: send_request_fields)
  then show ?case using Cons.IH [of g] Cons.prems g(2) by auto
qed simp

lemma generate_one_lossless:
  assumes G: "lossless G cfg" and M: "unat (hs_now h) + latency cfg \<le> M" "M < 2 ^ 64" and ok: "links_ok cfg M h"
    and car: "carried M h" and next_seq: "unat (cli_next_seq (hs_client h)) + 1 < 2 ^ 64" "1 \<le> unat (cli_next_seq (hs_client h))"
  shows "links_ok cfg M (generate_one G h)" and "carried M (generate_one G h)"
    and "hs_now (generate_one G h) = hs_now h" and "hs_server (generate_one G h) = hs_server h"
    and "hs_s2c (generate_one G h) = hs_s2c h"
    and "cli_received (hs_client (generate_one G h)) = cli_received (hs_client h)"
proof -
  obtain x g where x: "rng_next G (hs_rng h) = (x, g)" by fastforce
  let ?p = "''cli-ts='' @ to_string (hs_now h) @ '';n='' @ to_string (take_bit 16 x)"
  obtain r c where gen: "generate_request ?p (hs_client h) = (r, c)" by fastforce
  let ?h = "h\<lparr>hs_client := c, hs_rng := g\<rparr>" and ?q = "cli_next_seq (hs_client h)"
  have h: "generate_one G h = send_request G r ?h" using gen by (simp add: generate_one_def x)
  note f = generate_request_fields [OF gen]
  have okh: "links_ok cfg M ?h" using ok by (simp add: links_ok_def)
  note s = send_request_lossless [OF G okh, where r = r, unfolded h [symmetric]]
  show l: "links_ok cfg M (generate_one G h)" using s M by simp
  show "hs_now (generate_one G h) = hs_now h" "hs_server (generate_one G h) = hs_server h"
    "hs_s2c (generate_one G h) = hs_s2c h" by (simp_all add: h send_request_fields)
  show "cli_received (hs_client (generate_one G h)) = cli_received (hs_client h)"
    by (simp add: h send_request_fields f(14))
  have u: "unat (?q + 1) = unat ?q + 1" using next_seq(1) by (intro unat_plus_one) simp
  have sub: "entries (hs_c2s h) \<subseteq> entries (hs_c2s (generate_one G h))" using s(2) M by simp
  show "carried M (generate_one G h)"
    unfolding carried_def
  proof
    fix q assume "q \<in> ids (unat (cli_next_seq (hs_client (generate_one G h))) - 1)"
    then have "q \<in> ids (unat ?q - 1) \<or> unat q = unat ?q"
      using u by (auto simp: ids_def h send_request_fields f(6))
    then show "q \<in> known (hs_server (generate_one G h)) \<or>
      (\<exists>e \<in> entries (hs_c2s (generate_one G h)). req_seq (snd e) = q \<and> unat (fst e) \<le> M)"
    proof
      assume "q \<in> ids (unat ?q - 1)"
      then show ?thesis using car sub unfolding carried_def by (auto simp: h send_request_fields)
    next
      assume "unat q = unat ?q"
      then have "q = req_seq r" using f(1) word64_eqI by metis
      then show ?thesis using s(3) M by auto
    qed
  qed
qed

lemma generate_loop_lossless:
  assumes G: "lossless G cfg" and "unat (hs_now h) + latency cfg \<le> M" "M < 2 ^ 64" and "links_ok cfg M h"
    and "carried M h" and "1 \<le> unat (cli_next_seq (hs_client h))"
    and "unat (cli_next_seq (hs_client h)) + (unat (cf_parallel cfg) - out) < 2 ^ 64"
  shows "links_ok cfg M (generate_loop k out G cfg h) \<and> carried M (generate_loop k out G cfg h) \<and>
    hs_now (generate_loop k out G cfg h) = hs_now h \<and> hs_server (generate_loop k out G cfg h) = hs_server h \<and>
    hs_s2c (generate_loop k out G cfg h) = hs_s2c h \<and>
    cli_received (hs_client (generate_loop k out G cfg h)) = cli_received (hs_client h)"
  using assms
proof (induction k out G cfg h rule: generate_loop.induct)
  case (2 k out G cfg h)
  show ?case
  proof (cases "out < unat (cf_parallel cfg)")
    case True
    then have room: "unat (cli_next_seq (hs_client h)) + 1 < 2 ^ 64"
      using "2.prems"(7) by linarith
    note g = generate_one_lossless [OF "2.prems"(1-5) room "2.prems"(6)]
    have "hs_client (generate_one G h) = snd (generate_request
        (''cli-ts='' @ to_string (hs_now h) @ '';n='' @ to_string (take_bit 16 (fst (rng_next G (hs_rng h))))) (hs_client h))"
      by (simp add: generate_one_def case_prod_beta Let_def send_request_fields)
    then have "cli_next_seq (hs_client (generate_one G h)) = cli_next_seq (hs_client h) + 1"
      using generate_request_fields(6) by (metis prod.collapse)
    then have "unat (cli_next_seq (hs_client (generate_one G h))) = unat (cli_next_seq (hs_client h)) + 1"
      using room by (simp add: unat_plus_one)
    then show ?thesis using "2.IH" [OF True "2.prems"(1)] "2.prems" g True by simp
  qed (use "2.prems" in simp)
qed simp

subsection \<open>Delivering\<close>

lemma handle_request_lossless:
  assumes G: "lossless G cfg" and M: "unat (hs_now h) + latency cfg \<le> M" "M < 2 ^ 64" and ok: "links_ok cfg M h"
    and tr: "tracks False cfg n h s" and n: "2 * n < 2 ^ 64" and req: "r \<in> set (c2s s)"
    and nn: "nothing_next (hs_server h)"
  defines "h' \<equiv> handle_request G r h"
  shows "links_ok cfg M h'" and "nothing_next (hs_server h')" and "known (hs_server h) \<subseteq> known (hs_server h')"
    and "req_seq r \<in> known (hs_server h')" and "hs_client h' = hs_client h" and "hs_now h' = hs_now h"
    and "hs_c2s h' = hs_c2s h" and "entries (hs_s2c h) \<subseteq> entries (hs_s2c h')"
    and "\<And>q. q \<in> ids (n_committed (hs_server h')) - ids (n_committed (hs_server h)) \<Longrightarrow>
      \<exists>e \<in> entries (hs_s2c h'). rsp_seq (snd e) = q \<and> unat (fst e) \<le> M"
proof -
  let ?v = "(hs_server h)\<lparr>srv_world := hs_now h\<rparr>"
  have fits: "sys_fits s" using tr n by (rule tracks_fits)
  have fit: "log_fits (issued s)" using fits by (simp add: sys_fits_def)
  have reach: "reachable fuzz_app False s" and v: "sv s = hs_server h" using tr by (simp_all add: tracks_def)
  note P = plain_sysD [OF reachable_plain [OF reach fits]] note D = sys_invD [OF P(1)]
  have rI: "r \<in> set (issued s)" using req D(3) by blast
  have inv: "server_inv (issued s) ?v" using D(2) v by simp
  have no: "\<not> needs_recover r ?v"
    using plain_no_recover [OF P(4) D(7) rI D(5) D(2) fit] v by (simp add: needs_recover_def split: if_splits)
  have aw: "srv_awaiting ?v = {}" using plain_serverD(1) [OF P(4)] v by simp
  obtain out w where o: "on_request fuzz_app r ?v = (out, w)" by fastforce
  note pr = on_request_progress [OF inv D(5) fit D(6) rI no aw, where app = fuzz_app, unfolded o fst_conv snd_conv]
  have "\<not> is_recover out" using no_recover_signal [OF inv D(5) fit D(6) rI no, of fuzz_app] o by simp
  then have rl: "recover_loop 8 (hs_client h) r out w = (out, w)" by (rule recover_loop_done)
  let ?h = "h\<lparr>hs_server := w, hs_mismatches := hs_mismatches h +
      of_nat (length (srv_mismatches w) - length (srv_mismatches ?v))\<rparr>"
  have h': "h' = fold (send_response G) out ?h" using o rl by (simp add: h'_def handle_request_def Let_def)
  have okh: "links_ok cfg M ?h" "hs_now ?h = hs_now h" using ok by (simp_all add: links_ok_def)
  note s = send_responses_lossless [OF G _ M(2) okh(1), of out, folded h']
  have f: "hs_server (fold (send_response G) xs g) = hs_server g \<and> hs_client (fold (send_response G) xs g) = hs_client g"
    for xs and g :: "'a harness"
    by (induction xs arbitrary: g) (simp_all add: send_response_fields)
  have sv: "hs_server h' = w" "hs_client h' = hs_client h" using f [of out ?h] by (simp_all add: h')
  show "links_ok cfg M h'" "hs_now h' = hs_now h" "hs_c2s h' = hs_c2s h" "entries (hs_s2c h) \<subseteq> entries (hs_s2c h')"
    using s M(1) by simp_all
  show "hs_client h' = hs_client h" by (rule sv(2))
  show "nothing_next (hs_server h')" "known (hs_server h) \<subseteq> known (hs_server h')" "req_seq r \<in> known (hs_server h')"
    using pr(1-3) nn sv(1) by simp_all
  show "\<exists>e \<in> entries (hs_s2c h'). rsp_seq (snd e) = q \<and> unat (fst e) \<le> M"
    if q: "q \<in> ids (n_committed (hs_server h')) - ids (n_committed (hs_server h))" for q
  proof -
    obtain x where x: "x \<in> set out" "rsp_seq x = q" using pr(4) [of q] nn q sv(1) by auto
    then have "\<exists>e \<in> entries (hs_s2c h'). snd e = x \<and> unat (fst e) \<le> M" using s M(1) by simp
    then show ?thesis using x(2) by auto
  qed
qed

lemma handle_requests_lossless:
  assumes "lossless G cfg" and "unat (hs_now h) + latency cfg \<le> M" "M < 2 ^ 64" and "links_ok cfg M h"
    and "tracks False cfg n h s" and "2 * n < 2 ^ 64" and "set reqs \<subseteq> set (c2s s)"
    and "nothing_next (hs_server h)" and "h' = fold (handle_request G) reqs h"
  shows "links_ok cfg M h' \<and> nothing_next (hs_server h') \<and> known (hs_server h) \<subseteq> known (hs_server h') \<and>
    (\<forall>r \<in> set reqs. req_seq r \<in> known (hs_server h')) \<and> hs_client h' = hs_client h \<and> hs_now h' = hs_now h \<and>
    hs_c2s h' = hs_c2s h \<and> entries (hs_s2c h) \<subseteq> entries (hs_s2c h') \<and>
    (\<forall>q \<in> ids (n_committed (hs_server h')) - ids (n_committed (hs_server h)).
      \<exists>e \<in> entries (hs_s2c h'). rsp_seq (snd e) = q \<and> unat (fst e) \<le> M)"
  using assms(2-)
proof (induction reqs arbitrary: h s)
  case (Cons r reqs)
  let ?h = "handle_request G r h"
  have r: "r \<in> set (c2s s)" using Cons.prems(6) by simp
  obtain t where t: "tracks False cfg n ?h t" "set (c2s s) \<subseteq> set (c2s t)"
    using tracks_handle_request [OF Cons.prems(4,5) r] by blast
  note one = handle_request_lossless [OF assms(1) Cons.prems(1-5) r Cons.prems(7)]
  have "unat (hs_now ?h) + latency cfg \<le> M" "set reqs \<subseteq> set (c2s t)" "h' = fold (handle_request G) reqs ?h"
    using Cons.prems(1,6,8) one(6) t(2) by auto
  from Cons.IH [OF this(1) Cons.prems(2) one(1) t(1) Cons.prems(5) this(2) one(2) this(3)]
  show ?case using one(3-9) by simp blast
qed simp

lemma on_response_receives:
  assumes "on_response x c = Some (b, c')"
  shows "cli_received c' = insert (rsp_seq x) (cli_received c)" and "cli_next_seq c' = cli_next_seq c"
  using assms by (auto simp: on_response_def Let_def split: option.splits if_splits)

lemma handle_responses_receive:
  assumes "fold_option handle_response xs h = Some h'"
  shows "hs_server h' = hs_server h \<and> hs_c2s h' = hs_c2s h \<and> hs_s2c h' = hs_s2c h \<and> hs_now h' = hs_now h \<and>
    cli_received (hs_client h') = rsp_seq ` set xs \<union> cli_received (hs_client h) \<and>
    cli_next_seq (hs_client h') = cli_next_seq (hs_client h)"
  using assms
proof (induction xs arbitrary: h)
  case (Cons x xs)
  obtain g where g: "handle_response x h = Some g" "fold_option handle_response xs g = Some h'"
    using Cons.prems by (auto split: option.splits)
  obtain b c where c: "on_response x (hs_client h) = Some (b, c)" "hs_client g = c" "hs_server g = hs_server h"
    "hs_c2s g = hs_c2s h" "hs_s2c g = hs_s2c h" "hs_now g = hs_now h"
    using g(1) by (auto simp: handle_response_def split: option.splits)
  show ?case using Cons.IH [OF g(2)] on_response_receives [OF c(1)] c(2-) by auto
qed simp

subsection \<open>A whole tick\<close>

text \<open>What a tick without arrivals does to the messages that are due by \<open>T\<close>.\<close>

definition tick_effect :: "nat \<Rightarrow> 'g harness \<Rightarrow> 'g harness \<Rightarrow> bool" where
  "tick_effect M h h' \<longleftrightarrow> hs_now h' = hs_now h \<and> cli_next_seq (hs_client h') = cli_next_seq (hs_client h) \<and>
     cli_received (hs_client h) \<subseteq> cli_received (hs_client h') \<and> known (hs_server h) \<subseteq> known (hs_server h') \<and>
     (\<forall>T. carried T h \<longrightarrow> carried T h' \<and>
        (T \<le> unat (hs_now h) \<longrightarrow> ids (unat (cli_next_seq (hs_client h)) - 1) \<subseteq> known (hs_server h'))) \<and>
     (\<forall>T. answered T h \<longrightarrow>
        (M \<le> T \<or> ids (n_committed (hs_server h')) \<subseteq> ids (n_committed (hs_server h)) \<longrightarrow> answered T h') \<and>
        (T \<le> unat (hs_now h) \<longrightarrow> ids (n_committed (hs_server h)) \<subseteq> cli_received (hs_client h'))) \<and>
     (\<forall>e \<in> entries (hs_c2s h'). unat (hs_now h) < unat (fst e)) \<and>
     (\<forall>e \<in> entries (hs_s2c h'). unat (hs_now h) < unat (fst e)) \<and>
     (outstanding (hs_client h) = [] \<longrightarrow> entries (hs_c2s h') \<subseteq> entries (hs_c2s h)) \<and>
     (outstanding (hs_client h) = [] \<and> entries (hs_c2s h) = {} \<longrightarrow> entries (hs_s2c h') \<subseteq> entries (hs_s2c h))"

lemma tick_effectI:
  assumes now: "hs_now h' = hs_now h" and next_seq: "cli_next_seq (hs_client h') = cli_next_seq (hs_client h)"
    and c2: "entries (hs_c2s h) \<subseteq> C" "outstanding (hs_client h) = [] \<longrightarrow> C = entries (hs_c2s h)"
    and reqs: "set reqs = snd ` {e \<in> C. unat (fst e) \<le> unat (hs_now h)}"
    and c2s: "entries (hs_c2s h') = {e \<in> C. unat (hs_now h) < unat (fst e)}"
    and known: "known (hs_server h) \<subseteq> known (hs_server h')" "\<forall>r \<in> set reqs. req_seq r \<in> known (hs_server h')"
    and s2: "entries (hs_s2c h) \<subseteq> S" "reqs = [] \<longrightarrow> S = entries (hs_s2c h)"
    and new: "\<forall>q \<in> ids (n_committed (hs_server h')) - ids (n_committed (hs_server h)).
      \<exists>e \<in> S. rsp_seq (snd e) = q \<and> unat (fst e) \<le> M"
    and resps: "set resps = snd ` {e \<in> S. unat (fst e) \<le> unat (hs_now h)}"
    and s2c: "entries (hs_s2c h') = {e \<in> S. unat (hs_now h) < unat (fst e)}"
    and rec: "cli_received (hs_client h') = rsp_seq ` set resps \<union> cli_received (hs_client h)"
  shows "tick_effect M h h'"
proof -
  have arrives: "req_seq (snd e) \<in> known (hs_server h') \<or> e \<in> entries (hs_c2s h') \<and> unat (hs_now h) < unat (fst e)"
    if "e \<in> entries (hs_c2s h)" for e
  proof (cases "unat (fst e) \<le> unat (hs_now h)")
    case True
    then have "snd e \<in> set reqs" using that c2(1) reqs by blast
    then show ?thesis using known(2) by blast
  qed (use that c2(1) c2s in auto)
  have received: "rsp_seq (snd e) \<in> cli_received (hs_client h') \<or> e \<in> entries (hs_s2c h') \<and> unat (hs_now h) < unat (fst e)"
    if "e \<in> S" for e
  proof (cases "unat (fst e) \<le> unat (hs_now h)")
    case True
    then have "snd e \<in> set resps" using that resps by blast
    then show ?thesis using rec by blast
  qed (use that s2c in auto)
  have car: "carried T h' \<and> (T \<le> unat (hs_now h) \<longrightarrow> ids (unat (cli_next_seq (hs_client h)) - 1) \<subseteq> known (hs_server h'))"
    if "carried T h" for T
    using that arrives known(1) unfolding carried_def next_seq by fastforce
  have ans: "(M \<le> T \<or> ids (n_committed (hs_server h')) \<subseteq> ids (n_committed (hs_server h)) \<longrightarrow> answered T h') \<and>
      (T \<le> unat (hs_now h) \<longrightarrow> ids (n_committed (hs_server h)) \<subseteq> cli_received (hs_client h'))"
    if a: "answered T h" for T
  proof (intro conjI impI)
    have old: "q \<in> cli_received (hs_client h') \<or>
        (\<exists>e \<in> entries (hs_s2c h'). rsp_seq (snd e) = q \<and> unat (fst e) \<le> T \<and> unat (hs_now h) < unat (fst e))"
      if "q \<in> ids (n_committed (hs_server h))" for q
      using that a received s2(1) rec unfolding answered_def by fastforce
    then show "ids (n_committed (hs_server h)) \<subseteq> cli_received (hs_client h')" if "T \<le> unat (hs_now h)"
      using that by fastforce
    assume "M \<le> T \<or> ids (n_committed (hs_server h')) \<subseteq> ids (n_committed (hs_server h))"
    then have "q \<in> ids (n_committed (hs_server h)) \<or> (\<exists>e \<in> S. rsp_seq (snd e) = q \<and> unat (fst e) \<le> T)"
      if "q \<in> ids (n_committed (hs_server h'))" for q
      using that new by fastforce
    then show "answered T h'" using old received unfolding answered_def by fastforce
  qed
  have quiet: "entries (hs_c2s h) = {} \<Longrightarrow> outstanding (hs_client h) = [] \<Longrightarrow> reqs = []"
    using reqs c2(2) by auto
  have "cli_received (hs_client h) \<subseteq> cli_received (hs_client h')" by (simp add: rec)
  then show ?thesis
    unfolding tick_effect_def using now next_seq known(1) car ans c2s s2c c2(2) s2(2) quiet by blast
qed

lemma tick_lossless:
  assumes G: "lossless G cfg" and n: "2 * n < 2 ^ 64" and H: "healthy cfg n M h"
    and M: "unat (hs_now h) + latency cfg \<le> M" "M < 2 ^ 64"
  shows "\<exists>h'. harness_step G cfg False h = Some h' \<and> healthy cfg n M h' \<and> tick_effect M h h'"
proof -
  let ?now = "hs_now h" and ?qs = "outstanding (hs_client h)"
  obtain s1 where t1: "tracks False cfg n h s1" and nn: "nothing_next (hs_server h)" and ok: "links_ok cfg M h"
    using H by (auto simp: healthy_def)
  have "set ?qs \<subseteq> um_keys (cli_inflight (hs_client h))" by (simp add: outstanding_def dom_map_of_conv_image_fst)
  then obtain h2 s2 where h2: "fold_option (retransmit_one G cfg) ?qs h = Some h2" and t2: "tracks False cfg n h2 s2"
    using tracks_retransmit [OF t1] by blast
  note r = retransmit_lossless [OF G M ok h2]
  obtain reqs l where due: "link_due ?now (hs_c2s h2) = (reqs, l)" by fastforce
  let ?h2 = "h2\<lparr>hs_c2s := l\<rparr>"
  have ok2: "link_ok (hs_c2s h2)" using r by (simp add: links_ok_def)
  note d = link_due_entries [OF ok2, of ?now, unfolded due fst_conv snd_conv]
  have okl: "links_ok cfg M ?h2" using r d by (auto simp: links_ok_def)
  have "set reqs \<subseteq> link_msgs (hs_c2s h2)" "link_msgs l \<subseteq> link_msgs (hs_c2s h2)"
    using link_due_msgs [of ?now "hs_c2s h2"] due by simp_all
  then have tl: "tracks False cfg n ?h2 s2" and reqs: "set reqs \<subseteq> set (c2s s2)" using t2 by (auto simp: tracks_def)
  define h3 where "h3 = fold (handle_request G) reqs ?h2"
  obtain s3 where t3: "tracks False cfg n h3 s3" using tracks_handle_requests [OF tl n reqs] h3_def by blast
  have hr: "links_ok cfg M h3 \<and> nothing_next (hs_server h3) \<and> known (hs_server h) \<subseteq> known (hs_server h3) \<and>
    (\<forall>r \<in> set reqs. req_seq r \<in> known (hs_server h3)) \<and> hs_client h3 = hs_client h \<and> hs_now h3 = ?now \<and>
    hs_c2s h3 = l \<and> entries (hs_s2c h) \<subseteq> entries (hs_s2c h3) \<and>
    (\<forall>q \<in> ids (n_committed (hs_server h3)) - ids (n_committed (hs_server h)).
      \<exists>e \<in> entries (hs_s2c h3). rsp_seq (snd e) = q \<and> unat (fst e) \<le> M)"
    using handle_requests_lossless [OF G _ M(2) okl tl n reqs _ h3_def] r nn M(1) by simp
  obtain resps k where due2: "link_due ?now (hs_s2c h3) = (resps, k)" by fastforce
  let ?h3 = "h3\<lparr>hs_s2c := k\<rparr>"
  have ok3: "link_ok (hs_s2c h3)" using hr by (simp add: links_ok_def)
  note e = link_due_entries [OF ok3, of ?now, unfolded due2 fst_conv snd_conv]
  have "set resps \<subseteq> link_msgs (hs_s2c h3)" "link_msgs k \<subseteq> link_msgs (hs_s2c h3)"
    using link_due_msgs [of ?now "hs_s2c h3"] due2 by simp_all
  then have tk: "tracks False cfg n ?h3 s3" and resps: "set resps \<subseteq> set (s2c s3)" using t3 by (auto simp: tracks_def)
  obtain h4 s4 where h4: "fold_option handle_response resps ?h3 = Some h4" and t4: "tracks False cfg n h4 s4"
    using tracks_handle_responses [OF tk n resps] by blast
  note f = handle_responses_receive [OF h4]
  have step: "harness_step G cfg False h = Some h4"
    using h2 due due2 h4 r hr by (simp add: harness_step_def Let_def flip: h3_def)
  have "links_ok cfg M h4" using hr f e by (auto simp: links_ok_def)
  then have "healthy cfg n M h4" using t4 hr f by (auto simp: healthy_def)
  moreover have "tick_effect M h h4"
    by (rule tick_effectI [where C = "entries (hs_c2s h2)" and S = "entries (hs_s2c h3)" and reqs = reqs and resps = resps])
       (use r d e hr f h2 in \<open>auto simp: h3_def\<close>)
  ultimately show ?thesis using step by blast
qed

section \<open>The generating ticks\<close>

lemma healthy_mono: "healthy cfg n M h \<Longrightarrow> M \<le> M' \<Longrightarrow> healthy cfg n M' h"
  by (auto simp: healthy_def links_ok_def intro: order_trans)

lemma carried_later: "carried T h \<Longrightarrow> T \<le> T' \<Longrightarrow> carried T' h"
  unfolding carried_def using order_trans by blast

lemma answered_later: "answered T h \<Longrightarrow> T \<le> T' \<Longrightarrow> answered T' h"
  unfolding answered_def using order_trans by blast

lemma healthy_now [simp]:
  "healthy cfg n M (h\<lparr>hs_now := t\<rparr>) = healthy cfg n M h" "carried T (h\<lparr>hs_now := t\<rparr>) = carried T h"
  "answered T (h\<lparr>hs_now := t\<rparr>) = answered T h"
  "healthy cfg n M (h\<lparr>hs_now := t, hs_last_ckpt := c\<rparr>) = healthy cfg n M (h\<lparr>hs_last_ckpt := c\<rparr>)"
  by (simp_all add: healthy_def tracks_def links_ok_def carried_def answered_def)

text \<open>What holds at the beginning of every tick.\<close>

definition ready :: "config \<Rightarrow> nat \<Rightarrow> 'g harness \<Rightarrow> bool" where
  "ready cfg n h \<longleftrightarrow> healthy cfg n (unat (hs_now h) + latency cfg) h \<and>
     carried (unat (hs_now h) + latency cfg) h \<and> answered (unat (hs_now h) + latency cfg) h"

lemma link_new_fields [simp]: "lk_cfg (link_new c) = c" "lk_queue (link_new c) = []" "link_ok (link_new c)"
  by (simp_all add: link_new_def link_ok_def)

lemma no_ids [simp]: "ids 0 = {}"
  by (auto simp: ids_def)

lemma ready_start: "ready cfg 0 (harness_start cfg g)"
proof -
  have "\<exists>s. tracks False cfg 0 (harness_start cfg g) s" by (rule tracks_start)
  moreover have "links_ok cfg M (harness_start cfg g)" "nothing_next (hs_server (harness_start cfg g))"
    "carried M (harness_start cfg g)" "answered M (harness_start cfg g)" for M
    by (simp_all add: links_ok_def carried_def answered_def nothing_next_def harness_start_def Let_def server_new_def
        server_on_hash_mismatch_def client_new_def client_on_hash_mismatch_def)
  ultimately show ?thesis by (simp add: ready_def healthy_def)
qed

lemma ready_generate:
  assumes G: "lossless G cfg" and "ready cfg n h" and n: "2 * (n + unat (cf_parallel cfg)) < 2 ^ 64"
    and M: "unat (hs_now h) + latency cfg < 2 ^ 64"
  shows "ready cfg (n + unat (cf_parallel cfg)) (generate_phase G cfg h)" and "hs_now (generate_phase G cfg h) = hs_now h"
proof -
  let ?M = "unat (hs_now h) + latency cfg"
  have H: "healthy cfg n ?M h" and c: "carried ?M h" "answered ?M h" using assms(2) by (simp_all add: ready_def)
  obtain s where s: "tracks False cfg n h s" "plain_sys s" "cl s = hs_client h"
    using healthyD [OF H] n by auto
  have seq: "unat (cli_next_seq (hs_client h)) = length (issued s) + 1"
    using client_invD(2) [OF sys_invD(1) [OF plain_sysD(1) [OF s(2)]]] s(3) by simp
  have "length (issued s) \<le> n" using s(1) by (simp add: tracks_def)
  obtain want g where w: "rng_arrivals G (hs_rng h) = (want, g)" by fastforce
  let ?h = "h\<lparr>hs_rng := g\<rparr>"
  have "links_ok cfg ?M ?h" "carried ?M ?h" using H c(1) by (simp_all add: healthy_def links_ok_def carried_def)
  then have "links_ok cfg ?M (generate_phase G cfg h) \<and> carried ?M (generate_phase G cfg h) \<and>
    hs_now (generate_phase G cfg h) = hs_now h \<and> hs_server (generate_phase G cfg h) = hs_server h \<and>
    hs_s2c (generate_phase G cfg h) = hs_s2c h \<and>
    cli_received (hs_client (generate_phase G cfg h)) = cli_received (hs_client h)"
    using generate_loop_lossless [OF G, of ?h ?M "length (outstanding (hs_client h))" "nat want"]
      seq n M \<open>length (issued s) \<le> n\<close> by (simp add: generate_phase_def w)
  then show "ready cfg (n + unat (cf_parallel cfg)) (generate_phase G cfg h)"
    and "hs_now (generate_phase G cfg h) = hs_now h"
    using tracks_generate_phase [OF s(1) n, of G] H c(2) by (simp_all add: ready_def healthy_def answered_def)
qed

lemma ready_tick:
  assumes G: "lossless G cfg" and "ready cfg n h" and n: "2 * n < 2 ^ 64"
    and M: "unat (hs_now h) + latency cfg + 1 < 2 ^ 64"
  shows "\<exists>h'. harness_step G cfg False h = Some h' \<and> ready cfg n (h'\<lparr>hs_now := hs_now h' + 1\<rparr>) \<and>
    unat (hs_now h' + 1) = unat (hs_now h) + 1 \<and> hs_now h' = hs_now h"
proof -
  let ?M = "unat (hs_now h) + latency cfg"
  have H: "healthy cfg n ?M h" and c: "carried ?M h" "answered ?M h" using assms(2) by (simp_all add: ready_def)
  obtain h' where h': "harness_step G cfg False h = Some h'" "healthy cfg n ?M h'" "tick_effect ?M h h'"
    using tick_lossless [OF G n H order.refl] M by auto
  have t: "carried ?M h'" "answered ?M h'" "hs_now h' = hs_now h"
    using h'(3) c unfolding tick_effect_def by blast+
  have u: "unat (hs_now h' + 1) = unat (hs_now h) + 1" using M t(3) unat_plus_one [of "hs_now h"] by simp
  have "?M \<le> unat (hs_now h' + 1) + latency cfg" using u by simp
  then have "ready cfg n (h'\<lparr>hs_now := hs_now h' + 1\<rparr>)"
    using t h'(2) by (auto simp: ready_def intro: healthy_mono carried_later answered_later)
  then show ?thesis using h'(1) u t(3) by blast
qed

lemma ready_generation_body:
  assumes G: "lossless G cfg" and r: "ready cfg n h" and n: "2 * (n + unat (cf_parallel cfg)) < 2 ^ 64"
    and M: "unat (hs_now h) + latency cfg + 1 < 2 ^ 64" and f: "cf_failovers cfg = 0"
  shows "\<exists>h'. generation_body G cfg i h = Some h' \<and> ready cfg (n + unat (cf_parallel cfg)) h' \<and>
    unat (hs_now h') = unat (hs_now h) + 1"
proof -
  let ?n = "n + unat (cf_parallel cfg)" and ?g = "generate_phase G cfg h"
  have now: "unat (hs_now h) + latency cfg < 2 ^ 64" using M by simp
  note g = ready_generate [OF G r n now]
  have "unat (hs_now ?g) + latency cfg + 1 < 2 ^ 64" using g(2) M by simp
  from ready_tick [OF G g(1) n this] obtain h1 where h1: "harness_step G cfg False ?g = Some h1"
    "ready cfg ?n (h1\<lparr>hs_now := hs_now h1 + 1\<rparr>)" "unat (hs_now h1 + 1) = unat (hs_now h) + 1"
    using g(2) by auto
  define c where "c = (cf_ckpt_interval cfg \<noteq> 0 \<and> (of_nat i :: 64 word) mod cf_ckpt_interval cfg = 0)"
  define h2 where "h2 = (if c then h1\<lparr>hs_last_ckpt := server_checkpoint (hs_server h1)\<rparr> else h1)"
  have body: "generation_body G cfg i h = Some (h2\<lparr>hs_now := hs_now h2 + 1\<rparr>)"
    using h1(1) f by (simp add: generation_body_def harness_step_def Let_def h2_def c_def)
  have tr: "\<exists>t. tracks False cfg ?n (h2\<lparr>hs_now := hs_now h2 + 1\<rparr>) t"
  proof -
    obtain s where "tracks False cfg ?n h1 s"
      using h1(2) by (auto simp: ready_def healthy_def tracks_def)
    then have "tracks False cfg ?n (h2\<lparr>hs_now := hs_now h2 + 1\<rparr>) (s\<lparr>saved := server_checkpoint (sv s) # saved s\<rparr>)"
      using reachable.step [OF _ step.take_checkpoint, of fuzz_app False s] by (auto simp: tracks_def h2_def)
    then show ?thesis by blast
  qed
  have "hs_now h2 = hs_now h1" "hs_server h2 = hs_server h1" "hs_client h2 = hs_client h1"
    "hs_c2s h2 = hs_c2s h1" "hs_s2c h2 = hs_s2c h1" by (simp_all add: h2_def)
  moreover have "nothing_next (hs_server h1)" "links_ok cfg (unat (hs_now h1 + 1) + latency cfg) h1"
    "carried (unat (hs_now h1 + 1) + latency cfg) h1" "answered (unat (hs_now h1 + 1) + latency cfg) h1"
    using h1(2) by (simp_all add: ready_def healthy_def links_ok_def)
  ultimately have "ready cfg ?n (h2\<lparr>hs_now := hs_now h2 + 1\<rparr>)"
    using tr by (simp add: ready_def healthy_def links_ok_def carried_def answered_def)
  then show ?thesis using body h1(3) by (auto simp: h2_def)
qed

lemma ready_generation:
  assumes "lossless G cfg" and "cf_failovers cfg = 0" and "ready cfg n h"
    and "2 * (n + (length xs + 1) * unat (cf_parallel cfg)) < 2 ^ 64"
    and "unat (hs_now h) + length xs + latency cfg < 2 ^ 64"
  shows "\<exists>h'. fold_option (generation_body G cfg) xs h = Some h' \<and>
    ready cfg (n + length xs * unat (cf_parallel cfg)) h' \<and> unat (hs_now h') = unat (hs_now h) + length xs"
  using assms(3-)
proof (induction xs arbitrary: h n)
  case (Cons i xs)
  let ?P = "unat (cf_parallel cfg)"
  have "2 * (n + ?P) < 2 ^ 64" using Cons.prems(2) by simp
  moreover have "unat (hs_now h) + latency cfg + 1 < 2 ^ 64" using Cons.prems(3) by simp
  ultimately obtain h1 where h1: "generation_body G cfg i h = Some h1" "ready cfg (n + ?P) h1"
    "unat (hs_now h1) = unat (hs_now h) + 1"
    using ready_generation_body [OF assms(1) Cons.prems(1) _ _ assms(2)] by blast
  have "2 * ((n + ?P) + (length xs + 1) * ?P) < 2 ^ 64" using Cons.prems(2) by simp
  moreover have "unat (hs_now h1) + length xs + latency cfg < 2 ^ 64" using Cons.prems(3) h1(3) by simp
  ultimately obtain h2 where "fold_option (generation_body G cfg) xs h1 = Some h2"
    "ready cfg (n + ?P + length xs * ?P) h2" "unat (hs_now h2) = unat (hs_now h1) + length xs"
    using Cons.IH [OF h1(2)] by blast
  then show ?case using h1(1,3) by (simp add: add.assoc)
qed simp

section \<open>The drain loop\<close>

abbreviation issued_ids :: "'g harness \<Rightarrow> seq set" where
  "issued_ids h \<equiv> ids (unat (cli_next_seq (hs_client h)) - 1)"

text \<open>
  The four phases of the drain, each with the time \<open>T\<close> by which it ends: requests are on
  their way; everything is committed and responses are on their way; everything is answered
  and copies of requests are left; only copies of responses are left.
\<close>

fun phase :: "nat \<Rightarrow> nat \<Rightarrow> config \<Rightarrow> 'g harness \<Rightarrow> bool" where
  "phase 0 T cfg h = (carried T h \<and> answered (unat (hs_now h) + latency cfg) h)"
| "phase (Suc 0) T cfg h = (ids (n_committed (hs_server h)) = issued_ids h \<and> answered T h)"
| "phase (Suc (Suc 0)) T cfg h = (issued_ids h \<subseteq> cli_received (hs_client h) \<and>
     (\<forall>e \<in> entries (hs_c2s h). unat (fst e) \<le> T))"
| "phase (Suc (Suc (Suc j))) T cfg h = (issued_ids h \<subseteq> cli_received (hs_client h) \<and> entries (hs_c2s h) = {} \<and>
     (\<forall>e \<in> entries (hs_s2c h). unat (fst e) \<le> T))"

lemma healthy_facts:
  assumes "healthy cfg n M h" and "2 * n < 2 ^ 64"
  shows "ids (n_committed (hs_server h)) \<subseteq> issued_ids h"
    and "issued_ids h \<subseteq> known (hs_server h) \<Longrightarrow> ids (n_committed (hs_server h)) = issued_ids h"
    and "issued_ids h \<subseteq> cli_received (hs_client h) \<Longrightarrow> outstanding (hs_client h) = []"
proof -
  obtain s where s: "plain_sys s" "sys_fits s" "cl s = hs_client h" "sv s = hs_server h"
    "length (issued s) = unat (cli_next_seq (hs_client h)) - 1"
    using healthyD [OF assms] by blast
  note D = sys_invD [OF plain_sysD(1) [OF s(1)]]
  have nn: "nothing_next (hs_server h)" using assms(1) by (simp add: healthy_def)
  show "ids (n_committed (hs_server h)) \<subseteq> issued_ids h"
    using server_invD(1) [OF D(2)] s(4,5) by (auto simp: ids_def)
  show "ids (n_committed (hs_server h)) = issued_ids h" if "issued_ids h \<subseteq> known (hs_server h)"
    using all_known_committed [OF D(2), unfolded s(4)] s(2,5) nn that by (simp add: sys_fits_def)
  show "outstanding (hs_client h) = []" if "issued_ids h \<subseteq> cli_received (hs_client h)"
  proof -
    have "um_keys (cli_inflight (hs_client h)) = {}"
      using client_inflight_keys [OF D(1)] s(3,5) that by auto
    then show ?thesis by (cases "cli_inflight (hs_client h)") (auto simp: outstanding_def)
  qed
qed

lemma drained_entries:
  "outstanding (hs_client h) = [] \<Longrightarrow> entries (hs_c2s h) = {} \<Longrightarrow> entries (hs_s2c h) = {} \<Longrightarrow> run_drained h"
  by (simp add: run_drained_def link_empty_def)

text \<open>A tick at or after \<open>T\<close> ends the phase; an earlier one keeps it.\<close>

lemma phase_tick:
  assumes n: "2 * n < 2 ^ 64" and H: "healthy cfg n M h" "healthy cfg n M h'"
    and M: "M = unat (hs_now h) + latency cfg" and t: "tick_effect M h h'" and p: "phase j T cfg h" and j: "j < 4"
  shows "unat (hs_now h) < T \<Longrightarrow> phase j T cfg h'"
    and "T \<le> unat (hs_now h) \<Longrightarrow> (if j = 3 then run_drained h' else phase (Suc j) M cfg h')"
proof -
  note F = healthy_facts [OF H(1) n] and F' = healthy_facts [OF H(2) n]
  have ok: "\<forall>e \<in> entries (hs_c2s h'). unat (fst e) \<le> M" "\<forall>e \<in> entries (hs_s2c h'). unat (fst e) \<le> M"
    using H(2) by (simp_all add: healthy_def links_ok_def)
  have same: "hs_now h' = hs_now h" "issued_ids h' = issued_ids h" "cli_received (hs_client h) \<subseteq> cli_received (hs_client h')"
    "\<forall>e \<in> entries (hs_c2s h'). unat (hs_now h) < unat (fst e)" "\<forall>e \<in> entries (hs_s2c h'). unat (hs_now h) < unat (fst e)"
    using t unfolding tick_effect_def by simp_all
  have c: "carried T h \<Longrightarrow> carried T h' \<and> (T \<le> unat (hs_now h) \<longrightarrow> issued_ids h \<subseteq> known (hs_server h'))" for T
    using t unfolding tick_effect_def by blast
  have a: "answered T h \<Longrightarrow> (M \<le> T \<or> ids (n_committed (hs_server h')) \<subseteq> ids (n_committed (hs_server h)) \<longrightarrow> answered T h') \<and>
      (T \<le> unat (hs_now h) \<longrightarrow> ids (n_committed (hs_server h)) \<subseteq> cli_received (hs_client h'))" for T
    using t unfolding tick_effect_def by blast
  have k: "known (hs_server h) \<subseteq> known (hs_server h')" using t unfolding tick_effect_def by blast
  have o: "outstanding (hs_client h) = [] \<Longrightarrow> entries (hs_c2s h') \<subseteq> entries (hs_c2s h) \<and>
      (entries (hs_c2s h) = {} \<longrightarrow> entries (hs_s2c h') \<subseteq> entries (hs_s2c h))"
    using t unfolding tick_effect_def by blast
  consider "j = 0" | "j = 1" | "j = 2" | "j = 3" using j by linarith
  then have "(unat (hs_now h) < T \<longrightarrow> phase j T cfg h') \<and>
    (T \<le> unat (hs_now h) \<longrightarrow> (if j = 3 then run_drained h' else phase (Suc j) M cfg h'))"
  proof cases
    case 1
    then have ca: "carried T h" "answered M h" using p M by simp_all
    then show ?thesis using c [OF ca(1)] a [OF ca(2)] F'(2) same 1 M by simp
  next
    case 2
    then have ca: "ids (n_committed (hs_server h)) = issued_ids h" "answered T h" using p by simp_all
    have "ids (n_committed (hs_server h')) = issued_ids h'"
      using F'(2) same(2) k ca(1) by (auto simp: known_def)
    then show ?thesis using a [OF ca(2)] ca(1) same ok 2 by (simp add: numeral_2_eq_2)
  next
    case 3
    then have ca: "issued_ids h \<subseteq> cli_received (hs_client h)" "\<forall>e \<in> entries (hs_c2s h). unat (fst e) \<le> T"
      using p by (simp_all add: numeral_2_eq_2)
    have sub: "entries (hs_c2s h') \<subseteq> entries (hs_c2s h)" using o F(3) ca(1) by blast
    then have "unat (hs_now h) < T" if "e \<in> entries (hs_c2s h')" for e using that ca(2) same(4) order_less_le_trans by blast
    then have "T \<le> unat (hs_now h) \<longrightarrow> entries (hs_c2s h') = {}" by (meson equals0I not_less)
    then show ?thesis using ca sub same ok 3 by (auto simp: numeral_2_eq_2)
  next
    case 4
    then have ca: "issued_ids h \<subseteq> cli_received (hs_client h)" "entries (hs_c2s h) = {}" "\<forall>e \<in> entries (hs_s2c h). unat (fst e) \<le> T"
      using p by (simp_all add: numeral_3_eq_3)
    have sub: "entries (hs_c2s h') = {}" "entries (hs_s2c h') \<subseteq> entries (hs_s2c h)"
      using o [OF F(3) [OF ca(1)]] ca(2) by simp_all
    have "unat (hs_now h) < T" if "e \<in> entries (hs_s2c h')" for e using that sub(2) ca(3) same(5) order_less_le_trans by blast
    then have "T \<le> unat (hs_now h) \<longrightarrow> entries (hs_s2c h') = {}" by (meson equals0I not_less)
    moreover have "outstanding (hs_client h') = []" using F'(3) ca(1) same(2,3) by auto
    ultimately show ?thesis using ca sub same 4 drained_entries [of h'] by (auto simp: numeral_3_eq_3)
  qed
  then show "unat (hs_now h) < T \<Longrightarrow> phase j T cfg h'"
    and "T \<le> unat (hs_now h) \<Longrightarrow> (if j = 3 then run_drained h' else phase (Suc j) M cfg h')" by blast+
qed

lemma phase_clock [simp]:
  "j < 4 \<Longrightarrow> j \<noteq> 0 \<Longrightarrow> phase j T cfg (h\<lparr>hs_now := t\<rparr>) = phase j T cfg h"
  "phase 0 T cfg h \<Longrightarrow> unat (hs_now h) \<le> unat t \<Longrightarrow> phase 0 T cfg (h\<lparr>hs_now := t\<rparr>)"
proof -
  assume "j < 4" "j \<noteq> 0"
  then have "j = Suc 0 \<or> j = Suc (Suc 0) \<or> j = Suc (Suc (Suc 0))" by linarith
  then show "phase j T cfg (h\<lparr>hs_now := t\<rparr>) = phase j T cfg h" by auto
qed (auto intro: answered_later)

lemma drain_loop_done: "run_drained h \<Longrightarrow> drain_loop k G cfg h = Some h"
  by (cases k) simp_all

lemma drain_loop_mono:
  assumes "drain_loop k G cfg h = Some h'" and "run_drained h'" and "k \<le> m"
  shows "drain_loop m G cfg h = Some h'"
  using assms
proof (induction k arbitrary: h m)
  case 0
  then show ?case by (simp add: drain_loop_done)
next
  case (Suc k)
  then obtain l where "m = Suc l" by (cases m) auto
  then show ?case using Suc by (auto split: option.splits if_splits)
qed

text \<open>
  The loop needs at most one tick for every unit of time up to \<open>T\<close>, and as many again as
  the largest latency, and one, for each phase after that.
\<close>

lemma drain_loop_drains:
  assumes G: "lossless G cfg" and n: "2 * n < 2 ^ 64"
    and "healthy cfg n (unat (hs_now h) + latency cfg) h" and "phase j T cfg h" and "j < 4"
    and "(T + 1 - unat (hs_now h)) + (3 - j) * (latency cfg + 1) \<le> k"
    and "unat (hs_now h) \<le> T" and "T \<le> unat (hs_now h) + latency cfg"
    and "unat (hs_now h) + k + latency cfg + 1 < 2 ^ 64"
  shows "\<exists>h'. drain_loop k G cfg h = Some h' \<and> run_drained h'"
  using assms(3-)
proof (induction k arbitrary: h j T)
  case 0
  then have False by linarith
  then show ?case ..
next
  case (Suc k)
  show ?case
  proof (cases "run_drained h")
    case False
    let ?M = "unat (hs_now h) + latency cfg"
    obtain h1 where h1: "harness_step G cfg False h = Some h1" "healthy cfg n ?M h1" "tick_effect ?M h h1"
      using tick_lossless [OF G n Suc.prems(1) order.refl] Suc.prems(7) by auto
    have now: "hs_now h1 = hs_now h" using h1(3) by (simp add: tick_effect_def)
    let ?h = "h1\<lparr>hs_now := hs_now h1 + 1\<rparr>"
    have u: "unat (hs_now ?h) = unat (hs_now h) + 1" using now Suc.prems(7) unat_plus_one [of "hs_now h"] by simp
    have lat: "1 \<le> latency cfg" by (simp add: latency_def)
    have H: "healthy cfg n (unat (hs_now ?h) + latency cfg) ?h" using h1(2) u by (auto intro: healthy_mono)
    have clock: "phase i U cfg ?h" if "phase i U cfg h1" "i < 4" for i U
    proof (cases "i = 0")
      case True
      then show ?thesis using that(1) phase_clock(2) [of U cfg h1 "hs_now h1 + 1"] now u by simp
    next
      case False
      then show ?thesis using phase_clock(1) [OF that(2) False] that(1) by blast
    qed
    note tick = phase_tick [OF n Suc.prems(1) h1(2) refl h1(3) Suc.prems(2,3)]
    have loop: "drain_loop (Suc k) G cfg h = drain_loop k G cfg ?h" using False h1(1) by simp
    consider "unat (hs_now h) < T" | "T \<le> unat (hs_now h)" "j = 3" | "T \<le> unat (hs_now h)" "j \<noteq> 3" by linarith
    then show ?thesis
    proof cases
      case 1
      have "\<exists>h'. drain_loop k G cfg ?h = Some h' \<and> run_drained h'"
        by (rule Suc.IH [OF H clock [OF tick(1) [OF 1] Suc.prems(3)] Suc.prems(3)]) (use 1 u Suc.prems(4-7) lat in linarith)+
      then show ?thesis unfolding loop .
    next
      case 2
      have "run_drained h1" using tick(2) [OF 2(1)] 2(2) by simp
      then have "run_drained ?h" by (simp add: run_drained_def)
      then show ?thesis unfolding loop by (simp add: drain_loop_done)
    next
      case 3
      have j: "Suc j < 4" using 3(2) Suc.prems(3) by linarith
      have p: "phase (Suc j) ?M cfg h1" using tick(2) [OF 3(1)] 3(2) by simp
      have "3 - j = Suc (3 - Suc j)" using j by linarith
      then have "(3 - j) * (latency cfg + 1) = (3 - Suc j) * (latency cfg + 1) + (latency cfg + 1)" by simp
      then have "\<exists>h'. drain_loop k G cfg ?h = Some h' \<and> run_drained h'"
        by (intro Suc.IH [OF H clock [OF p j] j]) (use 3 u Suc.prems(4-7) lat in linarith)+
      then show ?thesis unfolding loop .
    qed
  qed simp
qed

section \<open>A run\<close>

text \<open>The configurations whose largest latency the cap of the drain loop is enough for.\<close>

definition cap_fits :: "config \<Rightarrow> bool" where
  "cap_fits cfg \<longleftrightarrow> unat (cf_gen_steps cfg) * 50 + 100000 < 2 ^ 64 \<and> cf_max_latency cfg \<le> 20000"

lemma lossless_drains:
  assumes G: "lossless G cfg" and fits: "config_fits cfg" "cap_fits cfg" and f: "cf_failovers cfg = 0"
  shows "\<exists>h. run_conversation G cfg g = Some h \<and> run_drained h"
proof -
  let ?S = "unat (cf_gen_steps cfg)" and ?n = "unat (cf_gen_steps cfg) * unat (cf_parallel cfg)"
  let ?cap = "unat (cf_gen_steps cfg * 50 + 100000)"
  have lat: "latency cfg \<le> 20000" using fits(2) by (auto simp: cap_fits_def latency_def max_def)
  have S: "?S * 50 + 100000 < 2 ^ 64" using fits(2) by (simp add: cap_fits_def)
  have "cf_gen_steps cfg * 50 + 100000 = of_nat (?S * 50 + 100000)" by simp
  then have cap: "?cap = ?S * 50 + 100000" using unat_of_nat_64 [OF S] by simp
  have "2 * (0 + (length [0..<?S] + 1) * unat (cf_parallel cfg)) < 2 ^ 64"
    using fits(1) by (simp add: config_fits_def)
  moreover have start: "hs_now (harness_start cfg g) = 0" by (simp add: harness_start_def Let_def)
  moreover have "unat (hs_now (harness_start cfg g)) + length [0..<?S] + latency cfg < 2 ^ 64"
    using start lat S by simp
  ultimately obtain h where h: "fold_option (generation_body G cfg) [0..<?S] (harness_start cfg g) = Some h"
    "ready cfg ?n h" "unat (hs_now h) = ?S"
    using ready_generation [OF G f ready_start, of "[0..<?S]" g] by auto
  have n: "2 * ?n < 2 ^ 64" using fits(1) by (simp add: config_fits_def)
  have H: "healthy cfg ?n (unat (hs_now h) + latency cfg) h" using h(2) by (simp add: ready_def)
  have p: "phase 0 (?S + latency cfg) cfg h" using h(2,3) by (simp add: ready_def)
  have need: "(?S + latency cfg + 1 - unat (hs_now h)) + (3 - 0) * (latency cfg + 1) \<le> 100000" using h(3) lat by simp
  obtain h' where "drain_loop 100000 G cfg h = Some h'" "run_drained h'"
    using drain_loop_drains [OF G n H p _ need] h(3) lat S by auto
  then have "drain_loop ?cap G cfg h = Some h'" using drain_loop_mono cap by (metis le_add2)
  then show ?thesis using h(1) \<open>run_drained h'\<close> by (simp add: run_conversation_def)
qed

end
