(* ===== verification/Failover_Alarm.thy ===== *)
theory Failover_Alarm
  imports Demo_Run
begin

text \<open>
  A run of the harness with one failover after the last request has been answered. No message
  is lost and nothing is wrong with the protocol, but no request is left that would make the
  replacement server ask for a recovery, so the run ends with a server that is behind the
  client, and the checker reports it.
\<close>

definition one_failover :: config where
  "one_failover = one_tick\<lparr>cf_gen_steps := 4, cf_failovers := 1\<rparr>"

text \<open>One arrival in the first tick, none later; no copy is dropped or duplicated.\<close>

definition single_rng :: "nat rng" where
  "single_rng = \<lparr>rng_next = \<lambda>g. (0, g), rng_uniform = \<lambda>g. (1, g),
     rng_arrivals = \<lambda>g. (if g = 0 then 1 else 0, Suc g)\<rparr>"

definition alarm0 :: "nat harness" where
  "alarm0 = harness_start one_failover 0"

definition alarm1 :: "nat harness" where
  "alarm1 = alarm0\<lparr>hs_client := tick_client,
     hs_c2s := (link_new (link_cfg one_failover))\<lparr>lk_queue := [(1, tick_request)], lk_sent := 1\<rparr>,
     hs_last_send := [(1, 0)], hs_last_ckpt := server_checkpoint (hs_server alarm0), hs_now := 1, hs_rng := 1\<rparr>"

definition alarm2 :: "nat harness" where
  "alarm2 = alarm1\<lparr>hs_server := tick_server,
     hs_c2s := (link_new (link_cfg one_failover))\<lparr>lk_sent := 1, lk_delivered := 1\<rparr>,
     hs_s2c := (link_new (link_cfg one_failover))\<lparr>lk_queue := [(2, tick_response)], lk_sent := 1\<rparr>,
     hs_now := 2, hs_rng := 2\<rparr>"

definition alarm3 :: "nat harness" where
  "alarm3 = alarm2\<lparr>hs_client := tick_done,
     hs_server := server_on_hash_mismatch (server_restore (server_checkpoint (hs_server alarm0)) True 2),
     hs_s2c := (link_new (link_cfg one_failover))\<lparr>lk_sent := 1, lk_delivered := 1\<rparr>,
     hs_failovers_done := 1, hs_now := 3, hs_rng := 3\<rparr>"

definition alarm4 :: "nat harness" where
  "alarm4 = alarm3\<lparr>hs_now := 4, hs_rng := 4\<rparr>"

lemmas eval_alarm = eval_harness single_rng_def one_failover_def failover_step_def generate_loop.simps

lemma alarm_start:
  "hs_client alarm0 = hs_client tick_start" "hs_server alarm0 = hs_server tick_start"
  "hs_c2s alarm0 = link_new (link_cfg one_failover)" "hs_s2c alarm0 = link_new (link_cfg one_failover)"
  "hs_now alarm0 = 0" "hs_last_send alarm0 = []" "hs_mismatches alarm0 = 0" "hs_failovers_done alarm0 = 0"
  "hs_rng alarm0 = 0" "outstanding (hs_client alarm0) = []"
  by (simp_all add: alarm0_def tick_start_def harness_start_def Let_def outstanding_def client_new_def
      client_on_hash_mismatch_def)

lemma alarm_step0: "generation_body single_rng one_failover 0 alarm0 = Some alarm1"
  using tick_generate
  by (simp add: eval_alarm alarm_start tick_start_fields tick_client_value tick_payload_def alarm1_def)

lemma alarm_step1: "generation_body single_rng one_failover 1 alarm1 = Some alarm2"
  using tick_on_request recover_loop_done [of "[tick_response]" 8 tick_client tick_request tick_server]
  by (simp add: eval_alarm alarm_start tick_start_fields tick_client_value alarm1_def alarm2_def is_recover_def six_ticks)

lemma alarm_step2: "generation_body single_rng one_failover 2 alarm2 = Some alarm3"
  using tick_on_response
  by (simp add: eval_alarm alarm_start tick_start_fields tick_client_value alarm1_def alarm2_def alarm3_def do_failover_def)

lemma alarm_step3: "generation_body single_rng one_failover 3 alarm3 = Some alarm4"
  using tick_on_response
  by (simp add: eval_alarm alarm_start tick_start_fields alarm1_def alarm2_def alarm3_def alarm4_def)

lemma alarm_run: "run_conversation single_rng one_failover 0 = Some alarm4"
proof -
  have "fold_option (generation_body single_rng one_failover) [0, 1, 2, 3] alarm0 = Some alarm4"
    using alarm_step0 alarm_step1 alarm_step2 alarm_step3 by simp
  moreover have "[0..<unat (cf_gen_steps one_failover)] = [0, 1, 2, 3]"
    by (simp add: one_failover_def upt_rec)
  moreover have "run_drained alarm4"
    by (simp add: run_drained_def alarm4_def alarm3_def alarm2_def alarm1_def tick_on_response link_empty_def link_new_def)
  ultimately show ?thesis
    using drain_loop_unfold [of 100200 single_rng one_failover alarm4]
    by (simp add: run_conversation_def alarm0_def) (simp add: one_failover_def)
qed

lemma alarm_end:
  "outstanding (hs_client alarm4) = []" "cli_received (hs_client alarm4) = {1}" "hs_mismatches alarm4 = 0"
  "srv_committed_upto (hs_server alarm4) = 0" "cli_next_seq (hs_client alarm4) = 2"
proof -
  show "outstanding (hs_client alarm4) = []" by (simp add: alarm4_def alarm3_def tick_on_response)
  show "cli_received (hs_client alarm4) = {1}" "cli_next_seq (hs_client alarm4) = 2"
    by (simp_all add: alarm4_def alarm3_def tick_done_def tick_client_def tick_response_def tick_request_def
        harness_start_def eval_client eval_server fuzz_app_def)
  show "hs_mismatches alarm4 = 0" by (simp add: alarm4_def alarm3_def alarm2_def alarm1_def alarm_start)
  show "srv_committed_upto (hs_server alarm4) = 0"
    by (simp add: alarm4_def alarm3_def server_restore_fields server_on_hash_mismatch_def server_checkpoint_def
        alarm_start tick_start_def harness_start_def server_new_def)
qed

text \<open>The verdict: the run fails its check.\<close>

lemma alarm_verdict: "\<exists>st. run_one single_rng one_failover 0 = Some st \<and> \<not> cr_ok (st_result st)"
proof -
  have "config_fits one_failover" by (simp add: config_fits_def one_failover_def one_tick_def)
  from run_checked [OF this, of single_rng 0] obtain st where
    "run_one single_rng one_failover 0 = Some st"
    "cr_ok (st_result st) \<longleftrightarrow> run_ok (hs_client alarm4) (hs_server alarm4) (hs_mismatches alarm4)
       (unat (run_bound one_failover)) (cf_failovers one_failover > 0)"
    using alarm_run by auto
  then show ?thesis by (auto simp: run_ok_def alarm_end)
qed

end
