(* ===== verification/Program_Properties.thy ===== *)
theory Program_Properties
  imports Http_Demo Fuzz_Main Thread_Pool Harness_Drain Failover_Alarm
begin

text \<open>
  Properties of the programs around the libraries: the fuzzing driver's \<open>main\<close>, the worker
  pool of the server, and the two demo programs.
\<close>

section \<open>The fuzzing driver\<close>

text \<open>C29: the fuzzing program returns, whatever the random generator does: without a time budget
  after one run for every seed, with one at the first turn at which the clock is past it. It counts
  every run as passed or failed, reports exactly the failed seeds, in order, and exits with 0
  exactly when every run passed its check (as long as fewer than \<open>2 ^ 64\<close> runs are made, which
  a number of seeds guarantees).\<close>

theorem fuzz_main_verdict:
  assumes "parse strtod args = Inr cfg" and "config_fits cfg"
    and "cf_minutes cfg \<le> 0 \<or> (\<exists>n. cf_minutes cfg * 60 \<le> clock n)"
    and "R = (\<lambda>seed. run_one (G (cf_rate cfg)) cfg (seeded seed))"
  shows "\<exists>m seeds status T. fuzz_main strtod seeded G clock args = Some (Exit status (Some T)) \<and>
    seeds = map (\<lambda>k. cf_base_seed cfg + of_nat k) [0..<m] \<and>
    (if cf_minutes cfg \<le> 0 then m = unat (cf_seeds cfg)
     else cf_minutes cfg * 60 \<le> clock m \<and> (\<forall>k < m. clock k < cf_minutes cfg * 60)) \<and>
    tt_run T = of_nat m \<and> tt_passed T + tt_failed T = of_nat m \<and>
    map fst (tt_reports T) = filter (\<lambda>seed. \<not> cr_ok (st_result (the (R seed)))) seeds \<and>
    (m < 2 ^ 64 \<longrightarrow> status = (if \<forall>seed \<in> set seeds. cr_ok (st_result (the (R seed))) then 0 else 1))"
proof -
  have some: "R seed \<noteq> None" for seed using run_checked [OF assms(2)] unfolding assms(4) by fastforce
  obtain m where m: "out_of_seeds cfg clock m" "\<And>k. k < m \<Longrightarrow> \<not> out_of_seeds cfg clock k"
    and e: "if cf_minutes cfg \<le> 0 then m = unat (cf_seeds cfg)
      else cf_minutes cfg * 60 \<le> clock m \<and> (\<forall>k < m. clock k < cf_minutes cfg * 60)"
    using seed_loop_end [OF assms(3)] by blast
  let ?T = "count_all R (seed_list cfg 0 m) totals_new"
  have main: "fuzz_main strtod seeded G clock args = Some (Exit (if tt_failed ?T = 0 then 0 else 1) (Some ?T))"
    using assms(1,4) some m by (rule fuzz_main_counts)
  have l: "length (seed_list cfg 0 m) = m" by (simp add: seed_list_def)
  have "(if tt_failed ?T = 0 then 0 else 1 :: int) =
      (if \<forall>seed \<in> set (seed_list cfg 0 m). cr_ok (st_result (the (R seed))) then 0 else 1)" if "m < 2 ^ 64"
    using no_failures [of "seed_list cfg 0 m" R] l that by simp
  then show ?thesis
    using main e count_all_verdict [of R "seed_list cfg 0 m"] unfolding l unfolding seed_list_def by blast
qed

theorem fuzz_main_verdict_witness:
  "\<exists>status T. fuzz_main (\<lambda>_. 3) unat (\<lambda>rate. counting_rng) (\<lambda>_. 0) [''--seeds'', ''3''] =
     Some (Exit status (Some T)) \<and> tt_run T = 3 \<and> tt_passed T + tt_failed T = 3"
proof -
  let ?cfg = "default_config\<lparr>cf_seeds := 3\<rparr>"
  have "truncated 3 = 3" using truncated_of_int [of 3] by simp
  then have "parse (\<lambda>_. 3) [''--seeds'', ''3''] = Inr ?cfg"
    by (simp add: parse_def valued_options_def set_option_def cast_u64_def)
  moreover have "cf_minutes ?cfg \<le> 0" "config_fits ?cfg" by (simp_all add: default_config_def config_fits_def)
  ultimately show ?thesis
    using fuzz_main_verdict [where clock = "\<lambda>_. 0" and seeded = unat and G = "\<lambda>rate. counting_rng", OF _ _ _ refl] by fastforce
qed

text \<open>C28: if the network loses nothing and no failover is asked for, every run of the fuzzing
  program drains before the cap on its drain loop, for every seed and every random generator,
  whatever is duplicated, reordered and delayed up to 20000 ticks; so the program reports no
  failure, counts every seed as passed and exits with 0.\<close>

theorem lossless_fuzzing_passes:
  assumes "parse strtod args = Inr cfg" and "config_fits cfg" and "unat (cf_gen_steps cfg) * 50 + 100000 < 2 ^ 64"
    and "0 \<le> cf_max_latency cfg" and "cf_max_latency cfg \<le> 20000" and "unat (cf_parallel cfg) < 2 ^ 61"
    and "cf_failovers cfg = 0" and "cf_minutes cfg \<le> 0"
    and "cf_drop cfg \<le> 0" and "\<forall>g. 0 \<le> fst (rng_uniform (G (cf_rate cfg)) g)"
  shows "(\<forall>g. \<exists>h. run_conversation (G (cf_rate cfg)) cfg g = Some h \<and> run_drained h) \<and>
    (\<exists>T. fuzz_main strtod seeded G clock args = Some (Exit 0 (Some T)) \<and>
      tt_run T = cf_seeds cfg \<and> tt_passed T = cf_seeds cfg \<and> tt_failed T = 0 \<and> tt_reports T = [])"
proof -
  let ?G = "G (cf_rate cfg)" and ?m = "unat (cf_seeds cfg)"
  define R where "R = (\<lambda>seed. run_one ?G cfg (seeded seed))"
  have "lossless ?G cfg" using assms(9,10) by (simp add: lossless_def)
  moreover have "cap_fits cfg" using assms(3,5) unfolding cap_fits_def by blast
  ultimately have drains: "\<exists>h. run_conversation ?G cfg g = Some h \<and> run_drained h" for g
    by (rule lossless_drains [OF _ assms(2) _ assms(7)])
  have "nat (cf_max_latency cfg) \<le> 20000" using assms(5) by simp
  then have "4 * (unat (cf_parallel cfg) + nat (cf_max_latency cfg)) + 16 < 2 ^ 64" using assms(6) by simp
  then have ok: "\<exists>st. R seed = Some st \<and> cr_ok (st_result st)" for seed
    using drains [of "seeded seed"] answered_run_passes [OF assms(2,7,4)] by (auto simp: R_def run_drained_def)
  define T where "T = count_all R (seed_list cfg 0 ?m) totals_new"
  have passed: "cr_ok (st_result (the (R seed)))" "R seed \<noteq> None" for seed using ok [of seed] by auto
  have l: "length (seed_list cfg 0 ?m) = ?m" by (simp add: seed_list_def)
  have main: "fuzz_main strtod seeded G clock args = Some (Exit (if tt_failed T = 0 then 0 else 1) (Some T))"
    unfolding T_def using assms(1) R_def passed(2) untimed_end [OF assms(8)] by (rule fuzz_main_counts)
  note V = count_all_verdict [of R "seed_list cfg 0 ?m", folded T_def, unfolded l]
  have "?m < 2 ^ 64" using unsigned_less [of "cf_seeds cfg", where ?'a = nat] by simp
  then have "tt_failed T = 0"
    using no_failures [of "seed_list cfg 0 ?m" R] l passed(1) by (simp add: T_def)
  moreover have "tt_passed T = cf_seeds cfg" "tt_run T = cf_seeds cfg" using V(1,2) calculation by simp_all
  moreover have "tt_reports T = []" using V(3) passed(1) by simp
  ultimately show ?thesis using drains main by simp
qed

theorem lossless_fuzzing_passes_witness:
  "\<exists>T. fuzz_main (\<lambda>_. 0) unat (\<lambda>rate. counting_rng) (\<lambda>_. 0) [''--drop'', ''0''] = Some (Exit 0 (Some T)) \<and>
     tt_passed T = 100 \<and> tt_failed T = 0"
proof -
  let ?cfg = "default_config\<lparr>cf_drop := 0\<rparr>"
  have "parse (\<lambda>_. 0) [''--drop'', ''0''] = Inr ?cfg"
    by (simp add: parse_def valued_options_def set_option_def)
  from lossless_fuzzing_passes [OF this, where G = "\<lambda>rate. counting_rng" and seeded = unat and clock = "\<lambda>_. 0"]
  have "\<exists>T. fuzz_main (\<lambda>_. 0) unat (\<lambda>rate. counting_rng) (\<lambda>_. 0) [''--drop'', ''0''] = Some (Exit 0 (Some T)) \<and>
      tt_run T = cf_seeds ?cfg \<and> tt_passed T = cf_seeds ?cfg \<and> tt_failed T = 0 \<and> tt_reports T = []"
    by (simp add: config_fits_def default_config_def counting_rng_def)
  then show ?thesis by (auto simp: default_config_def)
qed


section \<open>The worker pool\<close>



section \<open>The demo programs\<close>

text \<open>C32: the sender threads of the demo client, whatever their interleaving, call \<open>send\<close> for message
  numbers below the limit only, in order and never twice; no interleaving goes on for ever,
  and a thread can go on until all have left their loop, when every number has been sent.\<close>

theorem demo_client_sends_each_once:
  assumes "(demo_step c)\<^sup>*\<^sup>* (demo_client_new c) d" and "0 < cc_parallel c"
    and "nat (cc_count c) + nat (cc_parallel c) \<le> 2 ^ 31"
  shows "(\<exists>k \<le> nat (cc_count c). dc_sent d = map int [0..<k]) \<and>
    (all_joined d \<longrightarrow> dc_sent d = map int [0..<nat (cc_count c)]) \<and>
    (\<exists>e. (demo_step c)\<^sup>*\<^sup>* d e \<and> all_joined e) \<and>
    (\<nexists>run. run 0 = d \<and> (\<forall>k. demo_step c (run k) (run (Suc k))))"
proof (intro conjI impI)
  have fits: "numbers_fit c" using assms(3) by (simp add: numbers_fit_def)
  then have inv: "demo_inv c d" using demo_end.run_keeps [OF assms(1)] demo_inv_new by blast
  then show "\<exists>k \<le> nat (cc_count c). dc_sent d = map int [0..<k]" unfolding demo_inv_def by blast
  show "\<exists>e. (demo_step c)\<^sup>*\<^sup>* d e \<and> all_joined e" using demo_end.run_ends [of c d] inv fits by blast
  show "\<nexists>run. run 0 = d \<and> (\<forall>k. demo_step c (run k) (run (Suc k)))"
    using demo_end.no_endless_run [of c] inv fits by blast
  assume "all_joined d"
  from joined_sent_all [OF inv this assms(2)] show "dc_sent d = map int [0..<nat (cc_count c)]" .
qed

theorem demo_client_sends_each_once_witness:
  "\<exists>e. (demo_step (default_client_config\<lparr>cc_parallel := 3\<rparr>))\<^sup>*\<^sup>*
       (demo_client_new (default_client_config\<lparr>cc_parallel := 3\<rparr>)) e \<and> all_joined e"
proof -
  let ?c = "default_client_config\<lparr>cc_parallel := 3\<rparr>"
  have "(demo_step ?c)\<^sup>*\<^sup>* (demo_client_new ?c) (demo_client_new ?c)" by simp
  from demo_client_sends_each_once [OF this] show ?thesis by (simp add: default_client_config_def)
qed



text \<open>C10: while the server does not crash, the demo client can always be brought to its end: from every
  reachable state of the whole program, whatever was lost so far, some continuation joins
  all its sender threads.\<close>

theorem demo_client_can_finish:
  assumes "demo_sys_reachable app False path c s"
    and "nat (cc_count c) + nat (cc_parallel c) \<le> 2 ^ 31"
  shows "\<exists>s'. (demo_sys_step app False path c)\<^sup>*\<^sup>* s s' \<and> all_joined (ds_demo s')"
  using demo_finishes [OF assms(1)] assms(2) by (simp add: numbers_fit_def)

theorem demo_client_can_finish_witness:
  "\<exists>s'. (demo_sys_step demo_app False [] one_message)\<^sup>*\<^sup>* demo_run2 s' \<and> all_joined (ds_demo s')"
proof -
  have "nat (cc_count one_message) + nat (cc_parallel one_message) \<le> 2 ^ 31"
    by (simp add: one_message_def default_client_config_def)
  from demo_client_can_finish [OF demo_run2_reachable this] show ?thesis .
qed

text \<open>C33: a demo server started with the path of a checkpoint that another process has written serves
  from exactly that state: it is marked as restored and holds the committed requests, the
  history hash, the event count and the buffered responses of the checkpoint.\<close>

theorem server_restarts_from_file:
  assumes "server_args args default_server_config = Inr c" and "sc_checkpoint c = ic_checkpoint_path i"
    and "ic_checkpoint_path i \<noteq> []" and "creates (sc_port c)" and "accepts (sc_port c)"
    and "length (checkpoint_to_json (server_checkpoint (ic_core i))) \<le> n"
    and "um_wf (srv_resp_buffer (ic_core i))"
  shows "\<exists>j. server_main creates accepts now (fold run_op (WriteCheckpoint (Some n) i) fs) args = Some (Serving j) \<and>
    ic_restored j \<and> srv_committed_upto (ic_core j) = srv_committed_upto (ic_core i) \<and>
    h_cur_hash (srv_history (ic_core j)) = h_cur_hash (srv_history (ic_core i)) \<and>
    event_count (srv_history (ic_core j)) = event_count (srv_history (ic_core i)) \<and>
    um_find (srv_resp_buffer (ic_core j)) = um_find (srv_resp_buffer (ic_core i))"
proof -
  let ?cp = "server_checkpoint (ic_core i)" and ?fs = "fold run_op (WriteCheckpoint (Some n) i) fs"
  have "?fs (ic_checkpoint_path i) = Some (checkpoint_to_json ?cp)"
    using assms(6) by (simp add: WriteCheckpoint_def Let_def)
  then have "load_checkpoint (sc_checkpoint c) ?fs = Some (Some ?cp)"
    using assms(2,3) checkpoint_read_back [of ?cp "[]"] by (simp add: load_checkpoint_def)
  then obtain j where j: "server_main creates accepts now ?fs args = Some (Serving j)" "ic_restored j"
    "ic_core j = server_on_hash_mismatch (server_restore ?cp (sc_set_hash c) now)"
    using assms(1,4,5)
    by (simp add: server_main_def interceptor_new_def ic_on_hash_mismatch_def on_committed_def Let_def split: if_splits)
  have d: "distinct (map br_seq (cp_buffer ?cp))"
    using assms(7) by (simp add: server_checkpoint_def um_wf_def comp_def case_prod_beta)
  have "um_find (srv_resp_buffer (server_restore ?cp (sc_set_hash c) now)) = um_find (srv_resp_buffer (ic_core i))"
    unfolding server_restore_find(1) [OF d] by (simp add: server_checkpoint_def comp_def case_prod_beta)
  then have "um_find (srv_resp_buffer (ic_core j)) = um_find (srv_resp_buffer (ic_core i))"
    by (simp add: j(3) server_on_hash_mismatch_def)
  then show ?thesis
    using j by (simp add: server_on_hash_mismatch_def server_restore_fields server_checkpoint_def
        history_resume_def event_count_def)
qed

theorem server_restarts_from_file_witness:
  "\<exists>n j. server_main (\<lambda>_. True) (\<lambda>_. True) 0
      (fold run_op (WriteCheckpoint (Some n) ((hx_ic http3)\<lparr>ic_checkpoint_path := ''cp''\<rparr>)) Map.empty)
      [''--checkpoint'', ''cp'', ''--hash''] = Some (Serving j) \<and>
    ic_restored j \<and> srv_committed_upto (ic_core j) = 1"
proof -
  let ?i = "(hx_ic http3)\<lparr>ic_checkpoint_path := ''cp''\<rparr>" and ?args = "[''--checkpoint'', ''cp'', ''--hash'']"
  have "server_args ?args default_server_config =
      Inr (default_server_config\<lparr>sc_checkpoint := ''cp'', sc_set_hash := True\<rparr>)"
    by (simp add: server_valued_def set_server_option_def)
  moreover have "um_wf (srv_resp_buffer (ic_core ?i))" using http_buffer_wf by simp
  ultimately show ?thesis
    using server_restarts_from_file [of ?args _ ?i "\<lambda>_. True" "\<lambda>_. True" _ 0 Map.empty, OF _ _ _ _ _ order.refl]
      http_value(2) by fastforce
qed

end
