(* ===== verification/Spec2Isabelle.thy ===== *)
theory Spec2Isabelle
  imports Core_Properties Failover_Properties Http_Properties Program_Properties
begin

text \<open>
  \<^bold>\<open>Color: a protocol for one totally ordered conversation over HTTP.\<close>

  Color lets a client send requests to a server over a network that drops, repeats, delays
  and reorders messages, such that both peers end up with one history of events and the
  application behind the server sees every request once and in order. When the server
  process crashes, a replacement starts from an old checkpoint and asks the client for the
  part of the history it has lost.

  \<^bold>\<open>The parts of the program and the theories that model them.\<close> Paths are relative to
  \<open>src/\<close>. A C++ class is a record, a struct a record with the defaults of its member
  initialisers, a method a function from the state to a result and the new state, and a
  callback a flag with the list of its calls.

  \<^item> \<open>Color_Prelude\<close>: machine integers, \<open>std::unordered_map\<close> as an association list with the
    contract \<open>unordered_map\<close> (a locale, interpreted as \<open>umap\<close>), decimal printing.
  \<^item> \<open>Color_Message\<close>: \<open>Request\<close> and \<open>Response\<close> of \<open>src/core/color_message.h\<close>.
  \<^item> \<open>Color_History\<close>: \<open>Event\<close>, the FNV chain and \<open>History\<close> of \<open>src/core/color_history.cc\<close>,
    on 64-bit words. The locale \<open>rolling_history\<close> is what the state machines rely on.
  \<^item> \<open>Color_Checkpoint\<close>: \<open>Checkpoint\<close> and \<open>Replay\<close> of \<open>src/core/color_checkpoint.h\<close>.
  \<^item> \<open>Color_Server\<close>, \<open>Color_Client\<close>: the two state machines of \<open>src/core\<close>, every method on
    every branch. The application is a parameter, which may read and change a world of its
    own. The loop of the client that advances its low-water mark need not end and is a
    \<open>while_option\<close>.
  \<^item> \<open>Json_Parser\<close>, \<open>Failover_Json\<close>: the writer and the recursive-descent parser of
    \<open>src/wire/failover_json.cc\<close>, with its error flag. The locales \<open>json_element\<close>,
    \<open>json_field\<close> and \<open>json_codec\<close> state what the loops over members and elements need of
    the code for one of them.
  \<^item> \<open>Http_Headers\<close>: the header lines of \<open>color_http_client.cc\<close> and \<open>curl_transport.cc\<close> and how
    \<open>color_interceptor.cc\<close> reads them back. \<open>Curl_Transport\<close>: \<open>CurlTransport\<close> of
    \<open>src/client/curl_transport.cc\<close> with its injected losses. \<open>Http_Client\<close>: \<open>ColorHttpClient\<close>
    of \<open>src/client/color_http_client.cc\<close>, its retry loops as partial functions.
  \<^item> \<open>Interceptor\<close>: \<open>ColorInterceptor\<close> of \<open>src/server/color_interceptor.cc\<close>: parsing, the
    table of held request objects, replies, replays, and checkpoints as file operations that
    a crash may cut and a full disk may shorten.
  \<^item> \<open>Thread_Pool\<close>: \<open>ThreadPoolExecutor\<close> of \<open>src/server/thread_pool_executor.h\<close> as a step
    relation over the sections that hold its mutex.
  \<^item> \<open>Sim_Network\<close>, \<open>Checker\<close>, \<open>Harness\<close>, \<open>Fuzz_Main\<close>: the fuzzing program under
    \<open>verification/src\<close>: the simulated link, \<open>check_run\<close>, \<open>run_one\<close>, and \<open>parse\<close> and \<open>main\<close>.
  \<^item> \<open>Demo_Programs\<close>: the command lines, the sender threads, the application and the exit
    statuses of the two programs under \<open>demo/src\<close>.

  \<^bold>\<open>How they interact.\<close> Three transition systems compose the parts, each over the
  definitions above.

  \<^item> \<open>Conversation\<close>: one client and one server with messages, recovery signals, replays and
    checkpoints in between. This is the abstract protocol: a message offered once may be
    delivered any number of times, and a crash restores any checkpoint taken before.
  \<^item> \<open>Http_System\<close>: sender threads inside \<open>send\<close> and \<open>recover\<close>, the interceptor, the checkpoint
    file and HTTP. A step is a section of the code under one of the two mutexes, or an event
    of the network. \<open>Http_Refinement\<close> simulates it by \<open>Conversation\<close>.
  \<^item> \<open>Demo_System\<close>: the sender threads of the demo client on top of \<open>Http_System\<close>.

  The driver of the harness is a function, and \<open>Harness_Refinement\<close> shows that its runs are
  executions of \<open>Conversation\<close>, for every random generator.

  \<^bold>\<open>What the lemmas show.\<close> \<open>Request_Log\<close> is the specification the peers implement: a log
  of requests determines a total order of events. \<open>Client_Invariant\<close> and \<open>Server_Invariant\<close>
  relate each peer to the log, and every operation keeps the relation; \<open>Failover_Invariant\<close>
  adds restarts and replays. The locale \<open>bounded_system\<close> of \<open>Conversation\<close> turns such
  facts into invariants of reachable states, and is interpreted for the safety invariant,
  the one without crashes (\<open>Plain_Conversation\<close>, \<open>Plain_System\<close>), deliveries and payloads
  (\<open>Answers\<close>). \<open>Recovery\<close> shows that every state can drain. \<open>Json_Truncation\<close> shows
  that no proper prefix of a written checkpoint or replay is accepted,
  \<open>Interceptor_Invariant\<close> what becomes of the request objects and of the checkpoint file, and
  \<open>Http_Replies\<close> that a sender is answered with the response to its own request.
  \<open>Http_Liveness\<close> and \<open>Demo_Liveness\<close> carry the drain over to the deployed system and to the
  demo client: from every reachable state some continuation returns every sender.
  \<open>Harness_Drain\<close> is about what must happen rather than what can: without losses every run
  of the harness drains before its cap, in four phases of one latency each.
  \<open>Failover_Alarm\<close> is a run in which the protocol does what it should and the check fails.
  \<open>Winding_Down\<close> is the interface of threads that work until nothing is left, interpreted
  for the worker pool and the demo client. \<open>Demo_Run\<close> and \<open>Http_Demo\<close> are the concrete
  executions at which theorems about reachable states are instantiated.

  The properties are in \<open>Core_Properties\<close> (histories, commit order), \<open>Failover_Properties\<close>
  (JSON, replays, three failure scenarios of the code), \<open>Http_Properties\<close> (the deployed
  system), \<open>Program_Properties\<close> (the programs) and below (the protocol and the harness).

  \<^bold>\<open>Bounds.\<close>

  \<^item> \<open>sys_fits\<close>: twice the number of requests is below \<open>2 ^ 64\<close>. Every request adds its own
    event and one acknowledgement at most, so the positions in the history fit a \<open>size_t\<close>.
    Beyond it request ids and positions wrap. \<open>config_fits\<close> gives it for a run of the
    harness, which generates at most \<open>parallel\<close> requests a tick.
  \<^item> \<open>count + parallel \<le> 2 ^ 31\<close> for the demo client: its atomic \<open>int\<close> goes beyond \<open>count\<close>
    once for every thread.
  \<^item> The recovery loop of the harness makes at most eight turns, as in the code; one is
    proved to be enough. The loop that drains a run is bounded by the code's own cap,
    of which a lossless run needs four times the largest latency, and four. With losses no cap
    is enough for every random generator, and \<open>harness_run_passes\<close> assumes the drain.
  \<^item> \<open>settles\<close>: \<open>send\<close> retries for ever, so that it returns is shown for a transport whose
    losses come to an end.
  \<^item> \<open>rp_from rp \<le> event_count\<close>, in both step relations (\<open>replay_fits\<close> over HTTP): no replay
    is delivered to a server that holds less than the replay leaves out. The code does not
    check it; \<open>stale_replay_not_detected\<close> shows what happens otherwise.

  \<^bold>\<open>Parameters.\<close> The application; the random generators and distributions of the C++
  library; libcurl; \<open>strtod\<close>, the clock, and whether the HTTP server can be created and
  started. Nothing is assumed about them. Over HTTP, \<open>arrives\<close> and \<open>answered_with\<close> say that
  the header lines and bodies a library hands over are those that were sent.

  \<^bold>\<open>Not modelled.\<close> Printing and sleeping, which change no state the code reads. The HTTP
  server library net_http and libcurl, which are not part of the repository, and with them
  \<open>ColorInterceptor::Register\<close>, which only hands them the handlers. The rounding of
  \<open>double\<close>s: probabilities and minutes are reals. The mutexes themselves: a section that
  holds one is one step. The loss of unsynchronised file contents at a power failure: a
  crash is a crash of the process.
\<close>


section \<open>Safety\<close>

text \<open>C1: without crashes, in every reachable state the server's committed history is exactly the
  history of its committed requests, and a prefix of the client's: the two peers agree on
  one total order of events.\<close>

theorem server_history_is_prefix:
  assumes "reachable app False s" and "sys_fits s"
  shows "h_events (srv_history (sv s)) = hist_of (take (unat (srv_committed_upto (sv s))) (issued s)) \<and>
    (\<exists>zs. h_events (cli_history (cl s)) = h_events (srv_history (sv s)) @ zs)"
proof -
  note P = plain_sysD [OF reachable_plain [OF assms]] note D = sys_invD [OF P(1)]
  have sh: "h_events (srv_history (sv s)) = hist_of (take (n_committed (sv s)) (issued s))"
    using server_invD(2) [OF D(2)] plain_serverD(2) [OF P(4)] by (simp add: represents_def)
  moreover have "hist_of (issued s) = hist_of (take (n_committed (sv s)) (issued s)) @
      hist_of (drop (n_committed (sv s)) (issued s))"
    by (metis append_take_drop_id hist_of_simps(2))
  ultimately show ?thesis using client_history_events [OF D(1)] by auto
qed

theorem server_history_is_prefix_witness:
  "reachable demo_app False demo \<and> sys_fits demo \<and>
   (\<exists>zs. h_events (cli_history (cl demo)) = h_events (srv_history (sv demo)) @ zs)"
  using server_history_is_prefix [OF reach_demo demo_fits] reach_demo [of False] demo_fits by blast





text \<open>C2: without crashes the application was called exactly once for every committed request
  and never for another one.\<close>

theorem application_runs_exactly_once:
  assumes "reachable app False s" and "sys_fits s"
  shows "um_find (srv_app_calls (sv s)) q =
    (if 1 \<le> q \<and> q \<le> srv_committed_upto (sv s) then Some 1 else None)"
  using plain_serverD(4) [OF plain_sysD(4) [OF reachable_plain [OF assms]], of q]
  by (simp add: ids_def word_le_nat_alt)

theorem application_runs_exactly_once_witness:
  "reachable demo_app False demo \<and> sys_fits demo \<and>
   um_find (srv_app_calls (sv demo)) 2 =
     (if 1 \<le> (2 :: seq) \<and> 2 \<le> srv_committed_upto (sv demo) then Some 1 else None)"
  using application_runs_exactly_once [OF reach_demo demo_fits, of 2] reach_demo [of False] demo_fits
  by blast



text \<open>C12: without crashes all copies of a response agree: whatever is buffered at the server, on the
  wire, or kept by the client for one request has the same payload, although the
  application is an arbitrary function of a changing world.\<close>

theorem one_payload_per_request:
  assumes "reachable app False s" and "sys_fits s"
    and "(q, p) \<in> answers s" and "(q, p') \<in> answers s"
  shows "p = p'"
  using reachable_answered [OF assms(1,2)] assms(3,4)
  by (auto simp: answered_sys_def answers_ok_def dest: single_valuedD)

theorem one_payload_per_request_witness:
  "{p. (2, p) \<in> answers demo} = {''re:b''}"
proof -
  have b: "(2, ''re:b'') \<in> answers demo"
    by (simp add: answers_def demo_value)
  show ?thesis
  proof (intro equalityI subsetI)
    fix p assume "p \<in> {p. (2, p) \<in> answers demo}"
    then have "(2, p) \<in> answers demo" by (rule CollectD)
    from one_payload_per_request [OF reach_demo demo_fits b this] show "p \<in> {''re:b''}" by (rule subst) (rule singletonI)
  next
    fix p assume "p \<in> {''re:b''}"
    then show "p \<in> {p. (2, p) \<in> answers demo}" using b by (simp only: singleton_iff mem_Collect_eq)
  qed
qed

text \<open>Without crashes the acknowledgement lists partition the receipts: every received response
  is acknowledged by exactly one request, or waits to be acknowledged by the next one.\<close>

lemma acks_partition_receipts:
  assumes "reachable app False s" and "sys_fits s"
  shows "cli_received (cl s) = set (acks (issued s) @ cli_pending_new (cl s)) \<and>
    distinct (acks (issued s) @ cli_pending_new (cl s))"
  using plain_sysD(1,5) [OF reachable_plain [OF assms]] client_invD(10) [OF sys_invD(1)] by blast

text \<open>C13: with or without crashes the client hands every response to the application at most once,
  in the order of its receipt, which is the order of the response tokens in the history.\<close>

theorem delivered_once_in_order:
  assumes "reachable app crashes s" and "sys_fits s" and "cli_deliver (cl s)"
  shows "map fst (cli_delivered (cl s)) = acks (issued s) @ cli_pending_new (cl s) \<and>
    distinct (map fst (cli_delivered (cl s))) \<and>
    map ev_seq (filter ev_is_response (h_events (cli_history (cl s)))) = acks (issued s)"
proof -
  have d: "sys_inv s" "delivery_ok s" using reachable_delivery [OF assms(1,2)] by (simp_all add: delivery_sys_def)
  note C = sys_invD(1) [OF d(1)]
  have "map ev_seq (filter ev_is_response (hist_of I)) = acks I" for I
    by (induction I) (simp_all add: hist_of_def acks_def tokens_def filter_map comp_def)
  then show ?thesis
    using d(2) assms(3) client_invD(10) [OF C] client_history_events [OF C]
    by (simp add: delivery_ok_def)
qed

theorem delivered_once_in_order_witness:
  "cli_deliver (cl demo) \<and> map fst (cli_delivered (cl demo)) = acks (issued demo) @ cli_pending_new (cl demo)"
proof -
  have d: "cli_deliver (cl demo)" by (simp add: demo_value)
  then show ?thesis using delivered_once_in_order [OF reach_demo demo_fits d] by simp
qed

text \<open>A retransmission is the original request: the client's frozen copy of an unanswered id is
  the request issued under that id, ids are contiguous from 1, and the acknowledgements it
  carries speak of earlier requests only.\<close>

lemma retransmissions_are_frozen:
  assumes "reachable app crashes s" and "sys_fits s" and "frozen q (cl s) = Some r"
  shows "1 \<le> unat q \<and> unat q \<le> length (issued s) \<and> r = issued s ! (unat q - 1) \<and>
    req_seq r = q \<and> req_ack_base r \<le> q \<and> (\<forall>i \<in> set (req_ack_new r). i < q)"
proof -
  note C = sys_invD(1) [OF reachable_inv [OF assms(1,2)]]
  have q: "q \<in> ids (length (issued s))" "r = issued s ! (unat q - 1)"
    using assms(3) client_invD(9) [OF C, of q] by (auto simp: frozen_def split: if_splits)
  then have k: "unat q - 1 < length (issued s)" "1 \<le> unat q" by (auto simp: ids_def)
  have "unat (req_seq r) = unat q" using log_ok_seq [OF client_invD(1) [OF C] k(1)] k(2) q(2) by simp
  moreover have "unat (req_ack_base r) \<le> unat q"
    using log_ok_base [OF client_invD(1) [OF C] k(1)] k(2) q(2) by simp
  moreover have "\<forall>i \<in> set (req_ack_new r). i < q"
    using log_ok_acks [OF client_invD(1) [OF C] k(1)] k(2) q(2) by (force simp: ids_def word_less_nat_alt)
  ultimately show ?thesis using q k by (auto simp: ids_def word_le_nat_alt intro: word64_eqI)
qed

section \<open>Recovery signals and buffers\<close>

text \<open>Without crashes no request in the network makes the server ask for a recovery, and no
  recovery signal is ever sent.\<close>

lemma no_recovery_without_crash:
  assumes "reachable app False s" and "sys_fits s" and "r \<in> set (c2s s)"
  shows "\<not> needs_recover r (sv s) \<and> signals s = []"
proof -
  have p: "plain_sys s" using assms(1,2) by (rule reachable_plain)
  note P = plain_sysD [OF p] note D = sys_invD [OF P(1)]
  have "r \<in> set (issued s)" using assms(3) D(3) by blast
  then show ?thesis
    using plain_no_recover [OF P(4) D(7) _ D(5) D(2)] assms(2) P(2)
    by (simp add: sys_fits_def plain_inv_def)
qed

text \<open>C15: without crashes the server keeps the response of every committed request until the client
  has received it, and sends an empty no-op response only for requests the client has
  already received the answer to.\<close>

theorem unanswered_stay_answerable:
  assumes "reachable app False s" and "sys_fits s"
  shows "(\<forall>q. 1 \<le> q \<and> q \<le> srv_committed_upto (sv s) \<and> q \<notin> cli_received (cl s) \<longrightarrow>
      q \<in> um_keys (srv_resp_buffer (sv s))) \<and>
    (\<forall>x \<in> set (s2c s). rsp_no_op x \<longrightarrow> rsp_seq x \<in> cli_received (cl s))"
proof -
  note P = plain_sysD [OF reachable_plain [OF assms]]
  have "ids (n_committed (sv s)) - cli_received (cl s) \<subseteq> um_keys (srv_resp_buffer (sv s))"
    using plain_serverD(6) [OF P(4)] .
  then show ?thesis using P(2) by (auto simp: plain_inv_def ids_def word_le_nat_alt)
qed

theorem unanswered_stay_answerable_witness:
  "srv_committed_upto (sv demo) = 2 \<and> cli_received (cl demo) = {1} \<and>
   2 \<in> um_keys (srv_resp_buffer (sv demo))"
proof -
  have v: "srv_committed_upto (sv demo) = 2" "cli_received (cl demo) = {1}"
    by (simp_all add: demo_value)
  then have "2 \<in> um_keys (srv_resp_buffer (sv demo))"
    using unanswered_stay_answerable [OF reach_demo demo_fits] by auto
  then show ?thesis using v by simp
qed

text \<open>C14: without crashes the retransmission buffer, the staging area and the acknowledgement list
  never exceeded the client's window, that is the largest number of requests that were
  unanswered at one moment; the bound does not depend on the length of the run.\<close>

theorem buffers_bounded_by_window:
  assumes "reachable app False s" and "sys_fits s"
  shows "srv_max_resp_buffer (sv s) \<le> peak s \<and> srv_max_pending (sv s) \<le> peak s \<and>
    cli_max_ack_new (cl s) \<le> peak s"
  using plain_sysD(3) [OF reachable_plain [OF assms]] by (simp add: window_bounds_def)

theorem buffers_bounded_by_window_witness:
  "peak demo = 2 \<and> srv_max_resp_buffer (sv demo) \<le> 2 \<and> srv_max_pending (sv demo) \<le> 2 \<and>
   cli_max_ack_new (cl demo) \<le> 2"
proof -
  have "peak demo = 2" by (simp add: demo_value)
  then show ?thesis using buffers_bounded_by_window [OF reach_demo demo_fits] by simp
qed

section \<open>Liveness\<close>

text \<open>Without crashes the oldest unanswered request is answered, with a real response, by the
  first copy of it that reaches the server.\<close>

lemma oldest_request_answered:
  assumes "reachable app False s" and "sys_fits s" and "frozen (cli_base (cl s)) (cl s) = Some r"
  shows "\<exists>x \<in> set (fst (on_request app r (sv s))).
    rsp_seq x = cli_base (cl s) \<and> \<not> rsp_no_op x \<and> \<not> rsp_recover x"
proof -
  note P = plain_sysD [OF reachable_plain [OF assms(1,2)]] note D = sys_invD [OF P(1)]
  have fit: "log_fits (issued s)" using assms(2) by (simp add: sys_fits_def)
  have "cli_base (cl s) \<in> um_keys (cli_inflight (cl s))" using assms(3) by (auto simp: frozen_def)
  then have r: "r \<in> set (issued s)" "req_seq r = cli_base (cl s)"
    using inflight_frozen [OF D(1), of "cli_base (cl s)"] assms(3) by auto
  have no: "\<not> needs_recover r (sv s)" using plain_no_recover [OF P(4) D(7) r(1) D(5) D(2) fit] .
  show ?thesis
    using oldest_answered [OF P(4) D(2) D(7) D(5) fit D(6) r(1), of app] client_invD(15,16) [OF D(1)]
      on_request_inv(2) [OF D(2) D(5) fit D(6) r(1) no, of app] r(2)
    by (auto simp: response_ok_def)
qed

text \<open>Without crashes no state is stuck: from every reachable state the network can deliver
  retransmissions and responses so that every issued request is answered.\<close>

lemma every_state_can_drain:
  assumes "reachable app False s" and "sys_fits s"
  shows "\<exists>t. (step app False)\<^sup>*\<^sup>* s t \<and> issued t = issued s \<and> outstanding (cl t) = []"
  using drain [OF reachable_plain [OF assms] assms(2)] by (simp add: outstanding_def)

text \<open>A recovery signal is always enough: whenever a request makes the server ask for a
  recovery, the client's replay lets the run continue until every issued request is
  answered and both peers have the same history hash.\<close>

lemma recovery_drains:
  assumes "reachable app crashes s" and "sys_fits s" and "r \<in> set (c2s s)"
    and "needs_recover r (sv s)"
  shows "\<exists>t. (step app crashes)\<^sup>*\<^sup>* s t \<and> issued t = issued s \<and> outstanding (cl t) = [] \<and>
    h_cur_hash (srv_history (sv t)) = h_cur_hash (cli_history (cl t))"
  using recover_drains [OF reachable_inv [OF assms(1,2)] assms(2-4)] by (simp add: outstanding_def)

text \<open>With crashes, from every reachable state the client can still get every request answered,
  generating at most one further request; that extra request is what makes a server that
  lost history ask for it.\<close>

lemma failover_can_drain:
  assumes "reachable app crashes s" and "2 * (length (issued s) + 1) < 2 ^ 64"
  shows "\<exists>t. (step app crashes)\<^sup>*\<^sup>* s t \<and> outstanding (cl t) = [] \<and>
    length (issued t) \<le> length (issued s) + 1"
proof -
  have "sys_fits s" using assms(2) by (simp add: sys_fits_def log_fits_def)
  then have "sys_inv s" using assms(1) reachable_inv by blast
  from failover_drain [OF this assms(2), of app crashes] show ?thesis by (simp add: outstanding_def)
qed

section \<open>Failover\<close>

text \<open>C11: a replay the client builds now, from any point not later than what the server holds, makes
  the server hold the complete history: the hashes agree again, every issued request counts
  as committed, and no issued request makes it ask for another recovery.\<close>

theorem replay_reconverges:
  assumes "reachable app crashes s" and "sys_fits s" and "n \<le> event_count (srv_history (sv s))"
    and v_def: "v = ingest_replay (build_replay n (cl s)) (sv s)"
  shows "h_cur_hash (srv_history v) = h_cur_hash (cli_history (cl s)) \<and>
    unat (srv_committed_upto v) = length (issued s) \<and>
    (\<forall>r \<in> set (issued s). \<not> needs_recover r v)"
proof -
  have inv: "sys_inv s" using assms(1,2) by (rule reachable_inv)
  note D = sys_invD [OF inv]
  note full = full_replay [OF inv assms(2,3), folded v_def]
  have "log_fits (issued s)" using assms(2) by (simp add: sys_fits_def)
  then show ?thesis
    using caught_up_hash [OF full(1) D(1) full(2)] full(2) caught_up_no_recover [OF full(1) D(5) _ _ full(2)]
    by blast
qed

theorem replay_reconverges_witness:
  "h_cur_hash (srv_history (ingest_replay (build_replay 0 (cl lost)) (sv lost))) =
     h_cur_hash (cli_history (cl lost)) \<and>
   unat (srv_committed_upto (ingest_replay (build_replay 0 (cl lost)) (sv lost))) = 3"
proof -
  have "(0 :: size_t) \<le> event_count (srv_history (sv lost))" by simp
  from replay_reconverges [OF reach_lost lost_fits this refl] show ?thesis by (simp add: lost_issued)
qed

section \<open>The checker and the harness\<close>

text \<open>The repository's checker accepts every crash-free run that answered all its requests, for
  every bound that is at least the client's window.\<close>

lemma check_run_passes:
  assumes "reachable app False s" and "sys_fits s" and "outstanding (cl s) = []" and "peak s \<le> bound"
  shows "\<exists>r. check_run (cl s) (sv s)
      (of_nat (length (cli_mismatches (cl s) @ srv_mismatches (sv s)))) bound False = Some r \<and>
    cr_ok r"
proof -
  have p: "plain_sys s" using assms(1,2) by (rule reachable_plain)
  note C = sys_invD(1) [OF plain_sysD(1) [OF p]]
  have "cli_inflight (cl s) = []" using assms(3) by (simp add: outstanding_def)
  then show ?thesis
    using check_run_verdict [OF issued_upto_bound [OF C]] plain_run_ok [OF p _ assms(4)] by blast
qed

text \<open>C30: the checker returns and its verdict means what its comment says: \<open>ok\<close> exactly when
  the server's history is a prefix of the client's (without failover), the hashes agree, no
  mismatch was counted, every call count is 1, everything issued is committed and answered,
  and the three high-water marks are within the bound.\<close>

theorem check_run_sound:
  assumes "unat (cli_next_seq c - 1) + 1 < 2 ^ 64"
  shows "\<exists>r. check_run c s m bound had_failover = Some r \<and>
    (cr_ok r \<longleftrightarrow>
      (had_failover \<or> (\<exists>zs. h_events (cli_history c) = h_events (srv_history s) @ zs) \<and>
        length (srv_app_calls s) = unat (srv_committed_upto s)) \<and>
      h_cur_hash (cli_history c) = h_cur_hash (srv_history s) \<and> m = 0 \<and>
      (\<forall>kv \<in> set (srv_app_calls s). snd kv = 1) \<and>
      srv_committed_upto s = cli_next_seq c - 1 \<and>
      (\<forall>q. 1 \<le> q \<and> q \<le> cli_next_seq c - 1 \<longrightarrow> q \<in> cli_received c) \<and>
      srv_max_resp_buffer s \<le> bound \<and> srv_max_pending s \<le> bound \<and> cli_max_ack_new c \<le> bound)"
proof -
  have "ids (unat (cli_next_seq c - 1)) \<subseteq> cli_received c \<longleftrightarrow>
      (\<forall>q. 1 \<le> q \<and> q \<le> cli_next_seq c - 1 \<longrightarrow> q \<in> cli_received c)"
    by (auto simp: ids_def word_le_nat_alt)
  then show ?thesis using check_run_verdict [OF assms] by (simp add: run_ok_def)
qed

theorem check_run_sound_witness:
  "\<exists>r. check_run (client_new False True) (server_new True (0 :: nat)) 1 0 False = Some r \<and> \<not> cr_ok r"
proof -
  have "unat (cli_next_seq (client_new False True) - 1) + 1 < 2 ^ 64" by (simp add: client_new_def)
  from check_run_sound [OF this, of "server_new True (0 :: nat)" 1 0 False]
  show ?thesis by auto
qed

text \<open>C26: every run of the fuzzing harness, for every random generator, returns, and its final
  client and server are those of a reachable state of the protocol (crash-free when no
  failover is configured) with at most ticks times window requests issued.\<close>

theorem harness_refines_protocol:
  assumes "config_fits cfg"
  shows "\<exists>h s st. run_conversation G cfg g = Some h \<and> run_one G cfg g = Some st \<and>
    reachable fuzz_app (cf_failovers cfg > 0) s \<and> cl s = hs_client h \<and> sv s = hs_server h \<and>
    length (issued s) \<le> unat (cf_gen_steps cfg) * unat (cf_parallel cfg) \<and> hs_mismatches h = 0"
proof -
  obtain h s where h: "run_conversation G cfg g = Some h"
    "tracks (cf_failovers cfg > 0) cfg (unat (cf_gen_steps cfg) * unat (cf_parallel cfg)) h s"
    using run_tracked [OF assms, of "cf_failovers cfg > 0" G g] by auto
  moreover obtain st where "run_one G cfg g = Some st" using run_checked [OF assms, of G g] by blast
  ultimately show ?thesis by (auto simp: tracks_def)
qed

theorem harness_refines_protocol_witness:
  "\<exists>h s st. run_conversation counting_rng default_config 0 = Some h \<and>
    run_one counting_rng default_config 0 = Some st \<and>
    reachable fuzz_app False s \<and> cl s = hs_client h \<and> sv s = hs_server h \<and>
    length (issued s) \<le> 16000"
proof -
  have "cf_failovers default_config = 0" "unat (cf_gen_steps default_config) * unat (cf_parallel default_config) = 16000"
    by (simp_all add: default_config_def)
  then show ?thesis using harness_refines_protocol [OF default_config_fits, of counting_rng 0] by auto
qed

text \<open>C27: a run of the harness without failovers passes its own check whenever the drain phase ended
  with every request answered, for every random generator: a reported failure would always
  be a failure to drain within the cap.\<close>

theorem harness_run_passes:
  assumes "config_fits cfg" and "cf_failovers cfg = 0" and "0 \<le> cf_max_latency cfg"
    and "4 * (unat (cf_parallel cfg) + nat (cf_max_latency cfg)) + 16 < 2 ^ 64"
    and "run_conversation G cfg g = Some h" and "outstanding (hs_client h) = []"
  shows "\<exists>st. run_one G cfg g = Some st \<and> cr_ok (st_result st)"
  using assms by (rule answered_run_passes)

theorem harness_run_passes_witness:
  "\<exists>st. run_one lucky_rng one_tick () = Some st \<and> cr_ok (st_result st)"
proof -
  have "outstanding (hs_client (tick3\<lparr>hs_now := 3\<rparr>)) = []" by (simp add: tick3_def tick_on_response)
  from harness_run_passes [OF _ _ _ _ tick_run this] show ?thesis
    by (simp add: config_fits_def one_tick_def)
qed

end
